theory Spec2Isabelle
  imports Complex_Main "HOL-Library.Sublist"
begin

section \<open>Costs\<close>

text \<open>
  The engines compute with \<^verbatim>\<open>double\<close> and \<^verbatim>\<open>float\<close> costs. The cost callbacks are
  supplied by the host, so no arithmetic on costs happens inside the engines: they only
  compare costs and test them against a sentinel. A cost is modelled as a real number or
  one of the two infinities (the NAIVE sentinel is \<open>\<plusminus>\<infinity>\<close>); NaN is left out, so that
  costs are totally ordered.
\<close>

datatype cost = MInf | Fin real | PInf

instantiation cost :: linorder
begin

fun less_eq_cost :: "cost \<Rightarrow> cost \<Rightarrow> bool" where
  "less_eq_cost MInf y = True"
| "less_eq_cost (Fin a) MInf = False"
| "less_eq_cost (Fin a) (Fin b) = (a \<le> b)"
| "less_eq_cost (Fin a) PInf = True"
| "less_eq_cost PInf PInf = True"
| "less_eq_cost PInf y = False"

definition less_cost :: "cost \<Rightarrow> cost \<Rightarrow> bool" where
  "less_cost x y = (x \<le> y \<and> \<not> y \<le> x)"

instance
proof
  fix x y z :: cost
  show "(x < y) = (x \<le> y \<and> \<not> y \<le> x)"
    by (simp add: less_cost_def)
  show "x \<le> x"
    by (cases x) simp_all
  show "x \<le> y \<Longrightarrow> y \<le> z \<Longrightarrow> x \<le> z"
    by (cases x; cases y; cases z) simp_all
  show "x \<le> y \<Longrightarrow> y \<le> x \<Longrightarrow> x = y"
    by (cases x; cases y) simp_all
  show "x \<le> y \<or> y \<le> x"
    by (cases x; cases y) auto
qed

end

lemma less_cost_simps [simp]:
  "(MInf < MInf) = False" "(MInf < Fin b) = True" "(MInf < PInf) = True"
  "(Fin a < MInf) = False" "(Fin a < Fin b) = (a < b)" "(Fin a < PInf) = True"
  "(PInf < y) = False"
  by (cases y; auto simp: less_cost_def)+

section \<open>States, labels, errors\<close>

type_synonym Time = nat
type_synonym StateId = nat

definition kInvalidTime :: Time where
  "kInvalidTime = 4294967295"

definition kInvalidStateId :: StateId where
  "kInvalidStateId = 4294967295"

text \<open>
  The state type \<^verbatim>\<open>T\<close> is a template parameter; the engines use its \<^verbatim>\<open>id()\<close> and
  \<^verbatim>\<open>time()\<close> only. A pointer \<^verbatim>\<open>const T*\<close> that may be null is a \<open>State option\<close>.
\<close>

record State =
  state_id :: StateId
  state_time :: Time

text \<open>\<^verbatim>\<open>LabelTemplate\<close>: accumulated cost, the state, and the predecessor (null when absent).\<close>

record Label =
  costsofar :: cost
  state :: State
  predecessor :: "State option"

text \<open>The three pure virtual cost callbacks of \<^verbatim>\<open>IViterbiSearch\<close>.\<close>

record CostModel =
  EmissionCost :: "State \<Rightarrow> cost"
  TransitionCost :: "State \<Rightarrow> State \<Rightarrow> cost"
  CostSofar :: "cost \<Rightarrow> cost \<Rightarrow> cost \<Rightarrow> cost"

text \<open>
  Every \<^verbatim>\<open>throw\<close> of the source is one constructor; \<open>OutOfRange\<close> stands for an
  unchecked vector access outside its bounds.
\<close>

datatype error =
    EmptyStates
  | TargetBeyondMax
  | NoSuccessors
  | NotScanned
  | InvalidScannedCost
  | OptimalityViolated
  | NotInColumn
  | FutureTime
  | LabelNotFound
  | OutOfRange

text \<open>A null state pointer reports the absent id.\<close>

definition id_of :: "State option \<Rightarrow> StateId" where
  "id_of p = (case p of None \<Rightarrow> kInvalidStateId | Some s \<Rightarrow> state_id s)"

section \<open>Priority queue\<close>

text \<open>
  Modelled from the spec: the class \<^verbatim>\<open>SPQueue\<close> of \<^verbatim>\<open>meili/priority_queue.h\<close>, which is
  not part of the sources at hand. The queue is the list of the labels it holds; the top
  is a label of least \<open>costsofar\<close>, the first such label of the list, and \<open>pop\<close> removes
  it. How \<open>push\<close> stores a label is a parameter of the engine (type \<open>push\<close>):
  \<open>push_heap\<close> is the plain binary heap of the spec, which keeps every label pushed.
\<close>

type_synonym push = "Label \<Rightarrow> Label list \<Rightarrow> Label list"

fun min_element :: "Label list \<Rightarrow> Label option" where
  "min_element [] = None"
| "min_element (l # ls) =
     (case min_element ls of
        None \<Rightarrow> Some l
      | Some m \<Rightarrow> if costsofar m < costsofar l then Some m else Some l)"

definition q_pop :: "Label list \<Rightarrow> (Label \<times> Label list) option" where
  "q_pop q = (case min_element q of None \<Rightarrow> None | Some l \<Rightarrow> Some (l, remove1 l q))"

definition push_heap :: push where
  "push_heap l q = q @ [l]"

section \<open>The LAZY engine: \<^verbatim>\<open>ViterbiSearch\<close>\<close>

record ViterbiSearch =
  v_state :: "State list"
  v_winner :: "State option list"
  unreached_states :: "State list list"
  queue :: "Label list"
  scanned_labels :: "StateId \<Rightarrow> Label option"
  earliest_time :: Time

definition IsInvalidCost :: "cost \<Rightarrow> bool" where
  "IsInvalidCost c = (c < Fin 0)"

definition ViterbiSearch_predecessor :: "ViterbiSearch \<Rightarrow> StateId \<Rightarrow> StateId" where
  "ViterbiSearch_predecessor e i =
     (case scanned_labels e i of
        Some l \<Rightarrow> id_of (predecessor l)
      | None \<Rightarrow> kInvalidStateId)"

definition ViterbiSearch_AccumulatedCost :: "ViterbiSearch \<Rightarrow> StateId \<Rightarrow> cost" where
  "ViterbiSearch_AccumulatedCost e i =
     (case scanned_labels e i of
        None \<Rightarrow> Fin (- 1)
      | Some l \<Rightarrow> costsofar l)"

definition ViterbiSearch_state :: "ViterbiSearch \<Rightarrow> StateId \<Rightarrow> error + State" where
  "ViterbiSearch_state e i = (if i < length (v_state e) then Inr (v_state e ! i) else Inl OutOfRange)"

definition ViterbiSearch_Clear :: "ViterbiSearch \<Rightarrow> ViterbiSearch" where
  "ViterbiSearch_Clear e =
     \<lparr>v_state = [], v_winner = [], unreached_states = [], queue = [],
      scanned_labels = Map.empty, earliest_time = 0\<rparr>"

fun InitQueue_loop :: "push \<Rightarrow> CostModel \<Rightarrow> State list \<Rightarrow> Label list \<Rightarrow> Label list" where
  "InitQueue_loop P M [] q = q"
| "InitQueue_loop P M (s # ss) q =
     (let emission_cost = EmissionCost M s in
      if IsInvalidCost emission_cost then InitQueue_loop P M ss q
      else InitQueue_loop P M ss
             (P \<lparr>costsofar = emission_cost, state = s, predecessor = None\<rparr> q))"

definition InitQueue :: "push \<Rightarrow> CostModel \<Rightarrow> State list \<Rightarrow> ViterbiSearch \<Rightarrow> ViterbiSearch" where
  "InitQueue P M column e = e\<lparr>queue := InitQueue_loop P M column []\<rparr>"

fun AddSuccessors_loop ::
  "push \<Rightarrow> CostModel \<Rightarrow> State \<Rightarrow> cost \<Rightarrow> State list \<Rightarrow> Label list \<Rightarrow> Label list" where
  "AddSuccessors_loop P M s c [] q = q"
| "AddSuccessors_loop P M s c (next_state # ss) q =
     (let emission_cost = EmissionCost M next_state in
      if IsInvalidCost emission_cost then AddSuccessors_loop P M s c ss q
      else let transition_cost = TransitionCost M s next_state in
        if IsInvalidCost transition_cost then AddSuccessors_loop P M s c ss q
        else let next_costsofar = CostSofar M c transition_cost emission_cost in
          if IsInvalidCost next_costsofar then AddSuccessors_loop P M s c ss q
          else AddSuccessors_loop P M s c ss
                 (P \<lparr>costsofar = next_costsofar, state = next_state, predecessor = Some s\<rparr> q))"

definition AddSuccessorsToQueue ::
  "push \<Rightarrow> CostModel \<Rightarrow> State \<Rightarrow> ViterbiSearch \<Rightarrow> error + ViterbiSearch" where
  "AddSuccessorsToQueue P M s e =
     (if \<not> (state_time s + 1 < length (unreached_states e)) then Inl NoSuccessors
      else case scanned_labels e (state_id s) of
        None \<Rightarrow> Inl NotScanned
      | Some l \<Rightarrow>
          if IsInvalidCost (costsofar l) then Inl InvalidScannedCost
          else Inr (e\<lparr>queue := AddSuccessors_loop P M s (costsofar l)
                                 (unreached_states e ! (state_time s + 1)) (queue e)\<rparr>))"

text \<open>\<^verbatim>\<open>std::find_if\<close> by id followed by \<^verbatim>\<open>erase\<close>: the first state of that id is removed.\<close>

fun erase_id :: "StateId \<Rightarrow> State list \<Rightarrow> State list option" where
  "erase_id i [] = None"
| "erase_id i (s # ss) =
     (if i = state_id s then Some ss else map_option ((#) s) (erase_id i ss))"

text \<open>
  One pass through the body of the main loop of \<^verbatim>\<open>IterativeSearch\<close>, for the label
  just popped. The result says how the pass ended: \<open>Skip\<close> (the \<^verbatim>\<open>continue\<close> of a
  stale label), \<open>Break\<close> (the target time is reached) or \<open>Next\<close> (successors queued).
\<close>

datatype outcome = Skip | Break | Next

definition IterativeSearch_body ::
  "push \<Rightarrow> CostModel \<Rightarrow> Time \<Rightarrow> Time \<Rightarrow> Label \<Rightarrow> ViterbiSearch
     \<Rightarrow> error + (outcome \<times> Time \<times> ViterbiSearch)" where
  "IterativeSearch_body P M target searched_time label e =
     (let s = state label; i = state_id s; t = state_time s in
      if t < earliest_time e then Inr (Skip, searched_time, e)
      else case scanned_labels e i of
        Some _ \<Rightarrow> Inl OptimalityViolated
      | None \<Rightarrow>
         (let e1 = e\<lparr>scanned_labels := (scanned_labels e)(i \<mapsto> label)\<rparr> in
          if \<not> t < length (unreached_states e1) then Inl OutOfRange
          else case erase_id i (unreached_states e1 ! t) of
            None \<Rightarrow> Inl NotInColumn
          | Some column \<Rightarrow>
             (let e2 = e1\<lparr>unreached_states := (unreached_states e1)[t := column]\<rparr>;
                  e3 = (if column = [] then e2\<lparr>earliest_time := t + 1\<rparr> else e2)
              in
              if length (v_winner e3) \<le> t \<and> t \<noteq> length (v_winner e3) then Inl FutureTime
              else
               (let e4 = (if length (v_winner e3) \<le> t
                          then e3\<lparr>v_winner := v_winner e3 @ [Some s]\<rparr> else e3);
                    searched_time' = max t searched_time
                in
                if target \<le> searched_time' then Inr (Break, searched_time', e4)
                else case AddSuccessorsToQueue P M s e4 of
                  Inl x \<Rightarrow> Inl x
                | Inr e5 \<Rightarrow> Inr (Next, searched_time', e5)))))"

lemma min_element_None [simp]: "(min_element q = None) = (q = [])"
  by (cases q) (auto split: option.splits)

lemma min_element_mem: "min_element q = Some l \<Longrightarrow> l \<in> set q"
  by (induction q arbitrary: l) (auto split: option.splits if_splits)

lemma min_element_least:
  "min_element q = Some l \<Longrightarrow> m \<in> set q \<Longrightarrow> costsofar l \<le> costsofar m"
proof (induction q arbitrary: l)
  case Nil
  then show ?case by simp
next
  case (Cons a q)
  show ?case
  proof (cases "min_element q")
    case None
    with Cons.prems show ?thesis by simp
  next
    case (Some b)
    with Cons.prems Cons.IH [OF Some] show ?thesis
      by (auto split: if_splits)
  qed
qed

lemma q_pop_None [simp]: "(q_pop q = None) = (q = [])"
  by (cases "min_element q") (auto simp: q_pop_def)

lemma q_pop_mem: "q_pop q = Some (l, q') \<Longrightarrow> l \<in> set q \<and> q' = remove1 l q"
  by (auto simp: q_pop_def split: option.splits dest: min_element_mem)

lemma q_pop_length: "q_pop q = Some (l, q') \<Longrightarrow> Suc (length q') = length q"
  by (auto dest!: q_pop_mem simp: length_remove1) (cases q; simp)

definition unreached_count :: "ViterbiSearch \<Rightarrow> nat" where
  "unreached_count e = sum_list (map length (unreached_states e))"

lemma erase_id_length: "erase_id i col = Some col' \<Longrightarrow> Suc (length col') = length col"
  by (induction col arbitrary: col') (auto split: if_splits)

lemma sum_list_update_less:
  "t < length xs \<Longrightarrow> Suc (length c) = length (xs ! t)
     \<Longrightarrow> Suc (sum_list (map length (xs[t := c]))) = sum_list (map length xs)"
proof (induction xs arbitrary: t)
  case Nil
  then show ?case by simp
next
  case (Cons x xs)
  then show ?case by (cases t) auto
qed

lemma AddSuccessorsToQueue_Inr:
  "AddSuccessorsToQueue P M s e = Inr e' \<Longrightarrow>
     (\<exists>l. scanned_labels e (state_id s) = Some l \<and> \<not> IsInvalidCost (costsofar l) \<and>
        state_time s + 1 < length (unreached_states e) \<and>
        e' = e\<lparr>queue := AddSuccessors_loop P M s (costsofar l)
                          (unreached_states e ! (state_time s + 1)) (queue e)\<rparr>)"
  by (auto simp: AddSuccessorsToQueue_def split: if_splits option.splits)

lemma IterativeSearch_body_Skip:
  "IterativeSearch_body P M target st label e = Inr (Skip, st', e') \<Longrightarrow>
     e' = e \<and> st' = st \<and> state_time (state label) < earliest_time e"
  by (auto simp: IterativeSearch_body_def Let_def dest!: AddSuccessorsToQueue_Inr
      split: if_splits option.splits sum.splits)

text \<open>What a pass that settles its label does to each field of the engine.\<close>

lemma IterativeSearch_body_settle:
  assumes "IterativeSearch_body P M target st label e = Inr (oc, st', e')" and "oc \<noteq> Skip"
  shows "\<exists>column.
     \<not> state_time (state label) < earliest_time e \<and>
     scanned_labels e (state_id (state label)) = None \<and>
     state_time (state label) < length (unreached_states e) \<and>
     erase_id (state_id (state label)) (unreached_states e ! state_time (state label)) = Some column \<and>
     state_time (state label) \<le> length (v_winner e) \<and>
     st' = max (state_time (state label)) st \<and>
     (oc = Break) = (target \<le> st') \<and>
     v_state e' = v_state e \<and>
     scanned_labels e' = (scanned_labels e)(state_id (state label) \<mapsto> label) \<and>
     unreached_states e' = (unreached_states e)[state_time (state label) := column] \<and>
     earliest_time e' = (if column = [] then state_time (state label) + 1 else earliest_time e) \<and>
     v_winner e' = (if length (v_winner e) \<le> state_time (state label)
                    then v_winner e @ [Some (state label)] else v_winner e) \<and>
     queue e' = (if oc = Break then queue e
                 else AddSuccessors_loop P M (state label) (costsofar label)
                        (unreached_states e' ! (state_time (state label) + 1)) (queue e))"
proof (cases "state_time (state label) < earliest_time e")
  case True
  with assms show ?thesis by (simp add: IterativeSearch_body_def Let_def)
next
  case ne: False
  show ?thesis
  proof (cases "scanned_labels e (state_id (state label))")
    case (Some a)
    with assms ne show ?thesis by (simp add: IterativeSearch_body_def Let_def)
  next
    case sc: None
    show ?thesis
    proof (cases "state_time (state label) < length (unreached_states e)")
      case False
      with assms ne sc show ?thesis by (simp add: IterativeSearch_body_def Let_def)
    next
      case lt: True
      show ?thesis
      proof (cases "erase_id (state_id (state label)) (unreached_states e ! state_time (state label))")
        case None
        with assms ne sc lt show ?thesis by (simp add: IterativeSearch_body_def Let_def)
      next
        case (Some column)
        with assms ne sc lt show ?thesis
          by (cases oc)
             (auto simp: IterativeSearch_body_def Let_def dest!: AddSuccessorsToQueue_Inr
                   split: if_splits sum.splits)
      qed
    qed
  qed
qed

lemma IterativeSearch_body_Next_count:
  assumes "IterativeSearch_body P M target st label e = Inr (Next, st', e')"
  shows "Suc (unreached_count e') = unreached_count e"
proof -
  from IterativeSearch_body_settle [OF assms] obtain column where
    t: "state_time (state label) < length (unreached_states e)" and
    er: "erase_id (state_id (state label)) (unreached_states e ! state_time (state label)) = Some column" and
    u: "unreached_states e' = (unreached_states e)[state_time (state label) := column]"
    by auto
  from sum_list_update_less [OF t erase_id_length [OF er]] u show ?thesis
    by (simp add: unreached_count_def)
qed

function IterativeSearch_loop ::
  "push \<Rightarrow> CostModel \<Rightarrow> Time \<Rightarrow> Time \<Rightarrow> ViterbiSearch \<Rightarrow> error + (Time \<times> ViterbiSearch)" where
  "IterativeSearch_loop P M target searched_time e =
     (case q_pop (queue e) of
        None \<Rightarrow> Inr (searched_time, e)
      | Some (label, q) \<Rightarrow>
         (case IterativeSearch_body P M target searched_time label (e\<lparr>queue := q\<rparr>) of
            Inl x \<Rightarrow> Inl x
          | Inr (Skip, st, e') \<Rightarrow> IterativeSearch_loop P M target st e'
          | Inr (Break, st, e') \<Rightarrow> Inr (st, e')
          | Inr (Next, st, e') \<Rightarrow> IterativeSearch_loop P M target st e'))"
  by pat_completeness auto
termination
proof (relation "measures [\<lambda>(P, M, target, st, e). unreached_count e,
                           \<lambda>(P, M, target, st, e). length (queue e)]", goal_cases)
  case 1
  show ?case by simp
next
  case (2 P M target searched_time e x2 label q x2a x1a x2b st e')
  then show ?case
    by (auto dest!: IterativeSearch_body_Skip q_pop_length simp: unreached_count_def)
next
  case (3 P M target searched_time e x2 label q x2a x1a x2b st e')
  then show ?case
    using IterativeSearch_body_Next_count [of P M target searched_time label "e\<lparr>queue := q\<rparr>" st e']
    by (auto simp: unreached_count_def)
qed

declare IterativeSearch_loop.simps [simp del]

definition pad_winner :: "Time \<Rightarrow> ViterbiSearch \<Rightarrow> ViterbiSearch" where
  "pad_winner searched_time e =
     e\<lparr>v_winner := v_winner e @ replicate (Suc searched_time - length (v_winner e)) None\<rparr>"

text \<open>
  The choice of the source time: continue from the last winner, or seed the queue from
  the first column without a winner.
\<close>

definition IterativeSearch_source ::
  "push \<Rightarrow> CostModel \<Rightarrow> bool \<Rightarrow> ViterbiSearch \<Rightarrow> error + (Time \<times> ViterbiSearch)" where
  "IterativeSearch_source P M request_new_start e =
     (if \<not> request_new_start \<and> v_winner e \<noteq> [] \<and> last (v_winner e) \<noteq> None then
        (let source = length (v_winner e) - 1 in
         case AddSuccessorsToQueue P M (the (v_winner e ! source)) e of
           Inl x \<Rightarrow> Inl x
         | Inr e1 \<Rightarrow> Inr (source, e1))
      else
        (let source = length (v_winner e) in
         Inr (source, InitQueue P M (unreached_states e ! source) e)))"

definition IterativeSearch ::
  "push \<Rightarrow> CostModel \<Rightarrow> Time \<Rightarrow> bool \<Rightarrow> ViterbiSearch \<Rightarrow> error + (Time \<times> ViterbiSearch)" where
  "IterativeSearch P M target request_new_start e =
     (if length (unreached_states e) \<le> target then
        (if unreached_states e = [] then Inl EmptyStates else Inl TargetBeyondMax)
      else if target < length (v_winner e) then Inr (target, e)
      else case IterativeSearch_source P M request_new_start e of
        Inl x \<Rightarrow> Inl x
      | Inr (source, e1) \<Rightarrow>
         (case IterativeSearch_loop P M target source e1 of
            Inl x \<Rightarrow> Inl x
          | Inr (searched_time, e2) \<Rightarrow> Inr (searched_time, pad_winner searched_time e2)))"

text \<open>
  An invariant rule for the main loop: what holds before the loop and is kept by every
  pass that returns holds when the loop returns.
\<close>

lemma IterativeSearch_loop_rule:
  assumes "IterativeSearch_loop P M target st e = Inr (st', e')"
    and "I st e"
    and step: "\<And>st e label q oc st1 e1.
      I st e \<Longrightarrow> q_pop (queue e) = Some (label, q) \<Longrightarrow>
      IterativeSearch_body P M target st label (e\<lparr>queue := q\<rparr>) = Inr (oc, st1, e1) \<Longrightarrow> I st1 e1"
  shows "I st' e'"
  using assms
proof (induction P M target st e rule: IterativeSearch_loop.induct)
  case (1 P M target searched_time e)
  show ?case
  proof (cases "q_pop (queue e)")
    case None
    with "1.prems" show ?thesis by (simp add: IterativeSearch_loop.simps)
  next
    case (Some a)
    obtain label q where a: "a = (label, q)" by (cases a)
    show ?thesis
    proof (cases "IterativeSearch_body P M target searched_time label (e\<lparr>queue := q\<rparr>)")
      case (Inl x)
      with "1.prems" Some a show ?thesis by (simp add: IterativeSearch_loop.simps)
    next
      case (Inr r)
      obtain oc st1 e1 where r: "r = (oc, st1, e1)" by (cases r)
      have I1: "I st1 e1"
        using "1.prems"(3) [OF "1.prems"(2) Some [unfolded a] Inr [unfolded r]] .
      show ?thesis
      proof (cases oc)
        case Skip
        with Inr r Some a "1.prems" I1
          "1.IH"(1) [OF Some a [symmetric] Inr r [symmetric] Skip refl]
        show ?thesis by (simp add: IterativeSearch_loop.simps)
      next
        case Break
        with Inr r Some a "1.prems" I1 show ?thesis by (simp add: IterativeSearch_loop.simps)
      next
        case Next
        with Inr r Some a "1.prems" I1
          "1.IH"(2) [OF Some a [symmetric] Inr r [symmetric] Next refl]
        show ?thesis by (simp add: IterativeSearch_loop.simps)
      qed
    qed
  qed
qed

lemma IterativeSearch_loop_error_rule:
  assumes "IterativeSearch_loop P M target st e = Inl x"
    and "I st e"
    and step: "\<And>st e label q oc st1 e1.
      I st e \<Longrightarrow> q_pop (queue e) = Some (label, q) \<Longrightarrow>
      IterativeSearch_body P M target st label (e\<lparr>queue := q\<rparr>) = Inr (oc, st1, e1) \<Longrightarrow> I st1 e1"
  shows "\<exists>st0 e0 label q. I st0 e0 \<and> q_pop (queue e0) = Some (label, q) \<and>
           IterativeSearch_body P M target st0 label (e0\<lparr>queue := q\<rparr>) = Inl x"
  using assms
proof (induction P M target st e rule: IterativeSearch_loop.induct)
  case (1 P M target searched_time e)
  show ?case
  proof (cases "q_pop (queue e)")
    case None
    with "1.prems" show ?thesis by (simp add: IterativeSearch_loop.simps)
  next
    case (Some a)
    obtain label q where a: "a = (label, q)" by (cases a)
    show ?thesis
    proof (cases "IterativeSearch_body P M target searched_time label (e\<lparr>queue := q\<rparr>)")
      case (Inl y)
      with "1.prems" Some a have "y = x" by (simp add: IterativeSearch_loop.simps)
      with Inl Some a "1.prems"(2) show ?thesis by blast
    next
      case (Inr r)
      obtain oc st1 e1 where r: "r = (oc, st1, e1)" by (cases r)
      have I1: "I st1 e1"
        using "1.prems"(3) [OF "1.prems"(2) Some [unfolded a] Inr [unfolded r]] .
      show ?thesis
      proof (cases oc)
        case Skip
        with Inr r Some a "1.prems" I1
          "1.IH"(1) [OF Some a [symmetric] Inr r [symmetric] Skip refl]
        show ?thesis by (simp add: IterativeSearch_loop.simps)
      next
        case Break
        with Inr r Some a "1.prems" show ?thesis by (simp add: IterativeSearch_loop.simps)
      next
        case Next
        with Inr r Some a "1.prems" I1
          "1.IH"(2) [OF Some a [symmetric] Inr r [symmetric] Next refl]
        show ?thesis by (simp add: IterativeSearch_loop.simps)
      qed
    qed
  qed
qed

lemma IterativeSearch_body_searched_time:
  "IterativeSearch_body P M target st label e = Inr (oc, st', e') \<Longrightarrow> st \<le> st'"
  using IterativeSearch_body_Skip [of P M target st label e st' e']
    IterativeSearch_body_settle [of P M target st label e oc st' e']
  by (cases "oc = Skip") auto

lemma IterativeSearch_loop_searched_time:
  assumes "IterativeSearch_loop P M target st e = Inr (st', e')"
  shows "st \<le> st'"
  by (rule IterativeSearch_loop_rule [OF assms, where I = "\<lambda>s _. st \<le> s"])
     (auto dest: IterativeSearch_body_searched_time)

lemma length_pad_winner:
  "length (v_winner (pad_winner st e)) = max (length (v_winner e)) (Suc st)"
  by (simp add: pad_winner_def)

lemma IterativeSearch_source_time:
  "IterativeSearch_source P M b e = Inr (source, e1) \<Longrightarrow>
     (if b then source = length (v_winner e) else Suc source \<ge> length (v_winner e))"
  by (auto simp: IterativeSearch_source_def Let_def split: if_splits sum.splits)

text \<open>What a call of \<open>IterativeSearch\<close> that returns guarantees about the winner cache.\<close>

lemma IterativeSearch_result:
  assumes "IterativeSearch P M target b e = Inr (st, e')"
  shows "target < length (unreached_states e) \<and> st < length (v_winner e') \<and>
         (if target < length (v_winner e) then st = target \<and> e' = e
          else b \<longrightarrow> length (v_winner e) \<le> st)"
proof (cases "target < length (v_winner e)")
  case True
  with assms show ?thesis by (auto simp: IterativeSearch_def split: if_splits)
next
  case False
  with assms obtain source e1 e2 where
    src: "IterativeSearch_source P M b e = Inr (source, e1)" and
    loop: "IterativeSearch_loop P M target source e1 = Inr (st, e2)" and
    e': "e' = pad_winner st e2" and t: "target < length (unreached_states e)"
    by (auto simp: IterativeSearch_def split: if_splits sum.splits)
  from IterativeSearch_loop_searched_time [OF loop] IterativeSearch_source_time [OF src]
  have "b \<longrightarrow> length (v_winner e) \<le> st" by (auto split: if_splits)
  with False e' t show ?thesis by (simp add: length_pad_winner)
qed

function SearchWinner_loop ::
  "push \<Rightarrow> CostModel \<Rightarrow> Time \<Rightarrow> Time \<Rightarrow> ViterbiSearch \<Rightarrow> error + ViterbiSearch" where
  "SearchWinner_loop P M target searched_time e =
     (if searched_time < target then
        (case IterativeSearch P M target True e of
           Inl x \<Rightarrow> Inl x
         | Inr (searched_time', e') \<Rightarrow> SearchWinner_loop P M target searched_time' e')
      else Inr e)"
  by pat_completeness auto
termination
proof (relation "measures [\<lambda>(P, M, target, st, e). Suc target - length (v_winner e),
                           \<lambda>(P, M, target, st, e). target - st]", goal_cases)
  case 1
  show ?case by simp
next
  case (2 P M target searched_time e x2 st e')
  then have "IterativeSearch P M target True e = Inr (st, e')" by simp
  from IterativeSearch_result [OF this] 2(1)
  show ?case by (auto split: if_splits)
qed

declare SearchWinner_loop.simps [simp del]

definition ViterbiSearch_SearchWinner ::
  "push \<Rightarrow> CostModel \<Rightarrow> Time \<Rightarrow> ViterbiSearch \<Rightarrow> error + (StateId \<times> ViterbiSearch)" where
  "ViterbiSearch_SearchWinner P M time e =
     (if time < length (v_winner e) then Inr (id_of (v_winner e ! time), e)
      else if unreached_states e = [] then Inr (kInvalidStateId, e)
      else
        (let max_allowed_time = length (unreached_states e) - 1;
             target = min time max_allowed_time
         in
         case IterativeSearch P M target False e of
           Inl x \<Rightarrow> Inl x
         | Inr (searched_time, e1) \<Rightarrow>
            (case SearchWinner_loop P M target searched_time e1 of
               Inl x \<Rightarrow> Inl x
             | Inr e2 \<Rightarrow>
                 if time < length (v_winner e2) \<and> v_winner e2 ! time \<noteq> None
                 then Inr (id_of (v_winner e2 ! time), e2)
                 else Inr (kInvalidStateId, e2))))"

section \<open>The NAIVE engine: \<^verbatim>\<open>NaiveViterbiSearch\<close>\<close>

record NaiveViterbiSearch =
  n_states :: "State list list"
  n_state :: "State list"
  n_winner :: "State option list"
  n_history :: "Label list list"

text \<open>The template parameter \<^verbatim>\<open>Maximize\<close> is the first argument of every function.\<close>

definition kInvalidCost :: "bool \<Rightarrow> cost" where
  "kInvalidCost Maximize = (if Maximize then MInf else PInf)"

text \<open>
  Modelled from the spec: \<^verbatim>\<open>operator<\<close> on labels, which \<^verbatim>\<open>LabelInterface\<close> (in
  \<^verbatim>\<open>meili/priority_queue.h\<close>, not part of the sources at hand) provides to \<^verbatim>\<open>std::min\<close>
  and \<^verbatim>\<open>std::max\<close>. It is a parameter of the engine (type \<open>label_less\<close>); \<open>sortcost_less\<close>
  compares the labels by \<^verbatim>\<open>sortcost()\<close>, their \<open>costsofar\<close>.
\<close>

type_synonym label_less = "Label \<Rightarrow> Label \<Rightarrow> bool"

definition sortcost_less :: label_less where
  "sortcost_less a b = (costsofar a < costsofar b)"

definition std_min :: "label_less \<Rightarrow> Label \<Rightarrow> Label \<Rightarrow> Label" where
  "std_min lt a b = (if lt b a then b else a)"

definition std_max :: "label_less \<Rightarrow> Label \<Rightarrow> Label \<Rightarrow> Label" where
  "std_max lt a b = (if lt a b then b else a)"

definition NaiveViterbiSearch_Clear :: "NaiveViterbiSearch \<Rightarrow> NaiveViterbiSearch" where
  "NaiveViterbiSearch_Clear e = \<lparr>n_states = [], n_state = [], n_winner = [], n_history = []\<rparr>"

definition InitLabels :: "bool \<Rightarrow> CostModel \<Rightarrow> State list \<Rightarrow> bool \<Rightarrow> Label list" where
  "InitLabels Maximize M column use_emission_cost =
     map (\<lambda>s. \<lparr>costsofar = (if use_emission_cost then EmissionCost M s else kInvalidCost Maximize),
                state = s, predecessor = None\<rparr>) column"

text \<open>The body of the inner loop of \<^verbatim>\<open>UpdateLabels\<close>: one label against one previous label.\<close>

definition UpdateLabel :: "bool \<Rightarrow> label_less \<Rightarrow> CostModel \<Rightarrow> Label \<Rightarrow> Label \<Rightarrow> Label" where
  "UpdateLabel Maximize lt M prev_label label =
     (let s = state label; emission_cost = EmissionCost M s in
      if kInvalidCost Maximize = emission_cost then label
      else let transition_cost = TransitionCost M (state prev_label) s in
        if kInvalidCost Maximize = transition_cost then label
        else let c = CostSofar M (costsofar prev_label) transition_cost emission_cost in
          if kInvalidCost Maximize = c then label
          else if Maximize
            then std_max lt \<lparr>costsofar = c, state = s, predecessor = Some (state prev_label)\<rparr> label
            else std_min lt \<lparr>costsofar = c, state = s, predecessor = Some (state prev_label)\<rparr> label)"

fun UpdateLabels ::
  "bool \<Rightarrow> label_less \<Rightarrow> CostModel \<Rightarrow> Label list \<Rightarrow> Label list \<Rightarrow> Label list" where
  "UpdateLabels Maximize lt M labels [] = labels"
| "UpdateLabels Maximize lt M labels (prev_label # prev_labels) =
     (if kInvalidCost Maximize = costsofar prev_label
      then UpdateLabels Maximize lt M labels prev_labels
      else UpdateLabels Maximize lt M (map (UpdateLabel Maximize lt M prev_label) labels) prev_labels)"

text \<open>\<^verbatim>\<open>std::max_element\<close> with the comparison of costs: the first label of greatest cost.\<close>

fun max_element :: "Label list \<Rightarrow> Label option" where
  "max_element [] = None"
| "max_element (l # ls) =
     (case max_element ls of
        None \<Rightarrow> Some l
      | Some m \<Rightarrow> if costsofar l < costsofar m then Some m else Some l)"

definition FindWinner :: "bool \<Rightarrow> Label list \<Rightarrow> State option" where
  "FindWinner Maximize labels =
     (case (if Maximize then max_element labels else min_element labels) of
        None \<Rightarrow> None
      | Some it \<Rightarrow> if costsofar it = kInvalidCost Maximize then None else Some (state it))"

definition NaiveViterbiSearch_state :: "NaiveViterbiSearch \<Rightarrow> StateId \<Rightarrow> error + State" where
  "NaiveViterbiSearch_state e i =
     (if i < length (n_state e) then Inr (n_state e ! i) else Inl OutOfRange)"

text \<open>The linear search of a state's label in the history of its time.\<close>

definition NaiveViterbiSearch_label :: "NaiveViterbiSearch \<Rightarrow> State \<Rightarrow> error + Label" where
  "NaiveViterbiSearch_label e s =
     (if \<not> state_time s < length (n_history e) then Inl OutOfRange
      else case find (\<lambda>l. state_id (state l) = state_id s) (n_history e ! state_time s) of
        None \<Rightarrow> Inl LabelNotFound
      | Some l \<Rightarrow> Inr l)"

definition NaiveViterbiSearch_AccumulatedCost ::
  "bool \<Rightarrow> NaiveViterbiSearch \<Rightarrow> StateId \<Rightarrow> error + cost" where
  "NaiveViterbiSearch_AccumulatedCost Maximize e i =
     (if i \<noteq> kInvalidStateId then
        (case NaiveViterbiSearch_state e i of
           Inl x \<Rightarrow> Inl x
         | Inr s \<Rightarrow> (case NaiveViterbiSearch_label e s of
                       Inl x \<Rightarrow> Inl x
                     | Inr l \<Rightarrow> Inr (costsofar l)))
      else Inr (kInvalidCost Maximize))"


text \<open>
  The body of the loop of \<^verbatim>\<open>SearchWinner\<close> for one time: the labels of the column, its
  winner, and the restart from the emission costs when the column has no winner.
\<close>

definition NaiveViterbiSearch_column ::
  "bool \<Rightarrow> label_less \<Rightarrow> CostModel \<Rightarrow> Time \<Rightarrow> NaiveViterbiSearch \<Rightarrow> error + NaiveViterbiSearch" where
  "NaiveViterbiSearch_column Maximize lt M time e =
     (if \<not> time < length (n_states e) then Inl OutOfRange
      else if time \<noteq> 0 \<and> n_history e = [] then Inl OutOfRange
      else
        (let column = n_states e ! time;
             labels = (if time = 0 then InitLabels Maximize M column True
                       else UpdateLabels Maximize lt M (InitLabels Maximize M column False)
                              (last (n_history e)));
             winner = FindWinner Maximize labels;
             labels' = (if winner = None \<and> time > 0
                        then InitLabels Maximize M column True else labels);
             winner' = (if winner = None \<and> time > 0
                        then FindWinner Maximize labels' else winner)
         in Inr (e\<lparr>n_winner := n_winner e @ [winner'], n_history := n_history e @ [labels']\<rparr>)))"

function NaiveViterbiSearch_loop ::
  "bool \<Rightarrow> label_less \<Rightarrow> CostModel \<Rightarrow> Time \<Rightarrow> Time \<Rightarrow> NaiveViterbiSearch
     \<Rightarrow> error + NaiveViterbiSearch" where
  "NaiveViterbiSearch_loop Maximize lt M time target e =
     (if time \<le> target then
        (case NaiveViterbiSearch_column Maximize lt M time e of
           Inl x \<Rightarrow> Inl x
         | Inr e' \<Rightarrow> NaiveViterbiSearch_loop Maximize lt M (time + 1) target e')
      else Inr e)"
  by pat_completeness auto
termination
  by (relation "measure (\<lambda>(Maximize, lt, M, time, target, e). Suc target - time)") auto

declare NaiveViterbiSearch_loop.simps [simp del]

definition NaiveViterbiSearch_SearchWinner ::
  "bool \<Rightarrow> label_less \<Rightarrow> CostModel \<Rightarrow> Time \<Rightarrow> NaiveViterbiSearch
     \<Rightarrow> error + (StateId \<times> NaiveViterbiSearch)" where
  "NaiveViterbiSearch_SearchWinner Maximize lt M target e =
     (if length (n_states e) \<le> target then Inr (kInvalidStateId, e)
      else if target < length (n_winner e) then Inr (id_of (n_winner e ! target), e)
      else case NaiveViterbiSearch_loop Maximize lt M (length (n_winner e)) target e of
        Inl x \<Rightarrow> Inl x
      | Inr e' \<Rightarrow>
          if target < length (n_winner e') then Inr (id_of (n_winner e' ! target), e')
          else Inl OutOfRange)"

section \<open>The search interface and the path iterator\<close>

text \<open>
  \<^verbatim>\<open>IViterbiSearch\<close> is the abstract class of both engines; the iterator calls its virtual
  member functions \<^verbatim>\<open>SearchWinner\<close>, \<^verbatim>\<open>predecessor\<close> and \<^verbatim>\<open>state\<close>. An engine of
  type \<open>'e\<close> is used through the record of these three functions.
\<close>

record 'e IViterbiSearch =
  SearchWinner :: "Time \<Rightarrow> 'e \<Rightarrow> error + (StateId \<times> 'e)"
  predecessor_of :: "'e \<Rightarrow> StateId \<Rightarrow> error + StateId"
  state_of :: "'e \<Rightarrow> StateId \<Rightarrow> error + State"

definition Lazy :: "push \<Rightarrow> CostModel \<Rightarrow> ViterbiSearch IViterbiSearch" where
  "Lazy P M =
     \<lparr>SearchWinner = ViterbiSearch_SearchWinner P M,
      predecessor_of = (\<lambda>e i. Inr (ViterbiSearch_predecessor e i)),
      state_of = ViterbiSearch_state\<rparr>"


text \<open>\<^verbatim>\<open>StateIterator\<close>: the fields \<^verbatim>\<open>id_\<close> and \<^verbatim>\<open>time_\<close>; the engine is passed along.\<close>

record StateIterator =
  it_id :: StateId
  it_time :: Time

definition is_end :: "StateIterator \<Rightarrow> bool" where
  "is_end it = (it_id it = kInvalidStateId \<and> it_time it = kInvalidTime)"

definition set_end :: StateIterator where
  "set_end = \<lparr>it_id = kInvalidStateId, it_time = kInvalidTime\<rparr>"

definition IsValid :: "StateIterator \<Rightarrow> bool" where
  "IsValid it = (it_id it \<noteq> kInvalidStateId)"

definition goback ::
  "'e IViterbiSearch \<Rightarrow> StateIterator \<Rightarrow> 'e \<Rightarrow> error + (StateIterator \<times> 'e)" where
  "goback V it e =
     (if it_time it > 0 then
        (case predecessor_of V e (it_id it) of
           Inl x \<Rightarrow> Inl x
         | Inr p \<Rightarrow>
            (let time' = it_time it - 1 in
             if p = kInvalidStateId then
               (case SearchWinner V time' e of
                  Inl x \<Rightarrow> Inl x
                | Inr (w, e') \<Rightarrow> Inr (\<lparr>it_id = w, it_time = time'\<rparr>, e'))
             else Inr (\<lparr>it_id = p, it_time = time'\<rparr>, e)))
      else Inr (set_end, e))"


text \<open>The prefix increment.\<close>

definition increment ::
  "'e IViterbiSearch \<Rightarrow> StateIterator \<Rightarrow> 'e \<Rightarrow> error + (StateIterator \<times> 'e)" where
  "increment V it e = (if \<not> is_end it then goback V it e else Inr (it, e))"

definition SearchPath ::
  "'e IViterbiSearch \<Rightarrow> Time \<Rightarrow> 'e \<Rightarrow> error + (StateIterator \<times> 'e)" where
  "SearchPath V time e =
     (case SearchWinner V time e of
        Inl x \<Rightarrow> Inl x
      | Inr (w, e') \<Rightarrow> Inr (\<lparr>it_id = w, it_time = time\<rparr>, e'))"

lemma goback_measure:
  "goback V it e = Inr (it', e') \<Longrightarrow> \<not> is_end it \<Longrightarrow>
     (if is_end it' then 0 else Suc (it_time it')) < Suc (it_time it)"
  by (auto simp: goback_def Let_def set_end_def is_end_def split: if_splits sum.splits)

text \<open>
  The loop of a caller, \<^verbatim>\<open>for (it = SearchPath(t); it != PathEnd(); ++it)\<close>: the ids
  the iterator holds, in the order of the visit, and the engine after the walk.
\<close>

function walk :: "'e IViterbiSearch \<Rightarrow> StateIterator \<Rightarrow> 'e \<Rightarrow> error + (StateId list \<times> 'e)" where
  "walk V it e =
     (if is_end it then Inr ([], e)
      else case increment V it e of
        Inl x \<Rightarrow> Inl x
      | Inr (it', e') \<Rightarrow>
         (case walk V it' e' of
            Inl x \<Rightarrow> Inl x
          | Inr (ids, e'') \<Rightarrow> Inr (it_id it # ids, e'')))"
  by pat_completeness auto
termination
proof (relation "measure (\<lambda>(V, it, e). if is_end it then 0 else Suc (it_time it))", goal_cases)
  case 1
  show ?case by simp
next
  case (2 V it e x2 it' e')
  then have "goback V it e = Inr (it', e')" by (simp add: increment_def)
  from goback_measure [OF this 2(1)] 2(1) show ?case by simp
qed

declare walk.simps [simp del]

definition path_ids :: "'e IViterbiSearch \<Rightarrow> Time \<Rightarrow> 'e \<Rightarrow> error + (StateId list \<times> 'e)" where
  "path_ids V time e =
     (case SearchPath V time e of
        Inl x \<Rightarrow> Inl x
      | Inr (it, e') \<Rightarrow> walk V it e')"

section \<open>Concrete cost models and trellises\<close>

text \<open>The accumulation of the scenarios: previous cost plus transition plus emission.\<close>

fun cost_add :: "cost \<Rightarrow> cost \<Rightarrow> cost" where
  "cost_add (Fin a) (Fin b) = Fin (a + b)"
| "cost_add PInf y = PInf"
| "cost_add x PInf = PInf"
| "cost_add MInf y = MInf"
| "cost_add x MInf = MInf"

definition mk_state :: "StateId \<Rightarrow> Time \<Rightarrow> State" where
  "mk_state i t = \<lparr>state_id = i, state_time = t\<rparr>"

definition fresh :: "State list list \<Rightarrow> ViterbiSearch" where
  "fresh columns =
     \<lparr>v_state = concat columns, v_winner = [], unreached_states = columns, queue = [],
      scanned_labels = Map.empty, earliest_time = 0\<rparr>"

text \<open>
  The breakage scenario: columns \<open>{a}, {b}, {c}\<close>, all emissions 0, no edge from \<open>a\<close> to
  \<open>b\<close> (the negative sentinel), and an edge of cost 1 from \<open>b\<close> to \<open>c\<close>.
\<close>

definition breakage_model :: CostModel where
  "breakage_model =
     \<lparr>EmissionCost = (\<lambda>s. Fin 0),
      TransitionCost = (\<lambda>l r. if state_id l = 1 \<and> state_id r = 2 then Fin 1 else Fin (- 1)),
      CostSofar = (\<lambda>p t e. cost_add (cost_add p t) e)\<rparr>"

definition breakage_trellis :: ViterbiSearch where
  "breakage_trellis = fresh [[mk_state 0 0], [mk_state 1 1], [mk_state 2 2]]"

definition breakage_searched :: ViterbiSearch where
  "breakage_searched =
     \<lparr>v_state = [mk_state 0 0, mk_state 1 1, mk_state 2 2],
      v_winner = [Some (mk_state 0 0), Some (mk_state 1 1), Some (mk_state 2 2)],
      unreached_states = [[], [], []],
      queue = [],
      scanned_labels =
        [0 \<mapsto> \<lparr>costsofar = Fin 0, state = mk_state 0 0, predecessor = None\<rparr>,
         1 \<mapsto> \<lparr>costsofar = Fin 0, state = mk_state 1 1, predecessor = None\<rparr>,
         2 \<mapsto> \<lparr>costsofar = Fin 1, state = mk_state 2 2, predecessor = Some (mk_state 1 1)\<rparr>],
      earliest_time = 3\<rparr>"

lemmas lazy_defs =
  ViterbiSearch_SearchWinner_def IterativeSearch_def IterativeSearch_source_def
  InitQueue_def q_pop_def IterativeSearch_body_def Let_def IsInvalidCost_def
  AddSuccessorsToQueue_def pad_winner_def id_of_def fresh_def mk_state_def
  ViterbiSearch_predecessor_def ViterbiSearch_AccumulatedCost_def
  IterativeSearch_loop.simps SearchWinner_loop.simps

lemma breakage_search:
  "ViterbiSearch_SearchWinner push_heap breakage_model 2 breakage_trellis = Inr (2, breakage_searched)"
  by (simp add: lazy_defs breakage_trellis_def breakage_model_def breakage_searched_def push_heap_def)

text \<open>
  C5: on the breakage scenario \<open>SearchWinner(2)\<close> returns \<open>c\<close>; the winner at time 1 is
  \<open>b\<close>, settled with its emission cost only; \<open>b\<close> has no predecessor, the predecessor
  of \<open>c\<close> is \<open>b\<close>, and the path from time 2 visits \<open>c\<close>, \<open>b\<close>, \<open>a\<close>.
\<close>

theorem C5_breakage_scenario:
  "ViterbiSearch_SearchWinner push_heap breakage_model 2 breakage_trellis = Inr (2, breakage_searched)
   \<and> v_winner breakage_searched ! 1 = Some (mk_state 1 1)
   \<and> ViterbiSearch_AccumulatedCost breakage_searched 1 = EmissionCost breakage_model (mk_state 1 1)
   \<and> ViterbiSearch_predecessor breakage_searched 1 = kInvalidStateId
   \<and> ViterbiSearch_predecessor breakage_searched 2 = 1
   \<and> path_ids (Lazy push_heap breakage_model) 2 breakage_trellis = Inr ([2, 1, 0], breakage_searched)"
proof -
  have w: "v_winner breakage_searched ! 1 = Some (mk_state 1 1)"
    by (simp add: breakage_searched_def)
  have c: "ViterbiSearch_AccumulatedCost breakage_searched 1 = EmissionCost breakage_model (mk_state 1 1)"
    by (simp add: breakage_searched_def breakage_model_def ViterbiSearch_AccumulatedCost_def)
  have p1: "ViterbiSearch_predecessor breakage_searched 1 = kInvalidStateId"
    by (simp add: breakage_searched_def ViterbiSearch_predecessor_def id_of_def)
  have p2: "ViterbiSearch_predecessor breakage_searched 2 = 1"
    by (simp add: breakage_searched_def ViterbiSearch_predecessor_def id_of_def mk_state_def)
  have sp: "SearchPath (Lazy push_heap breakage_model) 2 breakage_trellis
              = Inr (\<lparr>it_id = 2, it_time = 2\<rparr>, breakage_searched)"
    by (simp add: SearchPath_def Lazy_def breakage_search)
  have "walk (Lazy push_heap breakage_model) \<lparr>it_id = 2, it_time = 2\<rparr> breakage_searched
          = Inr ([2, 1, 0], breakage_searched)"
    by (simp add: walk.simps increment_def goback_def is_end_def set_end_def Lazy_def
        kInvalidStateId_def kInvalidTime_def ViterbiSearch_predecessor_def ViterbiSearch_SearchWinner_def
        breakage_searched_def id_of_def mk_state_def)
  with sp have "path_ids (Lazy push_heap breakage_model) 2 breakage_trellis
          = Inr ([2, 1, 0], breakage_searched)"
    by (simp add: path_ids_def)
  with breakage_search w c p1 p2 show ?thesis by simp
qed

text \<open>
  C10: for an id that is not in the scanned map, \<open>predecessor\<close> returns the absent id
  and \<open>AccumulatedCost\<close> the invalid sentinel \<open>-1\<close>. Both are functions of the engine that
  return a plain value: they cannot fail and do not change the engine.
\<close>

theorem C10_unscanned_id:
  "scanned_labels e i = None \<Longrightarrow>
     ViterbiSearch_predecessor e i = kInvalidStateId \<and>
     ViterbiSearch_AccumulatedCost e i = Fin (- 1) \<and>
     IsInvalidCost (ViterbiSearch_AccumulatedCost e i)"
  by (simp add: ViterbiSearch_predecessor_def ViterbiSearch_AccumulatedCost_def IsInvalidCost_def)

theorem C10_unscanned_id_witness:
  "scanned_labels breakage_trellis 1 = None \<and>
   ViterbiSearch_predecessor breakage_trellis 1 = kInvalidStateId \<and>
   ViterbiSearch_AccumulatedCost breakage_trellis 1 = Fin (- 1) \<and>
   IsInvalidCost (ViterbiSearch_AccumulatedCost breakage_trellis 1) \<and>
   scanned_labels breakage_searched 7 = None \<and>
   ViterbiSearch_predecessor breakage_searched 7 = kInvalidStateId \<and>
   ViterbiSearch_AccumulatedCost breakage_searched 7 = Fin (- 1)"
proof -
  have a: "scanned_labels breakage_trellis 1 = None"
    by (simp add: breakage_trellis_def fresh_def)
  have b: "scanned_labels breakage_searched 7 = None"
    by (simp add: breakage_searched_def)
  from C10_unscanned_id [OF a] C10_unscanned_id [OF b] a b show ?thesis
    by (simp add: IsInvalidCost_def)
qed

section \<open>What a search keeps\<close>

text \<open>
  \<open>extends e e'\<close>: the engine \<open>e'\<close> has the winners and the scanned labels of \<open>e\<close> and
  possibly more, the same states and as many columns, and its earliest time is not
  smaller.
\<close>

definition extends :: "ViterbiSearch \<Rightarrow> ViterbiSearch \<Rightarrow> bool" where
  "extends e e' =
     (prefix (v_winner e) (v_winner e') \<and>
      length (unreached_states e') = length (unreached_states e) \<and>
      earliest_time e \<le> earliest_time e' \<and>
      scanned_labels e \<subseteq>\<^sub>m scanned_labels e' \<and>
      v_state e' = v_state e)"

lemma extends_refl [simp]: "extends e e"
  by (simp add: extends_def)

lemma extends_trans: "extends e1 e2 \<Longrightarrow> extends e2 e3 \<Longrightarrow> extends e1 e3"
  unfolding extends_def by (auto intro: map_le_trans)

lemma extends_queue [simp]:
  "extends e (e'\<lparr>queue := q\<rparr>) = extends e e'" "extends (e\<lparr>queue := q\<rparr>) e' = extends e e'"
  by (simp_all add: extends_def)

lemma IterativeSearch_body_extends:
  assumes "IterativeSearch_body P M target st label e = Inr (oc, st', e')"
  shows "extends e e'"
proof (cases "oc = Skip")
  case True
  with assms IterativeSearch_body_Skip [of P M target st label e st' e'] show ?thesis by simp
next
  case False
  from IterativeSearch_body_settle [OF assms False] show ?thesis
    by (auto simp: extends_def map_le_def)
qed

lemma IterativeSearch_loop_extends:
  assumes "IterativeSearch_loop P M target st e = Inr (st', e')"
  shows "extends e e'"
proof (rule IterativeSearch_loop_rule [OF assms, where I = "\<lambda>_ x. extends e x"])
  show "extends e e" by simp
next
  fix st e0 label q oc st1 e1
  assume a: "extends e e0" and "q_pop (queue e0) = Some (label, q)"
    and b: "IterativeSearch_body P M target st label (e0\<lparr>queue := q\<rparr>) = Inr (oc, st1, e1)"
  from a have "extends e (e0\<lparr>queue := q\<rparr>)" by simp
  then show "extends e e1"
    using IterativeSearch_body_extends [OF b] by (rule extends_trans)
qed

lemma IterativeSearch_source_extends:
  "IterativeSearch_source P M b e = Inr (source, e1) \<Longrightarrow> extends e e1"
  by (auto simp: IterativeSearch_source_def Let_def InitQueue_def
      dest!: AddSuccessorsToQueue_Inr split: if_splits sum.splits)

lemma pad_winner_extends [simp]: "extends e (pad_winner st e)"
  by (simp add: extends_def pad_winner_def)

lemma IterativeSearch_extends:
  assumes "IterativeSearch P M target b e = Inr (st, e')"
  shows "extends e e'"
proof (cases "target < length (v_winner e)")
  case True
  with assms show ?thesis by (auto simp: IterativeSearch_def split: if_splits)
next
  case False
  with assms obtain source e1 e2 where
    "IterativeSearch_source P M b e = Inr (source, e1)"
    "IterativeSearch_loop P M target source e1 = Inr (st, e2)"
    "e' = pad_winner st e2"
    by (auto simp: IterativeSearch_def split: if_splits sum.splits)
  then have "extends e e1" "extends e1 e2" "extends e2 e'"
    using IterativeSearch_source_extends IterativeSearch_loop_extends by simp_all
  then show ?thesis
    by (meson extends_trans)
qed

lemma SearchWinner_loop_result:
  "SearchWinner_loop P M target st e = Inr e' \<Longrightarrow> st < length (v_winner e) \<Longrightarrow>
     target < length (v_winner e') \<and> extends e e'"
proof (induction P M target st e rule: SearchWinner_loop.induct)
  case (1 P M target searched_time e)
  show ?case
  proof (cases "searched_time < target")
    case False
    with "1.prems" show ?thesis by (simp add: SearchWinner_loop.simps [of P M target searched_time e])
  next
    case True
    with "1.prems" obtain st1 e1 where
      it: "IterativeSearch P M target True e = Inr (st1, e1)" and
      rec: "SearchWinner_loop P M target st1 e1 = Inr e'"
      by (auto simp: SearchWinner_loop.simps [of P M target searched_time e] split: sum.splits)
    from IterativeSearch_result [OF it] have "st1 < length (v_winner e1)" by simp
    from "1.IH" [OF True it refl rec this]
      IterativeSearch_extends [OF it] show ?thesis
      by (auto intro: extends_trans)
  qed
qed

text \<open>What a call of \<open>SearchWinner\<close> that returns guarantees.\<close>

lemma ViterbiSearch_SearchWinner_result:
  assumes "ViterbiSearch_SearchWinner P M t e = Inr (w, e')"
  shows "extends e e'"
    and "t < length (v_winner e') \<Longrightarrow> w = id_of (v_winner e' ! t)"
    and "\<not> t < length (v_winner e') \<Longrightarrow>
           w = kInvalidStateId \<and>
           (unreached_states e' = [] \<or> length (unreached_states e') - 1 < length (v_winner e'))"
    and "t < length (unreached_states e) \<Longrightarrow> t < length (v_winner e')"
proof -
  consider (cached) "t < length (v_winner e)"
    | (empty) "\<not> t < length (v_winner e)" "unreached_states e = []"
    | (search) "\<not> t < length (v_winner e)" "unreached_states e \<noteq> []"
    by blast
  then have "extends e e' \<and>
    (t < length (v_winner e') \<longrightarrow> w = id_of (v_winner e' ! t)) \<and>
    (\<not> t < length (v_winner e') \<longrightarrow> w = kInvalidStateId \<and>
       (unreached_states e' = [] \<or> length (unreached_states e') - 1 < length (v_winner e'))) \<and>
    (t < length (unreached_states e) \<longrightarrow> t < length (v_winner e'))"
  proof cases
    case cached
    with assms show ?thesis by (auto simp: ViterbiSearch_SearchWinner_def)
  next
    case empty
    with assms show ?thesis by (auto simp: ViterbiSearch_SearchWinner_def)
  next
    case search
    let ?target = "min t (length (unreached_states e) - 1)"
    from search assms obtain st e1 where
      it: "IterativeSearch P M ?target False e = Inr (st, e1)" and
      lp: "SearchWinner_loop P M ?target st e1 = Inr e'" and
      w: "w = (if t < length (v_winner e') \<and> v_winner e' ! t \<noteq> None
               then id_of (v_winner e' ! t) else kInvalidStateId)"
      by (auto simp: ViterbiSearch_SearchWinner_def Let_def split: sum.splits if_splits)
    from IterativeSearch_result [OF it] have "st < length (v_winner e1)" by simp
    from SearchWinner_loop_result [OF lp this] IterativeSearch_extends [OF it]
    have tg: "?target < length (v_winner e')" and ex: "extends e e'"
      by (auto intro: extends_trans)
    from ex have len: "length (unreached_states e') = length (unreached_states e)"
      by (simp add: extends_def)
    from w have "t < length (v_winner e') \<longrightarrow> w = id_of (v_winner e' ! t)"
      by (auto simp: id_of_def)
    moreover from w tg len have "\<not> t < length (v_winner e') \<longrightarrow> w = kInvalidStateId \<and>
       (unreached_states e' = [] \<or> length (unreached_states e') - 1 < length (v_winner e'))"
      by (auto simp: min_def split: if_splits)
    moreover from tg have "t < length (unreached_states e) \<longrightarrow> t < length (v_winner e')"
      by (auto simp: min_def split: if_splits)
    ultimately show ?thesis using ex by blast
  qed
  then show "extends e e'"
    and "t < length (v_winner e') \<Longrightarrow> w = id_of (v_winner e' ! t)"
    and "\<not> t < length (v_winner e') \<Longrightarrow>
           w = kInvalidStateId \<and>
           (unreached_states e' = [] \<or> length (unreached_states e') - 1 < length (v_winner e'))"
    and "t < length (unreached_states e) \<Longrightarrow> t < length (v_winner e')"
    by blast+
qed

text \<open>A query answered from the cache, and a query beyond a trellis searched to its end.\<close>

lemma ViterbiSearch_SearchWinner_cached:
  "t < length (v_winner e) \<Longrightarrow>
     ViterbiSearch_SearchWinner P M t e = Inr (id_of (v_winner e ! t), e)"
  by (simp add: ViterbiSearch_SearchWinner_def)

lemma ViterbiSearch_SearchWinner_idle:
  assumes "\<not> t < length (v_winner e)"
    and "unreached_states e = [] \<or> length (unreached_states e) - 1 < length (v_winner e)"
  shows "ViterbiSearch_SearchWinner P M t e = Inr (kInvalidStateId, e)"
proof (cases "unreached_states e = []")
  case True
  with assms show ?thesis by (simp add: ViterbiSearch_SearchWinner_def)
next
  case False
  let ?target = "min t (length (unreached_states e) - 1)"
  from assms False have tg: "?target < length (v_winner e)" "\<not> length (unreached_states e) \<le> ?target"
    by (cases "unreached_states e"; auto simp: min_def)+
  have it: "IterativeSearch P M ?target False e = Inr (?target, e)"
    unfolding IterativeSearch_def using tg False by simp
  have lp: "SearchWinner_loop P M ?target ?target e = Inr e"
    by (simp add: SearchWinner_loop.simps)
  show ?thesis
    unfolding ViterbiSearch_SearchWinner_def Let_def it
    using assms(1) False lp by simp
qed

text \<open>The winner cache never grows beyond the columns.\<close>

definition cache_bounded :: "ViterbiSearch \<Rightarrow> bool" where
  "cache_bounded e = (length (v_winner e) \<le> length (unreached_states e))"

lemma IterativeSearch_body_bounded:
  assumes "IterativeSearch_body P M target st label e = Inr (oc, st', e')"
    and "cache_bounded e" and "st < length (unreached_states e)"
  shows "cache_bounded e' \<and> st' < length (unreached_states e')"
proof (cases "oc = Skip")
  case True
  with assms IterativeSearch_body_Skip [of P M target st label e st' e'] show ?thesis by simp
next
  case False
  from IterativeSearch_body_settle [OF assms(1) False] assms(2,3) show ?thesis
    by (auto simp: cache_bounded_def)
qed

lemma IterativeSearch_loop_bounded:
  assumes "IterativeSearch_loop P M target st e = Inr (st', e')"
    and "cache_bounded e" and "st < length (unreached_states e)"
  shows "cache_bounded e' \<and> st' < length (unreached_states e')"
proof (rule IterativeSearch_loop_rule [OF assms(1),
        where I = "\<lambda>s x. cache_bounded x \<and> s < length (unreached_states x)"])
  show "cache_bounded e \<and> st < length (unreached_states e)"
    using assms by simp
next
  fix s x label q oc s1 x1
  assume a: "cache_bounded x \<and> s < length (unreached_states x)"
    and b: "IterativeSearch_body P M target s label (x\<lparr>queue := q\<rparr>) = Inr (oc, s1, x1)"
  from a have "cache_bounded (x\<lparr>queue := q\<rparr>)" "s < length (unreached_states (x\<lparr>queue := q\<rparr>))"
    by (simp_all add: cache_bounded_def)
  from IterativeSearch_body_bounded [OF b this]
  show "cache_bounded x1 \<and> s1 < length (unreached_states x1)" .
qed

lemma IterativeSearch_bounded:
  assumes "IterativeSearch P M target b e = Inr (st, e')" and "cache_bounded e"
  shows "cache_bounded e'"
proof (cases "target < length (v_winner e)")
  case True
  with assms show ?thesis by (auto simp: IterativeSearch_def split: if_splits)
next
  case False
  with assms obtain source e1 e2 where
    src: "IterativeSearch_source P M b e = Inr (source, e1)" and
    lp: "IterativeSearch_loop P M target source e1 = Inr (st, e2)" and
    e': "e' = pad_winner st e2" and tg: "target < length (unreached_states e)"
    by (auto simp: IterativeSearch_def split: if_splits sum.splits)
  from src assms(2) False tg have "cache_bounded e1 \<and> source < length (unreached_states e1)"
    by (auto simp: IterativeSearch_source_def Let_def InitQueue_def cache_bounded_def
        dest!: AddSuccessorsToQueue_Inr split: if_splits sum.splits)
  with IterativeSearch_loop_bounded [OF lp]
  have "cache_bounded e2 \<and> st < length (unreached_states e2)" by simp
  with e' show ?thesis
    unfolding cache_bounded_def pad_winner_def by simp arith
qed

lemma SearchWinner_loop_bounded:
  "SearchWinner_loop P M target st e = Inr e' \<Longrightarrow> cache_bounded e \<Longrightarrow> cache_bounded e'"
proof (induction P M target st e rule: SearchWinner_loop.induct)
  case (1 P M target searched_time e)
  show ?case
  proof (cases "searched_time < target")
    case False
    with "1.prems" show ?thesis
      by (simp add: SearchWinner_loop.simps [of P M target searched_time e])
  next
    case True
    with "1.prems" obtain st1 e1 where
      it: "IterativeSearch P M target True e = Inr (st1, e1)" and
      rec: "SearchWinner_loop P M target st1 e1 = Inr e'"
      by (auto simp: SearchWinner_loop.simps [of P M target searched_time e] split: sum.splits)
    from "1.IH" [OF True it refl rec IterativeSearch_bounded [OF it "1.prems"(2)]]
    show ?thesis .
  qed
qed

lemma ViterbiSearch_SearchWinner_bounded:
  assumes "ViterbiSearch_SearchWinner P M t e = Inr (w, e')" and "cache_bounded e"
  shows "cache_bounded e'"
proof (cases "t < length (v_winner e) \<or> unreached_states e = []")
  case True
  with assms show ?thesis by (auto simp: ViterbiSearch_SearchWinner_def split: if_splits)
next
  case False
  with assms obtain st e1 where
    it: "IterativeSearch P M (min t (length (unreached_states e) - 1)) False e = Inr (st, e1)" and
    lp: "SearchWinner_loop P M (min t (length (unreached_states e) - 1)) st e1 = Inr e'"
    by (auto simp: ViterbiSearch_SearchWinner_def Let_def split: sum.splits if_splits)
  from SearchWinner_loop_bounded [OF lp IterativeSearch_bounded [OF it assms(2)]]
  show ?thesis .
qed

text \<open>
  A query beyond the last column runs the query for the last column and then reports
  the absent id.
\<close>

lemma ViterbiSearch_SearchWinner_beyond:
  assumes "length (unreached_states e) \<le> t" and "cache_bounded e"
    and "length (v_winner e) < length (unreached_states e)"
  shows "ViterbiSearch_SearchWinner P M t e =
           map_sum id (\<lambda>(w, e'). (kInvalidStateId, e'))
             (ViterbiSearch_SearchWinner P M (length (unreached_states e) - 1) e)"
proof -
  let ?m = "length (unreached_states e) - 1"
  from assms have ne: "unreached_states e \<noteq> []" and nc: "\<not> t < length (v_winner e)"
    and ncm: "\<not> ?m < length (v_winner e)" and mn: "min t ?m = ?m"
    by (auto simp: cache_bounded_def)
  show ?thesis
  proof (cases "IterativeSearch P M ?m False e")
    case (Inl x)
    with ne nc ncm mn show ?thesis
      by (simp add: ViterbiSearch_SearchWinner_def Let_def)
  next
    case (Inr r)
    obtain st e1 where r: "r = (st, e1)" by (cases r)
    show ?thesis
    proof (cases "SearchWinner_loop P M ?m st e1")
      case (Inl x)
      with Inr r ne nc ncm mn show ?thesis
        by (simp add: ViterbiSearch_SearchWinner_def Let_def)
    next
      case lp: (Inr e2)
      from SearchWinner_loop_bounded [OF lp IterativeSearch_bounded [OF Inr [unfolded r] assms(2)]]
      have b2: "cache_bounded e2" .
      from SearchWinner_loop_result [OF lp] IterativeSearch_result [OF Inr [unfolded r]]
        IterativeSearch_extends [OF Inr [unfolded r]]
      have "length (unreached_states e2) = length (unreached_states e)"
        by (auto simp: extends_def)
      with b2 assms(1) have "\<not> t < length (v_winner e2)"
        by (simp add: cache_bounded_def)
      with Inr r lp ne nc ncm mn show ?thesis
        by (simp add: ViterbiSearch_SearchWinner_def Let_def)
    qed
  qed
qed

section \<open>What a NAIVE search keeps\<close>

lemma NaiveViterbiSearch_column_Inr:
  "NaiveViterbiSearch_column Mx lt M time e = Inr e' \<Longrightarrow>
     (\<exists>w ls. n_winner e' = n_winner e @ [w] \<and> n_history e' = n_history e @ [ls]) \<and>
     n_states e' = n_states e \<and> n_state e' = n_state e"
  by (auto simp: NaiveViterbiSearch_column_def Let_def split: if_splits)

lemma NaiveViterbiSearch_loop_keeps:
  "NaiveViterbiSearch_loop Mx lt M time target e = Inr e' \<Longrightarrow>
     prefix (n_winner e) (n_winner e') \<and> prefix (n_history e) (n_history e') \<and>
     n_states e' = n_states e \<and> n_state e' = n_state e"
proof (induction Mx lt M time target e rule: NaiveViterbiSearch_loop.induct)
  case (1 Mx lt M time target e)
  show ?case
  proof (cases "time \<le> target")
    case False
    with "1.prems" show ?thesis
      by (simp add: NaiveViterbiSearch_loop.simps [of Mx lt M time target e])
  next
    case True
    with "1.prems" obtain e1 where
      c: "NaiveViterbiSearch_column Mx lt M time e = Inr e1" and
      r: "NaiveViterbiSearch_loop Mx lt M (time + 1) target e1 = Inr e'"
      by (auto simp: NaiveViterbiSearch_loop.simps [of Mx lt M time target e] split: sum.splits)
    from "1.IH" [OF True c r] NaiveViterbiSearch_column_Inr [OF c] show ?thesis
      by (auto elim: append_prefixD)
  qed
qed

lemma NaiveViterbiSearch_SearchWinner_result:
  assumes "NaiveViterbiSearch_SearchWinner Mx lt M t e = Inr (w, e')"
  shows "prefix (n_winner e) (n_winner e') \<and> prefix (n_history e) (n_history e') \<and>
         n_states e' = n_states e \<and> n_state e' = n_state e \<and>
         (if length (n_states e) \<le> t then w = kInvalidStateId \<and> e' = e
          else t < length (n_winner e') \<and> w = id_of (n_winner e' ! t))"
proof (cases "length (n_states e) \<le> t \<or> t < length (n_winner e)")
  case True
  with assms show ?thesis
    by (auto simp: NaiveViterbiSearch_SearchWinner_def split: if_splits)
next
  case False
  show ?thesis
  proof (cases "NaiveViterbiSearch_loop Mx lt M (length (n_winner e)) t e")
    case (Inl x)
    with assms False show ?thesis
      by (simp add: NaiveViterbiSearch_SearchWinner_def)
  next
    case (Inr e1)
    with assms False have "t < length (n_winner e1)" "w = id_of (n_winner e1 ! t)" "e' = e1"
      by (auto simp: NaiveViterbiSearch_SearchWinner_def split: if_splits)
    with NaiveViterbiSearch_loop_keeps [OF Inr] False show ?thesis by simp
  qed
qed

lemma prefix_nth: "prefix xs ys \<Longrightarrow> i < length xs \<Longrightarrow> ys ! i = xs ! i"
  by (auto simp: prefix_def nth_append)

lemma NaiveViterbiSearch_SearchWinner_again:
  assumes "NaiveViterbiSearch_SearchWinner Mx lt M t e = Inr (w, e1)"
    and "prefix (n_winner e1) (n_winner e2)" and "n_states e2 = n_states e1"
  shows "NaiveViterbiSearch_SearchWinner Mx lt M t e2 = Inr (w, e2)"
proof -
  note r = NaiveViterbiSearch_SearchWinner_result [OF assms(1)]
  show ?thesis
  proof (cases "length (n_states e) \<le> t")
    case True
    with r assms(3) show ?thesis
      by (simp add: NaiveViterbiSearch_SearchWinner_def)
  next
    case False
    with r have t: "t < length (n_winner e1)" and w: "w = id_of (n_winner e1 ! t)"
      by simp_all
    from t assms(2) have "t < length (n_winner e2)"
      using prefix_length_le by fastforce
    with False r assms(3) w prefix_nth [OF assms(2) t] show ?thesis
      by (simp add: NaiveViterbiSearch_SearchWinner_def)
  qed
qed

lemma ViterbiSearch_SearchWinner_again:
  assumes "ViterbiSearch_SearchWinner P M t e = Inr (w, e1)"
    and "ViterbiSearch_SearchWinner P M t' e1 = Inr (w', e2)"
  shows "ViterbiSearch_SearchWinner P M t e1 = Inr (w, e1)"
    and "ViterbiSearch_SearchWinner P M t e2 = Inr (w, e2)"
proof -
  note r1 = ViterbiSearch_SearchWinner_result [OF assms(1)]
  note r2 = ViterbiSearch_SearchWinner_result [OF assms(2)]
  show "ViterbiSearch_SearchWinner P M t e1 = Inr (w, e1)"
  proof (cases "t < length (v_winner e1)")
    case True
    with r1(2) show ?thesis by (simp add: ViterbiSearch_SearchWinner_cached)
  next
    case False
    with r1(3) ViterbiSearch_SearchWinner_idle [OF False] show ?thesis by simp
  qed
  show "ViterbiSearch_SearchWinner P M t e2 = Inr (w, e2)"
  proof (cases "t < length (v_winner e1)")
    case True
    from r2(1) have p: "prefix (v_winner e1) (v_winner e2)" by (simp add: extends_def)
    with True have "t < length (v_winner e2)"
      using prefix_length_le by fastforce
    with r1(2) [OF True] prefix_nth [OF p True] show ?thesis
      by (simp add: ViterbiSearch_SearchWinner_cached)
  next
    case False
    with r1(3) have w: "w = kInvalidStateId" and
      idle: "unreached_states e1 = [] \<or> length (unreached_states e1) - 1 < length (v_winner e1)"
      by simp_all
    have "e2 = e1"
    proof (cases "t' < length (v_winner e1)")
      case True
      with assms(2) show ?thesis by (simp add: ViterbiSearch_SearchWinner_cached)
    next
      case nc: False
      from ViterbiSearch_SearchWinner_idle [OF nc idle] assms(2) show ?thesis by simp
    qed
    with w ViterbiSearch_SearchWinner_idle [OF False idle] show ?thesis by simp
  qed
qed


section \<open>More concrete trellises\<close>

definition naive_fresh :: "State list list \<Rightarrow> NaiveViterbiSearch" where
  "naive_fresh columns =
     \<lparr>n_states = columns, n_state = concat columns, n_winner = [], n_history = []\<rparr>"

text \<open>The straight line: one state per column, every emission 1, every transition 2.\<close>

definition line_model :: CostModel where
  "line_model =
     \<lparr>EmissionCost = (\<lambda>s. Fin 1),
      TransitionCost = (\<lambda>l r. Fin 2),
      CostSofar = (\<lambda>p t e. cost_add (cost_add p t) e)\<rparr>"

definition line_columns :: "State list list" where
  "line_columns = [[mk_state 0 0], [mk_state 1 1], [mk_state 2 2]]"

definition line_label :: "real \<Rightarrow> nat \<Rightarrow> State option \<Rightarrow> Label" where
  "line_label c i p = \<lparr>costsofar = Fin c, state = mk_state i i, predecessor = p\<rparr>"

definition line_naive_1 :: NaiveViterbiSearch where
  "line_naive_1 =
     \<lparr>n_states = line_columns, n_state = concat line_columns,
      n_winner = [Some (mk_state 0 0), Some (mk_state 1 1)],
      n_history = [[line_label 1 0 None], [line_label 4 1 (Some (mk_state 0 0))]]\<rparr>"

definition line_naive_2 :: NaiveViterbiSearch where
  "line_naive_2 =
     \<lparr>n_states = line_columns, n_state = concat line_columns,
      n_winner = [Some (mk_state 0 0), Some (mk_state 1 1), Some (mk_state 2 2)],
      n_history = [[line_label 1 0 None], [line_label 4 1 (Some (mk_state 0 0))],
                   [line_label 7 2 (Some (mk_state 1 1))]]\<rparr>"

lemmas naive_defs =
  NaiveViterbiSearch_SearchWinner_def NaiveViterbiSearch_loop.simps NaiveViterbiSearch_column_def
  InitLabels_def UpdateLabel_def FindWinner_def kInvalidCost_def std_min_def std_max_def
  sortcost_less_def Let_def id_of_def naive_fresh_def mk_state_def line_label_def
  line_columns_def line_model_def

lemma line_naive_search_1:
  "NaiveViterbiSearch_SearchWinner False sortcost_less line_model 1 (naive_fresh line_columns)
     = Inr (1, line_naive_1)"
  by (simp add: naive_defs line_naive_1_def)

lemma line_naive_search_2:
  "NaiveViterbiSearch_SearchWinner False sortcost_less line_model 2 line_naive_1
     = Inr (2, line_naive_2)"
  by (simp add: naive_defs line_naive_1_def line_naive_2_def)

text \<open>The breakage scenario after the query for time 1, and after its first settled label.\<close>

definition breakage_first :: ViterbiSearch where
  "breakage_first =
     \<lparr>v_state = [mk_state 0 0, mk_state 1 1, mk_state 2 2],
      v_winner = [Some (mk_state 0 0)],
      unreached_states = [[], [mk_state 1 1], [mk_state 2 2]],
      queue = [],
      scanned_labels = [0 \<mapsto> \<lparr>costsofar = Fin 0, state = mk_state 0 0, predecessor = None\<rparr>],
      earliest_time = 1\<rparr>"

definition breakage_mid :: ViterbiSearch where
  "breakage_mid =
     \<lparr>v_state = [mk_state 0 0, mk_state 1 1, mk_state 2 2],
      v_winner = [Some (mk_state 0 0), Some (mk_state 1 1)],
      unreached_states = [[], [], [mk_state 2 2]],
      queue = [],
      scanned_labels =
        [0 \<mapsto> \<lparr>costsofar = Fin 0, state = mk_state 0 0, predecessor = None\<rparr>,
         1 \<mapsto> \<lparr>costsofar = Fin 0, state = mk_state 1 1, predecessor = None\<rparr>],
      earliest_time = 2\<rparr>"

lemma breakage_search_1:
  "ViterbiSearch_SearchWinner push_heap breakage_model 1 breakage_trellis = Inr (1, breakage_mid)"
  by (simp add: lazy_defs breakage_trellis_def breakage_model_def breakage_mid_def push_heap_def)

lemma breakage_search_2:
  "ViterbiSearch_SearchWinner push_heap breakage_model 2 breakage_mid = Inr (2, breakage_searched)"
  by (simp add: lazy_defs breakage_model_def breakage_mid_def breakage_searched_def push_heap_def)

lemma breakage_body_first:
  "IterativeSearch_body push_heap breakage_model 2 0
     \<lparr>costsofar = Fin 0, state = mk_state 0 0, predecessor = None\<rparr> breakage_trellis
   = Inr (Next, 0, breakage_first)"
  by (simp add: lazy_defs breakage_trellis_def breakage_model_def breakage_first_def push_heap_def)

text \<open>A single column with one state, and the engine after any query on it.\<close>

definition single_trellis :: ViterbiSearch where
  "single_trellis = fresh [[mk_state 0 0]]"

definition single_searched :: ViterbiSearch where
  "single_searched =
     \<lparr>v_state = [mk_state 0 0], v_winner = [Some (mk_state 0 0)], unreached_states = [[]],
      queue = [],
      scanned_labels = [0 \<mapsto> \<lparr>costsofar = Fin 1, state = mk_state 0 0, predecessor = None\<rparr>],
      earliest_time = 1\<rparr>"

lemma single_search_5:
  "ViterbiSearch_SearchWinner push_heap line_model 5 single_trellis
     = Inr (kInvalidStateId, single_searched)"
  by (simp add: lazy_defs single_trellis_def line_model_def single_searched_def push_heap_def)

lemma single_search_0:
  "ViterbiSearch_SearchWinner push_heap line_model 0 single_trellis = Inr (0, single_searched)"
  by (simp add: lazy_defs single_trellis_def line_model_def single_searched_def push_heap_def)

section \<open>Claims on repeated queries and on the earliest time\<close>

text \<open>
  C3: in both engines, when \<open>SearchWinner(t)\<close> has returned a value, a repeated call
  returns the same value and leaves the engine as it is, and so does a call after any
  later \<open>SearchWinner(t')\<close> (for every \<open>t'\<close>, in particular \<open>t' \<ge> t\<close>); every query only
  appends to the winner cache, so that no winner is overwritten.
\<close>

theorem C3_monotone_answer:
  "(ViterbiSearch_SearchWinner P M t e = Inr (w, e1) \<and>
    ViterbiSearch_SearchWinner P M t' e1 = Inr (w', e2) \<longrightarrow>
      ViterbiSearch_SearchWinner P M t e1 = Inr (w, e1) \<and>
      ViterbiSearch_SearchWinner P M t e2 = Inr (w, e2) \<and>
      prefix (v_winner e) (v_winner e1) \<and> prefix (v_winner e1) (v_winner e2)) \<and>
   (NaiveViterbiSearch_SearchWinner Mx lt M' u n = Inr (v, n1) \<and>
    NaiveViterbiSearch_SearchWinner Mx lt M' u' n1 = Inr (v', n2) \<longrightarrow>
      NaiveViterbiSearch_SearchWinner Mx lt M' u n1 = Inr (v, n1) \<and>
      NaiveViterbiSearch_SearchWinner Mx lt M' u n2 = Inr (v, n2) \<and>
      prefix (n_winner n) (n_winner n1) \<and> prefix (n_winner n1) (n_winner n2))"
proof (intro conjI impI)
  assume a: "ViterbiSearch_SearchWinner P M t e = Inr (w, e1) \<and>
    ViterbiSearch_SearchWinner P M t' e1 = Inr (w', e2)"
  then have a1: "ViterbiSearch_SearchWinner P M t e = Inr (w, e1)"
    and a2: "ViterbiSearch_SearchWinner P M t' e1 = Inr (w', e2)" by simp_all
  from ViterbiSearch_SearchWinner_again [OF a1 a2]
  show "ViterbiSearch_SearchWinner P M t e1 = Inr (w, e1)"
    and "ViterbiSearch_SearchWinner P M t e2 = Inr (w, e2)" .
  from ViterbiSearch_SearchWinner_result(1) [OF a1]
  show "prefix (v_winner e) (v_winner e1)" by (simp add: extends_def)
  from ViterbiSearch_SearchWinner_result(1) [OF a2]
  show "prefix (v_winner e1) (v_winner e2)" by (simp add: extends_def)
next
  assume b: "NaiveViterbiSearch_SearchWinner Mx lt M' u n = Inr (v, n1) \<and>
    NaiveViterbiSearch_SearchWinner Mx lt M' u' n1 = Inr (v', n2)"
  then have b1: "NaiveViterbiSearch_SearchWinner Mx lt M' u n = Inr (v, n1)"
    and b2: "NaiveViterbiSearch_SearchWinner Mx lt M' u' n1 = Inr (v', n2)" by simp_all
  note r1 = NaiveViterbiSearch_SearchWinner_result [OF b1]
  note r2 = NaiveViterbiSearch_SearchWinner_result [OF b2]
  from r1 show "prefix (n_winner n) (n_winner n1)" by simp
  from r2 show "prefix (n_winner n1) (n_winner n2)" by simp
  show "NaiveViterbiSearch_SearchWinner Mx lt M' u n1 = Inr (v, n1)"
    by (rule NaiveViterbiSearch_SearchWinner_again [OF b1]) simp_all
  from r2 show "NaiveViterbiSearch_SearchWinner Mx lt M' u n2 = Inr (v, n2)"
    by (intro NaiveViterbiSearch_SearchWinner_again [OF b1]) simp_all
qed

theorem C3_monotone_answer_witness:
  "ViterbiSearch_SearchWinner push_heap breakage_model 1 breakage_trellis = Inr (1, breakage_mid) \<and>
   ViterbiSearch_SearchWinner push_heap breakage_model 2 breakage_mid = Inr (2, breakage_searched) \<and>
   ViterbiSearch_SearchWinner push_heap breakage_model 1 breakage_mid = Inr (1, breakage_mid) \<and>
   ViterbiSearch_SearchWinner push_heap breakage_model 1 breakage_searched = Inr (1, breakage_searched) \<and>
   prefix (v_winner breakage_trellis) (v_winner breakage_mid) \<and>
   prefix (v_winner breakage_mid) (v_winner breakage_searched) \<and>
   NaiveViterbiSearch_SearchWinner False sortcost_less line_model 1 (naive_fresh line_columns)
     = Inr (1, line_naive_1) \<and>
   NaiveViterbiSearch_SearchWinner False sortcost_less line_model 2 line_naive_1
     = Inr (2, line_naive_2) \<and>
   NaiveViterbiSearch_SearchWinner False sortcost_less line_model 1 line_naive_1
     = Inr (1, line_naive_1) \<and>
   NaiveViterbiSearch_SearchWinner False sortcost_less line_model 1 line_naive_2
     = Inr (1, line_naive_2) \<and>
   prefix (n_winner (naive_fresh line_columns)) (n_winner line_naive_1) \<and>
   prefix (n_winner line_naive_1) (n_winner line_naive_2)"
  using C3_monotone_answer [of push_heap breakage_model 1 breakage_trellis 1 breakage_mid 2 2
      breakage_searched False sortcost_less line_model 1 "naive_fresh line_columns" 1
      line_naive_1 2 2 line_naive_2]
    breakage_search_1 breakage_search_2 line_naive_search_1 line_naive_search_2
  by simp

text \<open>
  C9 as the code has it: the earliest time never decreases in a search, that is in a pass
  of the main loop, in \<^verbatim>\<open>IterativeSearch\<close> and in \<^verbatim>\<open>SearchWinner\<close>; of the other operations
  \<^verbatim>\<open>Clear\<close> resets it to 0, the value of a new engine, and the lookups do not change the
  engine. One pass of the main loop raises it to \<open>time + 1\<close> exactly when the pass settles
  its label and the column of that time becomes empty; a popped label whose time is below
  the earliest time is dropped, the pass leaving every field of the engine as it was (the
  label is gone from the queue and nothing else).
\<close>

theorem C9_earliest_time:
  "(state_time (state label) < earliest_time e \<longrightarrow>
      IterativeSearch_body P M target st label e = Inr (Skip, st, e)) \<and>
   (q_pop (queue e) = Some (label, q) \<and> state_time (state label) < earliest_time e \<longrightarrow>
      IterativeSearch_loop P M target st e = IterativeSearch_loop P M target st (e\<lparr>queue := q\<rparr>)) \<and>
   (IterativeSearch_body P M target st label e = Inr (oc, st1, e1) \<longrightarrow>
      earliest_time e \<le> earliest_time e1 \<and>
      (oc = Skip) = (state_time (state label) < earliest_time e) \<and>
      earliest_time e1 =
        (if oc \<noteq> Skip \<and> unreached_states e1 ! state_time (state label) = []
         then state_time (state label) + 1 else earliest_time e)) \<and>
   (IterativeSearch P M target b e = Inr (st2, e2) \<longrightarrow> earliest_time e \<le> earliest_time e2) \<and>
   (ViterbiSearch_SearchWinner P M t e = Inr (w, e3) \<longrightarrow> earliest_time e \<le> earliest_time e3) \<and>
   earliest_time (ViterbiSearch_Clear e) = 0 \<and>
   earliest_time (fresh columns) = 0"
proof (intro conjI impI)
  show "earliest_time (ViterbiSearch_Clear e) = 0"
    by (simp add: ViterbiSearch_Clear_def)
next
  show "earliest_time (fresh columns) = 0"
    by (simp add: fresh_def)
next
  assume "state_time (state label) < earliest_time e"
  then show "IterativeSearch_body P M target st label e = Inr (Skip, st, e)"
    by (simp add: IterativeSearch_body_def)
next
  assume "q_pop (queue e) = Some (label, q) \<and> state_time (state label) < earliest_time e"
  then show "IterativeSearch_loop P M target st e
               = IterativeSearch_loop P M target st (e\<lparr>queue := q\<rparr>)"
    by (simp add: IterativeSearch_loop.simps [of P M target st e] IterativeSearch_body_def)
next
  assume b: "IterativeSearch_body P M target st label e = Inr (oc, st1, e1)"
  show "earliest_time e \<le> earliest_time e1"
    using IterativeSearch_body_extends [OF b] by (simp add: extends_def)
  show "(oc = Skip) = (state_time (state label) < earliest_time e)"
    using IterativeSearch_body_Skip [of P M target st label e st1 e1]
      IterativeSearch_body_settle [OF b] b by (cases "oc = Skip") auto
  show "earliest_time e1 =
        (if oc \<noteq> Skip \<and> unreached_states e1 ! state_time (state label) = []
         then state_time (state label) + 1 else earliest_time e)"
    using IterativeSearch_body_Skip [of P M target st label e st1 e1]
      IterativeSearch_body_settle [OF b] b by (cases "oc = Skip") auto
next
  assume "IterativeSearch P M target b e = Inr (st2, e2)"
  from IterativeSearch_extends [OF this] show "earliest_time e \<le> earliest_time e2"
    by (simp add: extends_def)
next
  assume "ViterbiSearch_SearchWinner P M t e = Inr (w, e3)"
  from ViterbiSearch_SearchWinner_result(1) [OF this] show "earliest_time e \<le> earliest_time e3"
    by (simp add: extends_def)
qed


theorem C9_earliest_time_witness:
  "state_time (state (line_label 0 0 None)) < earliest_time (breakage_mid\<lparr>queue := [line_label 0 0 None]\<rparr>) \<and>
   IterativeSearch_body push_heap breakage_model 2 1 (line_label 0 0 None)
       (breakage_mid\<lparr>queue := [line_label 0 0 None]\<rparr>)
     = Inr (Skip, 1, breakage_mid\<lparr>queue := [line_label 0 0 None]\<rparr>) \<and>
   q_pop (queue (breakage_mid\<lparr>queue := [line_label 0 0 None]\<rparr>)) = Some (line_label 0 0 None, []) \<and>
   IterativeSearch_loop push_heap breakage_model 2 1 (breakage_mid\<lparr>queue := [line_label 0 0 None]\<rparr>)
     = IterativeSearch_loop push_heap breakage_model 2 1
         (breakage_mid\<lparr>queue := [line_label 0 0 None], queue := []\<rparr>) \<and>
   IterativeSearch_body push_heap breakage_model 2 0 (line_label 0 0 None) breakage_trellis
     = Inr (Next, 0, breakage_first) \<and>
   earliest_time breakage_trellis = 0 \<and> earliest_time breakage_first = 1 \<and>
   unreached_states breakage_first ! 0 = [] \<and>
   IterativeSearch push_heap breakage_model 2 False breakage_trellis = Inr (0, breakage_first) \<and>
   ViterbiSearch_SearchWinner push_heap breakage_model 2 breakage_trellis = Inr (2, breakage_searched) \<and>
   earliest_time breakage_searched = 3 \<and>
   earliest_time breakage_trellis \<le> earliest_time breakage_first \<and>
   earliest_time breakage_trellis \<le> earliest_time breakage_searched \<and>
   earliest_time (ViterbiSearch_Clear breakage_searched) = 0"
proof -
  let ?l = "line_label 0 0 None"
  let ?e = "breakage_mid\<lparr>queue := [?l]\<rparr>"
  have l: "?l = \<lparr>costsofar = Fin 0, state = mk_state 0 0, predecessor = None\<rparr>"
    by (simp add: line_label_def)
  have stale: "state_time (state ?l) < earliest_time ?e"
    by (simp add: line_label_def mk_state_def breakage_mid_def)
  have pop: "q_pop (queue ?e) = Some (?l, [])"
    by (simp add: q_pop_def)
  have body: "IterativeSearch_body push_heap breakage_model 2 0 ?l breakage_trellis
                = Inr (Next, 0, breakage_first)"
    using breakage_body_first by (simp add: l)
  have it: "IterativeSearch push_heap breakage_model 2 False breakage_trellis = Inr (0, breakage_first)"
    by (simp add: lazy_defs breakage_trellis_def breakage_model_def breakage_first_def push_heap_def)
  have vals: "earliest_time breakage_trellis = 0" "earliest_time breakage_first = 1"
    "unreached_states breakage_first ! 0 = []" "earliest_time breakage_searched = 3"
    by (simp_all add: breakage_trellis_def fresh_def breakage_first_def breakage_searched_def)
  from C9_earliest_time [where label = ?l and e = ?e and P = push_heap and M = breakage_model
      and target = 2 and st = 1 and q = "[]"] stale pop
  have "IterativeSearch_body push_heap breakage_model 2 1 ?l ?e = Inr (Skip, 1, ?e)"
    and "IterativeSearch_loop push_heap breakage_model 2 1 ?e
           = IterativeSearch_loop push_heap breakage_model 2 1 (?e\<lparr>queue := []\<rparr>)"
    by simp_all
  moreover
  from C9_earliest_time [where label = ?l and e = breakage_trellis and P = push_heap
      and M = breakage_model and target = 2 and st = 0 and oc = Next and ?st1.0 = 0
      and ?e1.0 = breakage_first and b = False and ?st2.0 = 0 and ?e2.0 = breakage_first
      and t = 2 and w = 2 and ?e3.0 = breakage_searched] body it breakage_search
  have "earliest_time breakage_trellis \<le> earliest_time breakage_first"
    and "earliest_time breakage_trellis \<le> earliest_time breakage_searched"
    by blast+
  moreover
  from C9_earliest_time [where e = breakage_searched]
  have "earliest_time (ViterbiSearch_Clear breakage_searched) = 0"
    by blast
  ultimately show ?thesis
    using stale pop body it vals breakage_search by simp
qed

text \<open>
  The claim as stated fails for \<^verbatim>\<open>Clear\<close>, an operation of the engine: after the search of
  the breakage scenario the earliest time is 3, and \<^verbatim>\<open>Clear\<close> sets it to 0.
\<close>

theorem C9_counterexample:
  "ViterbiSearch_SearchWinner push_heap breakage_model 2 breakage_trellis
     = Inr (2, breakage_searched) \<and>
   earliest_time breakage_searched = 3 \<and>
   earliest_time (ViterbiSearch_Clear breakage_searched) = 0 \<and>
   \<not> earliest_time breakage_searched \<le> earliest_time (ViterbiSearch_Clear breakage_searched)"
  using breakage_search by (simp add: breakage_searched_def ViterbiSearch_Clear_def)

text \<open>
  C7 as the code has it: for a time \<open>t\<close> at or beyond the number of columns, the NAIVE
  engine returns the absent id and is left unchanged. The LAZY engine (its winner cache
  no longer than its columns) does so when it has no column or a cached entry for every
  column; otherwise it clamps the target to the last column, runs the query for the
  last column, and returns the absent id with the engine that this query leaves.
\<close>

theorem C7_beyond_last_column:
  "(length (n_states n) \<le> t \<longrightarrow>
      NaiveViterbiSearch_SearchWinner Mx lt M' t n = Inr (kInvalidStateId, n)) \<and>
   (length (unreached_states e) \<le> t \<and> cache_bounded e \<and>
    (unreached_states e = [] \<or> length (v_winner e) = length (unreached_states e)) \<longrightarrow>
      ViterbiSearch_SearchWinner P M t e = Inr (kInvalidStateId, e)) \<and>
   (length (unreached_states e) \<le> t \<and> length (v_winner e) < length (unreached_states e) \<longrightarrow>
      ViterbiSearch_SearchWinner P M t e =
        map_sum id (\<lambda>(w, e'). (kInvalidStateId, e'))
          (ViterbiSearch_SearchWinner P M (length (unreached_states e) - 1) e))"
proof (intro conjI impI)
  assume "length (n_states n) \<le> t"
  then show "NaiveViterbiSearch_SearchWinner Mx lt M' t n = Inr (kInvalidStateId, n)"
    by (simp add: NaiveViterbiSearch_SearchWinner_def)
next
  assume a: "length (unreached_states e) \<le> t \<and> cache_bounded e \<and>
    (unreached_states e = [] \<or> length (v_winner e) = length (unreached_states e))"
  then have "\<not> t < length (v_winner e)"
    by (auto simp: cache_bounded_def)
  moreover from a have
    "unreached_states e = [] \<or> length (unreached_states e) - 1 < length (v_winner e)"
    by (cases "unreached_states e") auto
  ultimately show "ViterbiSearch_SearchWinner P M t e = Inr (kInvalidStateId, e)"
    by (rule ViterbiSearch_SearchWinner_idle)
next
  assume "length (unreached_states e) \<le> t \<and> length (v_winner e) < length (unreached_states e)"
  then show "ViterbiSearch_SearchWinner P M t e =
        map_sum id (\<lambda>(w, e'). (kInvalidStateId, e'))
          (ViterbiSearch_SearchWinner P M (length (unreached_states e) - 1) e)"
    by (intro ViterbiSearch_SearchWinner_beyond) (simp_all add: cache_bounded_def)
qed

theorem C7_beyond_last_column_witness:
  "length (n_states (naive_fresh line_columns)) \<le> 3 \<and>
   NaiveViterbiSearch_SearchWinner False sortcost_less line_model 3 (naive_fresh line_columns)
     = Inr (kInvalidStateId, naive_fresh line_columns) \<and>
   length (unreached_states breakage_searched) \<le> 3 \<and> cache_bounded breakage_searched \<and>
   length (v_winner breakage_searched) = length (unreached_states breakage_searched) \<and>
   ViterbiSearch_SearchWinner push_heap breakage_model 3 breakage_searched
     = Inr (kInvalidStateId, breakage_searched) \<and>
   length (unreached_states single_trellis) \<le> 5 \<and>
   length (v_winner single_trellis) < length (unreached_states single_trellis) \<and>
   ViterbiSearch_SearchWinner push_heap line_model 0 single_trellis = Inr (0, single_searched) \<and>
   ViterbiSearch_SearchWinner push_heap line_model 5 single_trellis
     = Inr (kInvalidStateId, single_searched)"
proof -
  have n: "length (n_states (naive_fresh line_columns)) \<le> 3"
    by (simp add: naive_fresh_def line_columns_def)
  have b: "length (unreached_states breakage_searched) \<le> 3" "cache_bounded breakage_searched"
    "length (v_winner breakage_searched) = length (unreached_states breakage_searched)"
    by (simp_all add: breakage_searched_def cache_bounded_def)
  have s: "length (unreached_states single_trellis) \<le> 5"
    "length (v_winner single_trellis) < length (unreached_states single_trellis)"
    "length (unreached_states single_trellis) - 1 = 0"
    by (simp_all add: single_trellis_def fresh_def)
  from C7_beyond_last_column [where n = "naive_fresh line_columns" and t = 3
      and e = breakage_searched and Mx = False and lt = sortcost_less and M' = line_model
      and P = push_heap and M = breakage_model] n b
  have 1: "NaiveViterbiSearch_SearchWinner False sortcost_less line_model 3 (naive_fresh line_columns)
             = Inr (kInvalidStateId, naive_fresh line_columns)"
    and 2: "ViterbiSearch_SearchWinner push_heap breakage_model 3 breakage_searched
             = Inr (kInvalidStateId, breakage_searched)"
    by simp_all
  from C7_beyond_last_column [where n = "naive_fresh line_columns" and t = 5
      and e = single_trellis and Mx = False and lt = sortcost_less and M' = line_model
      and P = push_heap and M = line_model] s single_search_0
  have 3: "ViterbiSearch_SearchWinner push_heap line_model 5 single_trellis
             = Inr (kInvalidStateId, single_searched)"
    by simp
  from n b s 1 2 3 single_search_0 show ?thesis by simp
qed

text \<open>
  The claim as stated fails in the LAZY engine: on a fresh engine with one column, the
  query for time 5 settles the state of time 0 and caches its winner.
\<close>

theorem C7_counterexample:
  "length (unreached_states single_trellis) \<le> 5 \<and>
   ViterbiSearch_SearchWinner push_heap line_model 5 single_trellis
     = Inr (kInvalidStateId, single_searched) \<and>
   v_winner single_trellis = [] \<and> v_winner single_searched = [Some (mk_state 0 0)] \<and>
   earliest_time single_trellis = 0 \<and> earliest_time single_searched = 1 \<and>
   unreached_states single_trellis = [[mk_state 0 0]] \<and> unreached_states single_searched = [[]] \<and>
   single_searched \<noteq> single_trellis"
proof -
  have "v_winner single_trellis = []" "v_winner single_searched = [Some (mk_state 0 0)]"
    "earliest_time single_trellis = 0" "earliest_time single_searched = 1"
    "unreached_states single_trellis = [[mk_state 0 0]]" "unreached_states single_searched = [[]]"
    by (simp_all add: single_trellis_def fresh_def single_searched_def)
  moreover from this have "single_searched \<noteq> single_trellis"
    by auto
  ultimately show ?thesis
    using single_search_5 by simp
qed

section \<open>The winner of a column in the NAIVE engine\<close>

lemma PInf_le [simp]: "(PInf \<le> x) = (x = PInf)"
  by (cases x) simp_all

lemma le_MInf [simp]: "(x \<le> MInf) = (x = MInf)"
  by (cases x) simp_all

lemma max_element_None [simp]: "(max_element q = None) = (q = [])"
  by (cases q) (auto split: option.splits)

lemma max_element_mem: "max_element q = Some l \<Longrightarrow> l \<in> set q"
  by (induction q arbitrary: l) (auto split: option.splits if_splits)

lemma max_element_greatest:
  "max_element q = Some l \<Longrightarrow> m \<in> set q \<Longrightarrow> costsofar m \<le> costsofar l"
proof (induction q arbitrary: l)
  case Nil
  then show ?case by simp
next
  case (Cons a q)
  show ?case
  proof (cases "max_element q")
    case None
    with Cons.prems show ?thesis by simp
  next
    case (Some b)
    with Cons.prems Cons.IH [OF Some] show ?thesis
      by (auto split: if_splits)
  qed
qed

text \<open>\<open>better Maximize c c'\<close>: the cost \<open>c\<close> is at least as good as \<open>c'\<close> for the polarity.\<close>

definition better :: "bool \<Rightarrow> cost \<Rightarrow> cost \<Rightarrow> bool" where
  "better Maximize c c' = (if Maximize then c' \<le> c else c \<le> c')"

text \<open>
  \<open>is_winner Maximize labels w\<close>: \<open>w\<close> is the state of a label of \<open>labels\<close> whose cost is
  not the invalid sentinel and is optimal among the labels whose cost is not the invalid
  sentinel; \<open>w\<close> is absent when there is no such label.
\<close>

definition is_winner :: "bool \<Rightarrow> Label list \<Rightarrow> State option \<Rightarrow> bool" where
  "is_winner Maximize labels w =
     (case w of
        None \<Rightarrow> list_all (\<lambda>l. costsofar l = kInvalidCost Maximize) labels
      | Some s \<Rightarrow>
          list_ex (\<lambda>l. state l = s \<and> costsofar l \<noteq> kInvalidCost Maximize \<and>
                     list_all (\<lambda>l'. costsofar l' = kInvalidCost Maximize \<or>
                                    better Maximize (costsofar l) (costsofar l')) labels) labels)"

lemma FindWinner_None_iff:
  "(FindWinner Mx labels = None) = list_all (\<lambda>l. costsofar l = kInvalidCost Mx) labels"
proof (cases Mx)
  case True
  show ?thesis
  proof (cases "max_element labels")
    case None
    with True show ?thesis by (simp add: FindWinner_def)
  next
    case (Some it)
    from max_element_greatest [OF Some] max_element_mem [OF Some] True Some show ?thesis
      by (auto simp: FindWinner_def kInvalidCost_def list_all_iff)
  qed
next
  case False
  show ?thesis
  proof (cases "min_element labels")
    case None
    with False show ?thesis by (simp add: FindWinner_def)
  next
    case (Some it)
    from min_element_least [OF Some] min_element_mem [OF Some] False Some show ?thesis
      by (auto simp: FindWinner_def kInvalidCost_def list_all_iff)
  qed
qed

lemma is_winner_SomeI:
  assumes "l \<in> set labels" and "state l = s" and "costsofar l \<noteq> kInvalidCost Mx"
    and "\<And>l'. l' \<in> set labels \<Longrightarrow> better Mx (costsofar l) (costsofar l')"
  shows "is_winner Mx labels (Some s)"
  unfolding is_winner_def option.case list_ex_iff list_all_iff
  using assms by blast

lemma FindWinner_is_winner: "is_winner Mx labels (FindWinner Mx labels)"
proof (cases "FindWinner Mx labels")
  case None
  then have "list_all (\<lambda>l. costsofar l = kInvalidCost Mx) labels"
    by (simp add: FindWinner_None_iff)
  with None show ?thesis by (simp add: is_winner_def)
next
  case (Some s)
  show ?thesis
  proof (cases Mx)
    case True
    with Some obtain it where it: "max_element labels = Some it" "state it = s"
      "costsofar it \<noteq> kInvalidCost Mx"
      by (cases "max_element labels") (auto simp: FindWinner_def split: if_splits)
    have "is_winner Mx labels (Some s)"
      using max_element_mem [OF it(1)] it(2,3)
    proof (rule is_winner_SomeI)
      fix l' assume "l' \<in> set labels"
      from max_element_greatest [OF it(1) this] True
      show "better Mx (costsofar it) (costsofar l')" by (simp add: better_def)
    qed
    with Some show ?thesis by simp
  next
    case False
    with Some obtain it where it: "min_element labels = Some it" "state it = s"
      "costsofar it \<noteq> kInvalidCost Mx"
      by (cases "min_element labels") (auto simp: FindWinner_def split: if_splits)
    have "is_winner Mx labels (Some s)"
      using min_element_mem [OF it(1)] it(2,3)
    proof (rule is_winner_SomeI)
      fix l' assume "l' \<in> set labels"
      from min_element_least [OF it(1) this] False
      show "better Mx (costsofar it) (costsofar l')" by (simp add: better_def)
    qed
    with Some show ?thesis by simp
  qed
qed

text \<open>The labels of a column: the relaxation from the previous labels, and what the engine keeps.\<close>

definition relaxed_labels ::
  "bool \<Rightarrow> label_less \<Rightarrow> CostModel \<Rightarrow> State list \<Rightarrow> Label list \<Rightarrow> Label list" where
  "relaxed_labels Mx lt M column prev_labels =
     UpdateLabels Mx lt M (InitLabels Mx M column False) prev_labels"

definition column_labels ::
  "bool \<Rightarrow> label_less \<Rightarrow> CostModel \<Rightarrow> Time \<Rightarrow> State list \<Rightarrow> Label list \<Rightarrow> Label list" where
  "column_labels Mx lt M time column prev_labels =
     (if time = 0 then InitLabels Mx M column True
      else if FindWinner Mx (relaxed_labels Mx lt M column prev_labels) = None
        then InitLabels Mx M column True
        else relaxed_labels Mx lt M column prev_labels)"

lemma NaiveViterbiSearch_column_labels:
  assumes "NaiveViterbiSearch_column Mx lt M time e = Inr e'"
  shows "n_history e' = n_history e @ [column_labels Mx lt M time (n_states e ! time) (last (n_history e))]"
    and "n_winner e' = n_winner e @
           [FindWinner Mx (column_labels Mx lt M time (n_states e ! time) (last (n_history e)))]"
    and "n_states e' = n_states e" and "n_state e' = n_state e"
proof -
  from assms have g: "time < length (n_states e)" "\<not> (time \<noteq> 0 \<and> n_history e = [])"
    by (simp_all add: NaiveViterbiSearch_column_def split: if_splits)
  let ?col = "n_states e ! time"
  let ?labels = "if time = 0 then InitLabels Mx M ?col True
                 else UpdateLabels Mx lt M (InitLabels Mx M ?col False) (last (n_history e))"
  let ?restart = "FindWinner Mx ?labels = None \<and> time > 0"
  let ?labels' = "if ?restart then InitLabels Mx M ?col True else ?labels"
  let ?winner' = "if ?restart then FindWinner Mx ?labels' else FindWinner Mx ?labels"
  from assms g have e': "e' = e\<lparr>n_winner := n_winner e @ [?winner'], n_history := n_history e @ [?labels']\<rparr>"
    by (auto simp: NaiveViterbiSearch_column_def Let_def)
  have l: "?labels' = column_labels Mx lt M time ?col (last (n_history e))"
    by (simp add: column_labels_def relaxed_labels_def)
  have w: "?winner' = FindWinner Mx ?labels'"
    by simp
  from e' l show "n_history e' = n_history e @ [column_labels Mx lt M time ?col (last (n_history e))]"
    by simp
  from e' w l show "n_winner e' = n_winner e @
           [FindWinner Mx (column_labels Mx lt M time ?col (last (n_history e)))]"
    by simp
  from e' show "n_states e' = n_states e" "n_state e' = n_state e"
    by simp_all
qed

text \<open>
  The caches of an engine that has only been changed by \<open>SearchWinner\<close> since they were
  empty: one entry of the history for each cached winner, computed from the column and
  the entry before it.
\<close>

definition naive_ok :: "bool \<Rightarrow> label_less \<Rightarrow> CostModel \<Rightarrow> NaiveViterbiSearch \<Rightarrow> bool" where
  "naive_ok Mx lt M e =
     (length (n_history e) = length (n_winner e) \<and>
      length (n_winner e) \<le> length (n_states e) \<and>
      list_all (\<lambda>t. n_history e ! t =
                     column_labels Mx lt M t (n_states e ! t) (n_history e ! (t - 1)) \<and>
                   n_winner e ! t = FindWinner Mx (n_history e ! t))
        [0 ..< length (n_winner e)])"

lemma naive_ok_iff:
  "naive_ok Mx lt M e =
     (length (n_history e) = length (n_winner e) \<and>
      length (n_winner e) \<le> length (n_states e) \<and>
      (\<forall>t < length (n_winner e).
         n_history e ! t = column_labels Mx lt M t (n_states e ! t) (n_history e ! (t - 1)) \<and>
         n_winner e ! t = FindWinner Mx (n_history e ! t)))"
  unfolding naive_ok_def list_all_iff set_upt Ball_def atLeastLessThan_iff by simp

lemma naive_ok_fresh: "naive_ok Mx lt M (naive_fresh columns)"
  by (simp add: naive_ok_def naive_fresh_def)

lemma NaiveViterbiSearch_column_total:
  assumes "naive_ok Mx lt M e" and "length (n_winner e) < length (n_states e)"
  shows "\<exists>e'. NaiveViterbiSearch_column Mx lt M (length (n_winner e)) e = Inr e'"
proof -
  from assms(1) have "length (n_history e) = length (n_winner e)"
    unfolding naive_ok_def by (rule conjunct1)
  then have "length (n_winner e) \<noteq> 0 \<longrightarrow> n_history e \<noteq> []"
    by auto
  with assms(2) show ?thesis
    by (auto simp: NaiveViterbiSearch_column_def Let_def)
qed

lemma NaiveViterbiSearch_column_ok:
  assumes ok: "naive_ok Mx lt M e"
    and c: "NaiveViterbiSearch_column Mx lt M (length (n_winner e)) e = Inr e'"
  shows "naive_ok Mx lt M e'"
proof -
  let ?n = "length (n_winner e)"
  note r = NaiveViterbiSearch_column_labels [OF c]
  from c have lt: "?n < length (n_states e)" and h: "?n \<noteq> 0 \<longrightarrow> n_history e \<noteq> []"
    by (auto simp: NaiveViterbiSearch_column_def split: if_splits)
  from ok have len: "length (n_history e) = ?n"
    unfolding naive_ok_def by (rule conjunct1)
  have last: "?n \<noteq> 0 \<Longrightarrow> last (n_history e) = n_history e ! (?n - 1)"
    using h len by (simp add: last_conv_nth)
  have hn: "n_history e' ! ?n = column_labels Mx lt M ?n (n_states e ! ?n) (last (n_history e))"
    using r(1) len by (simp add: nth_append)
  have new: "n_history e' ! ?n = column_labels Mx lt M ?n (n_states e' ! ?n) (n_history e' ! (?n - 1))"
  proof (cases "?n = 0")
    case True
    with hn r(3) show ?thesis by (simp add: column_labels_def)
  next
    case False
    then have "n_history e' ! (?n - 1) = n_history e ! (?n - 1)"
      using r(1) len by (simp add: nth_append)
    with hn r(3) last [OF False] show ?thesis by simp
  qed
  have neww: "n_winner e' ! ?n = FindWinner Mx (n_history e' ! ?n)"
    using r(2) hn by (simp add: nth_append)
  have old: "n_history e' ! t = column_labels Mx lt M t (n_states e' ! t) (n_history e' ! (t - 1)) \<and>
      n_winner e' ! t = FindWinner Mx (n_history e' ! t)" if t: "t < ?n" for t
  proof -
    from t have "t - 1 < ?n" by simp
    with t len r(1,2) have "n_history e' ! t = n_history e ! t"
      "n_history e' ! (t - 1) = n_history e ! (t - 1)" "n_winner e' ! t = n_winner e ! t"
      by (simp_all add: nth_append)
    moreover from ok t have
      "n_history e ! t = column_labels Mx lt M t (n_states e ! t) (n_history e ! (t - 1)) \<and>
       n_winner e ! t = FindWinner Mx (n_history e ! t)"
      unfolding naive_ok_iff by blast
    ultimately show ?thesis using r(3) by simp
  qed
  have all: "n_history e' ! t = column_labels Mx lt M t (n_states e' ! t) (n_history e' ! (t - 1)) \<and>
      n_winner e' ! t = FindWinner Mx (n_history e' ! t)" if "t < length (n_winner e')" for t
  proof (cases "t < ?n")
    case True
    then show ?thesis by (rule old)
  next
    case False
    with that r(2) have "t = ?n" by simp
    with new neww show ?thesis by simp
  qed
  from r len lt have "length (n_history e') = length (n_winner e')"
    "length (n_winner e') \<le> length (n_states e')" by simp_all
  with all show ?thesis unfolding naive_ok_iff by blast
qed


lemma NaiveViterbiSearch_loop_done:
  "\<not> time \<le> target \<Longrightarrow> NaiveViterbiSearch_loop Mx lt M time target e = Inr e"
  by (simp add: NaiveViterbiSearch_loop.simps)

lemma NaiveViterbiSearch_loop_step:
  "time \<le> target \<Longrightarrow> NaiveViterbiSearch_column Mx lt M time e = Inr e1 \<Longrightarrow>
     NaiveViterbiSearch_loop Mx lt M time target e
       = NaiveViterbiSearch_loop Mx lt M (time + 1) target e1"
  by (simp add: NaiveViterbiSearch_loop.simps [of Mx lt M time target e])

lemma NaiveViterbiSearch_loop_ok:
  "naive_ok Mx lt M e \<Longrightarrow> time = length (n_winner e) \<Longrightarrow> target < length (n_states e) \<Longrightarrow>
     \<exists>e'. NaiveViterbiSearch_loop Mx lt M time target e = Inr e' \<and> naive_ok Mx lt M e' \<and>
          (time \<le> target \<longrightarrow> length (n_winner e') = Suc target)"
proof (induction Mx lt M time target e rule: NaiveViterbiSearch_loop.induct)
  case (1 Mx lt M time target e)
  show ?case
  proof (cases "time \<le> target")
    case False
    with "1.prems"(1) show ?thesis
      by (simp add: NaiveViterbiSearch_loop_done)
  next
    case True
    with "1.prems" have "length (n_winner e) < length (n_states e)" by simp
    from NaiveViterbiSearch_column_total [OF "1.prems"(1) this] "1.prems"(2)
    obtain e1 where c: "NaiveViterbiSearch_column Mx lt M time e = Inr e1" by auto
    from NaiveViterbiSearch_column_ok [OF "1.prems"(1)] c "1.prems"(2)
    have ok1: "naive_ok Mx lt M e1" by simp
    from NaiveViterbiSearch_column_labels [OF c] "1.prems"(2,3)
    have t1: "time + 1 = length (n_winner e1)" and s1: "target < length (n_states e1)"
      by simp_all
    from "1.IH" [OF True c ok1 t1 s1] obtain e' where
      r: "NaiveViterbiSearch_loop Mx lt M (time + 1) target e1 = Inr e'" and
      ok': "naive_ok Mx lt M e'" and
      len: "time + 1 \<le> target \<longrightarrow> length (n_winner e') = Suc target"
      by auto
    have "length (n_winner e') = Suc target"
    proof (cases "time + 1 \<le> target")
      case True
      with len show ?thesis by simp
    next
      case False
      with r have "e' = e1"
        by (simp add: NaiveViterbiSearch_loop_done)
      with False \<open>time \<le> target\<close> t1 show ?thesis by simp
    qed
    with NaiveViterbiSearch_loop_step [OF True c] r ok' show ?thesis
      by simp
  qed
qed

lemma NaiveViterbiSearch_SearchWinner_ok:
  assumes "naive_ok Mx lt M e"
  shows "\<exists>w e'. NaiveViterbiSearch_SearchWinner Mx lt M target e = Inr (w, e') \<and>
           naive_ok Mx lt M e'"
proof (cases "length (n_states e) \<le> target \<or> target < length (n_winner e)")
  case True
  with assms show ?thesis
    by (auto simp: NaiveViterbiSearch_SearchWinner_def)
next
  case False
  then have "target < length (n_states e)" "length (n_winner e) \<le> target" by simp_all
  with NaiveViterbiSearch_loop_ok [OF assms refl, of target] obtain e' where
    "NaiveViterbiSearch_loop Mx lt M (length (n_winner e)) target e = Inr e'"
    "naive_ok Mx lt M e'" "length (n_winner e') = Suc target"
    by auto
  with False show ?thesis
    by (simp add: NaiveViterbiSearch_SearchWinner_def)
qed

lemma InitLabels_emission:
  "list_all (\<lambda>l. predecessor l = None \<and> costsofar l = EmissionCost M (state l))
     (InitLabels Mx M column True)"
  by (simp add: InitLabels_def list_all_iff)

text \<open>
  C4 as the code has it: in the NAIVE engine (its caches as \<open>SearchWinner\<close> builds them
  from empty caches), \<open>SearchWinner\<close> returns, with the id of the winner of the target time,
  or the absent id when that time has no winner. At every cached time \<open>t\<close> the winner is
  the state of a label of optimal cost among the labels of the column whose cost is not
  the invalid sentinel, and it is absent when all are invalid. Where \<open>t > 0\<close> and the
  relaxation from the previous column leaves every label invalid, the labels kept for \<open>t\<close>
  are the emission-only labels (no predecessor), and the winner is the best of them; it
  is absent exactly when the emission cost of every state of the column is the sentinel.
\<close>

theorem C4_naive_winner:
  "naive_ok Mx lt M e \<longrightarrow>
     (\<exists>w e'. NaiveViterbiSearch_SearchWinner Mx lt M target e = Inr (w, e') \<and>
        naive_ok Mx lt M e' \<and>
        (target < length (n_states e) \<longrightarrow>
           target < length (n_winner e') \<and> w = id_of (n_winner e' ! target)) \<and>
        (\<forall>t < length (n_winner e').
           n_winner e' ! t = FindWinner Mx (n_history e' ! t) \<and>
           is_winner Mx (n_history e' ! t) (n_winner e' ! t) \<and>
           (0 < t \<and> list_all (\<lambda>l. costsofar l = kInvalidCost Mx)
                       (relaxed_labels Mx lt M (n_states e' ! t) (n_history e' ! (t - 1))) \<longrightarrow>
              n_history e' ! t = InitLabels Mx M (n_states e' ! t) True \<and>
              list_all (\<lambda>l. predecessor l = None \<and> costsofar l = EmissionCost M (state l))
                (n_history e' ! t) \<and>
              (n_winner e' ! t = None) =
                list_all (\<lambda>s. EmissionCost M s = kInvalidCost Mx) (n_states e' ! t))))"
proof
  assume ok: "naive_ok Mx lt M e"
  from NaiveViterbiSearch_SearchWinner_ok [OF ok, of target] obtain w e' where
    sw: "NaiveViterbiSearch_SearchWinner Mx lt M target e = Inr (w, e')" and
    ok': "naive_ok Mx lt M e'"
    by blast
  from NaiveViterbiSearch_SearchWinner_result [OF sw]
  have tgt: "target < length (n_states e) \<longrightarrow>
           target < length (n_winner e') \<and> w = id_of (n_winner e' ! target)"
    by (simp split: if_splits)
  have cols: "n_winner e' ! t = FindWinner Mx (n_history e' ! t) \<and>
           is_winner Mx (n_history e' ! t) (n_winner e' ! t) \<and>
           (0 < t \<and> list_all (\<lambda>l. costsofar l = kInvalidCost Mx)
                       (relaxed_labels Mx lt M (n_states e' ! t) (n_history e' ! (t - 1))) \<longrightarrow>
              n_history e' ! t = InitLabels Mx M (n_states e' ! t) True \<and>
              list_all (\<lambda>l. predecessor l = None \<and> costsofar l = EmissionCost M (state l))
                (n_history e' ! t) \<and>
              (n_winner e' ! t = None) =
                list_all (\<lambda>s. EmissionCost M s = kInvalidCost Mx) (n_states e' ! t))"
    if t: "t < length (n_winner e')" for t
  proof -
    from ok' t have
      h: "n_history e' ! t = column_labels Mx lt M t (n_states e' ! t) (n_history e' ! (t - 1))"
      and w: "n_winner e' ! t = FindWinner Mx (n_history e' ! t)"
      unfolding naive_ok_iff by blast+
    from w have "is_winner Mx (n_history e' ! t) (n_winner e' ! t)"
      by (simp add: FindWinner_is_winner)
    moreover have r: "n_history e' ! t = InitLabels Mx M (n_states e' ! t) True"
      if "0 < t" "list_all (\<lambda>l. costsofar l = kInvalidCost Mx)
                       (relaxed_labels Mx lt M (n_states e' ! t) (n_history e' ! (t - 1)))"
      using that h by (simp add: column_labels_def FindWinner_None_iff)
    moreover have "(n_winner e' ! t = None) =
                list_all (\<lambda>s. EmissionCost M s = kInvalidCost Mx) (n_states e' ! t)"
      if "0 < t" "list_all (\<lambda>l. costsofar l = kInvalidCost Mx)
                       (relaxed_labels Mx lt M (n_states e' ! t) (n_history e' ! (t - 1)))"
    proof -
      have "(FindWinner Mx (InitLabels Mx M (n_states e' ! t) True) = None) =
              list_all (\<lambda>s. EmissionCost M s = kInvalidCost Mx) (n_states e' ! t)"
        by (simp add: FindWinner_None_iff InitLabels_def list_all_iff)
      with w r [OF that] show ?thesis by simp
    qed
    ultimately show ?thesis
      using w InitLabels_emission [of M Mx "n_states e' ! t"] by auto
  qed
  from sw ok' tgt cols
  show "\<exists>w e'. NaiveViterbiSearch_SearchWinner Mx lt M target e = Inr (w, e') \<and>
        naive_ok Mx lt M e' \<and>
        (target < length (n_states e) \<longrightarrow>
           target < length (n_winner e') \<and> w = id_of (n_winner e' ! target)) \<and>
        (\<forall>t < length (n_winner e').
           n_winner e' ! t = FindWinner Mx (n_history e' ! t) \<and>
           is_winner Mx (n_history e' ! t) (n_winner e' ! t) \<and>
           (0 < t \<and> list_all (\<lambda>l. costsofar l = kInvalidCost Mx)
                       (relaxed_labels Mx lt M (n_states e' ! t) (n_history e' ! (t - 1))) \<longrightarrow>
              n_history e' ! t = InitLabels Mx M (n_states e' ! t) True \<and>
              list_all (\<lambda>l. predecessor l = None \<and> costsofar l = EmissionCost M (state l))
                (n_history e' ! t) \<and>
              (n_winner e' ! t = None) =
                list_all (\<lambda>s. EmissionCost M s = kInvalidCost Mx) (n_states e' ! t)))"
    by blast
qed


text \<open>The breakage scenario for the NAIVE engine: the missing edge has the cost \<open>+\<infinity>\<close>.\<close>

definition naive_breakage_model :: CostModel where
  "naive_breakage_model =
     \<lparr>EmissionCost = (\<lambda>s. Fin 0),
      TransitionCost = (\<lambda>l r. if state_id l = 1 \<and> state_id r = 2 then Fin 1 else PInf),
      CostSofar = (\<lambda>p t e. cost_add (cost_add p t) e)\<rparr>"

definition naive_breakage_2 :: NaiveViterbiSearch where
  "naive_breakage_2 =
     \<lparr>n_states = line_columns, n_state = concat line_columns,
      n_winner = [Some (mk_state 0 0), Some (mk_state 1 1), Some (mk_state 2 2)],
      n_history = [[line_label 0 0 None], [line_label 0 1 None],
                   [line_label 1 2 (Some (mk_state 1 1))]]\<rparr>"

lemma naive_breakage_search:
  "NaiveViterbiSearch_SearchWinner False sortcost_less naive_breakage_model 2
     (naive_fresh line_columns) = Inr (2, naive_breakage_2)"
  by (simp add: naive_defs naive_breakage_model_def naive_breakage_2_def)

theorem C4_naive_winner_witness:
  "naive_ok False sortcost_less naive_breakage_model (naive_fresh line_columns) \<and>
   NaiveViterbiSearch_SearchWinner False sortcost_less naive_breakage_model 2
     (naive_fresh line_columns) = Inr (2, naive_breakage_2) \<and>
   naive_ok False sortcost_less naive_breakage_model naive_breakage_2 \<and>
   list_all (\<lambda>l. costsofar l = kInvalidCost False)
     (relaxed_labels False sortcost_less naive_breakage_model (n_states naive_breakage_2 ! 1)
        (n_history naive_breakage_2 ! 0)) \<and>
   n_history naive_breakage_2 ! 1
     = InitLabels False naive_breakage_model (n_states naive_breakage_2 ! 1) True \<and>
   n_history naive_breakage_2 ! 1 = [line_label 0 1 None] \<and>
   n_winner naive_breakage_2 ! 1 = Some (mk_state 1 1) \<and>
   is_winner False (n_history naive_breakage_2 ! 1) (n_winner naive_breakage_2 ! 1) \<and>
   is_winner False (n_history naive_breakage_2 ! 2) (n_winner naive_breakage_2 ! 2)"
proof -
  have ok: "naive_ok False sortcost_less naive_breakage_model (naive_fresh line_columns)"
    by (rule naive_ok_fresh)
  have inv: "list_all (\<lambda>l. costsofar l = kInvalidCost False)
     (relaxed_labels False sortcost_less naive_breakage_model (n_states naive_breakage_2 ! 1)
        (n_history naive_breakage_2 ! 0))"
    by (simp add: relaxed_labels_def naive_defs naive_breakage_model_def naive_breakage_2_def)
  have vals: "n_history naive_breakage_2 ! 1 = [line_label 0 1 None]"
    "n_winner naive_breakage_2 ! 1 = Some (mk_state 1 1)"
    "(1::nat) < length (n_winner naive_breakage_2)" "(2::nat) < length (n_winner naive_breakage_2)"
    by (simp_all add: naive_breakage_2_def)
  from C4_naive_winner [of False sortcost_less naive_breakage_model "naive_fresh line_columns" 2]
    ok naive_breakage_search
  have ok2: "naive_ok False sortcost_less naive_breakage_model naive_breakage_2"
    and all: "\<forall>t < length (n_winner naive_breakage_2).
           n_winner naive_breakage_2 ! t = FindWinner False (n_history naive_breakage_2 ! t) \<and>
           is_winner False (n_history naive_breakage_2 ! t) (n_winner naive_breakage_2 ! t) \<and>
           (0 < t \<and> list_all (\<lambda>l. costsofar l = kInvalidCost False)
                       (relaxed_labels False sortcost_less naive_breakage_model
                          (n_states naive_breakage_2 ! t) (n_history naive_breakage_2 ! (t - 1))) \<longrightarrow>
              n_history naive_breakage_2 ! t
                = InitLabels False naive_breakage_model (n_states naive_breakage_2 ! t) True \<and>
              list_all (\<lambda>l. predecessor l = None \<and>
                            costsofar l = EmissionCost naive_breakage_model (state l))
                (n_history naive_breakage_2 ! t) \<and>
              (n_winner naive_breakage_2 ! t = None) =
                list_all (\<lambda>s. EmissionCost naive_breakage_model s = kInvalidCost False)
                  (n_states naive_breakage_2 ! t))"
    by auto
  from all vals(3) inv have
    "n_history naive_breakage_2 ! 1
       = InitLabels False naive_breakage_model (n_states naive_breakage_2 ! 1) True"
    "is_winner False (n_history naive_breakage_2 ! 1) (n_winner naive_breakage_2 ! 1)"
    by (metis diff_self_eq_0 zero_less_one)+
  moreover from all vals(4) have
    "is_winner False (n_history naive_breakage_2 ! 2) (n_winner naive_breakage_2 ! 2)"
    by blast
  ultimately show ?thesis
    using ok ok2 naive_breakage_search inv vals(1,2) by simp
qed

text \<open>
  A column of time 1 whose only state has the sentinel as its emission cost: the restart
  from the emission costs finds no winner either.
\<close>

definition dead_end_model :: CostModel where
  "dead_end_model =
     \<lparr>EmissionCost = (\<lambda>s. if state_id s = 1 then PInf else Fin 0),
      TransitionCost = (\<lambda>l r. Fin 1),
      CostSofar = (\<lambda>p t e. cost_add (cost_add p t) e)\<rparr>"

definition naive_dead_end_1 :: NaiveViterbiSearch where
  "naive_dead_end_1 =
     \<lparr>n_states = line_columns, n_state = concat line_columns,
      n_winner = [Some (mk_state 0 0), None],
      n_history = [[line_label 0 0 None],
                   [\<lparr>costsofar = PInf, state = mk_state 1 1, predecessor = None\<rparr>]]\<rparr>"

text \<open>
  The claim as stated fails where the emission cost of every state of the column is the
  invalid sentinel: the column of time 1 has no valid label after the relaxation, its
  labels are re-initialized from the emission costs, and \<open>SearchWinner(1)\<close> returns the
  absent id, not the state of a label; the winner of time 1 is absent.
\<close>

theorem C4_counterexample:
  "list_all (\<lambda>l. costsofar l = kInvalidCost False)
     (relaxed_labels False sortcost_less dead_end_model (line_columns ! 1) [line_label 0 0 None]) \<and>
   NaiveViterbiSearch_SearchWinner False sortcost_less dead_end_model 1 (naive_fresh line_columns)
     = Inr (kInvalidStateId, naive_dead_end_1) \<and>
   n_history naive_dead_end_1 ! 1 = InitLabels False dead_end_model (line_columns ! 1) True \<and>
   n_winner naive_dead_end_1 ! 1 = None"
  by (simp add: relaxed_labels_def naive_defs dead_end_model_def naive_dead_end_1_def)

section \<open>Settling a state twice\<close>

text \<open>
  The precondition of the LAZY engine on the cost model: accumulating valid costs never
  gives less than the previous cost, and \<open>CostSofar\<close> is monotone in the previous cost.
\<close>

definition monotone_costs :: "CostModel \<Rightarrow> bool" where
  "monotone_costs M =
     (\<forall>x t e. \<not> IsInvalidCost x \<and> \<not> IsInvalidCost t \<and> \<not> IsInvalidCost e \<longrightarrow>
        x \<le> CostSofar M x t e \<and>
        (\<forall>y. x \<le> y \<longrightarrow> CostSofar M x t e \<le> CostSofar M y t e))"

text \<open>
  Two states in each of the first two columns: \<open>p, q\<close> (ids 0, 1), then \<open>r, s\<close>
  (ids 2, 3), then \<open>u\<close> (id 4). All emissions are 0; an edge into \<open>s\<close> costs 5, every
  other edge costs 1.
\<close>

definition dup_model :: CostModel where
  "dup_model =
     \<lparr>EmissionCost = (\<lambda>s. Fin 0),
      TransitionCost = (\<lambda>l r. if state_id r = 3 then Fin 5 else Fin 1),
      CostSofar = (\<lambda>p t e. cost_add (cost_add p t) e)\<rparr>"

definition dup_trellis :: ViterbiSearch where
  "dup_trellis = fresh [[mk_state 0 0, mk_state 1 0], [mk_state 2 1, mk_state 3 1], [mk_state 4 2]]"

lemma cost_add_mono: "x \<le> y \<Longrightarrow> cost_add x z \<le> cost_add y z"
  by (cases x; cases y; cases z) simp_all

lemma cost_add_nonneg: "\<not> z < Fin 0 \<Longrightarrow> x \<le> cost_add x z"
  by (cases x; cases z) simp_all

lemma monotone_costs_additive:
  "CostSofar M = (\<lambda>p t e. cost_add (cost_add p t) e) \<Longrightarrow> monotone_costs M"
  unfolding monotone_costs_def IsInvalidCost_def
  by (auto intro: cost_add_mono order_trans [OF cost_add_nonneg cost_add_nonneg])

lemma dup_search:
  "ViterbiSearch_SearchWinner push_heap dup_model 2 dup_trellis = Inl OptimalityViolated"
  by (simp add: lazy_defs dup_trellis_def dup_model_def push_heap_def)


text \<open>\<^verbatim>\<open>LabelTemplate::id()\<close>: the id of the state of the label.\<close>

definition label_id :: "Label \<Rightarrow> StateId" where
  "label_id l = state_id (state l)"

text \<open>
  A queue discipline that never holds two labels of one state: a push into a queue
  without two labels of one id gives such a queue, and adds no id but the pushed one.
\<close>

definition unique_ids :: "push \<Rightarrow> bool" where
  "unique_ids P =
     (\<forall>l q. distinct (map label_id q) \<longrightarrow>
        distinct (map label_id (P l q)) \<and>
        set (map label_id (P l q)) \<subseteq> insert (label_id l) (set (map label_id q)))"

text \<open>An example of such a discipline: of two labels of one state the cheaper is kept.\<close>

fun push_unique :: push where
  "push_unique l [] = [l]"
| "push_unique l (m # q) =
     (if label_id m = label_id l
      then (if costsofar l < costsofar m then l # q else m # q)
      else m # push_unique l q)"

lemma push_unique_ids:
  "set (map label_id (push_unique l q)) \<subseteq> insert (label_id l) (set (map label_id q))"
  by (induction q) auto

lemma push_unique_distinct:
  "distinct (map label_id q) \<Longrightarrow> distinct (map label_id (push_unique l q))"
proof (induction q)
  case Nil
  then show ?case by simp
next
  case (Cons m q)
  then show ?case
    using push_unique_ids [of l q] by auto
qed

lemma unique_ids_push_unique: "unique_ids push_unique"
  unfolding unique_ids_def using push_unique_ids push_unique_distinct by blast

text \<open>
  No state is settled and still waiting: the ids of the states of the unreached columns are
  distinct and not scanned, and so are the ids of the labels of the queue.
\<close>

definition unsettled_queue :: "ViterbiSearch \<Rightarrow> bool" where
  "unsettled_queue e =
     (distinct (map state_id (concat (unreached_states e))) \<and>
      list_all (\<lambda>s. scanned_labels e (state_id s) = None) (concat (unreached_states e)) \<and>
      distinct (map label_id (queue e)) \<and>
      list_all (\<lambda>l. scanned_labels e (label_id l) = None) (queue e))"

lemma unsettled_queue_fresh:
  "distinct (map state_id (concat columns)) \<Longrightarrow> unsettled_queue (fresh columns)"
  by (simp add: unsettled_queue_def fresh_def list_all_iff)

lemma erase_id_split:
  "erase_id i col = Some col' \<Longrightarrow>
     \<exists>pre s post. col = pre @ s # post \<and> state_id s = i \<and> col' = pre @ post"
proof (induction col arbitrary: col')
  case Nil
  then show ?case by simp
next
  case (Cons a col)
  show ?case
  proof (cases "i = state_id a")
    case True
    with Cons.prems have "a # col = [] @ a # col \<and> state_id a = i \<and> col' = [] @ col"
      by simp
    then show ?thesis by blast
  next
    case False
    with Cons.prems obtain c where c: "erase_id i col = Some c" "col' = a # c"
      by auto
    from Cons.IH [OF c(1)] obtain pre s post where
      "col = pre @ s # post" "state_id s = i" "c = pre @ post" by blast
    with c(2) have "a # col = (a # pre) @ s # post \<and> state_id s = i \<and> col' = (a # pre) @ post"
      by simp
    then show ?thesis by blast
  qed
qed

lemma concat_update:
  "t < length xs \<Longrightarrow> concat (xs[t := c]) = concat (take t xs) @ c @ concat (drop (Suc t) xs)"
  by (simp add: upd_conv_take_nth_drop)

lemma concat_nth:
  "t < length xs \<Longrightarrow> concat xs = concat (take t xs) @ xs ! t @ concat (drop (Suc t) xs)"
  using concat_update [of t xs "xs ! t"] by simp

text \<open>Erasing the settled state from its column keeps the ids distinct and removes its id.\<close>

lemma erase_id_unreached:
  assumes t: "t < length xs" and er: "erase_id i (xs ! t) = Some col'"
    and d: "distinct (map state_id (concat xs))"
  shows "distinct (map state_id (concat (xs[t := col'])))"
    and "i \<notin> set (map state_id (concat (xs[t := col'])))"
    and "set (concat (xs[t := col'])) \<subseteq> set (concat xs)"
proof -
  from erase_id_split [OF er] obtain pre s post where
    c: "xs ! t = pre @ s # post" "state_id s = i" "col' = pre @ post" by blast
  let ?A = "concat (take t xs)" and ?B = "concat (drop (Suc t) xs)"
  from concat_nth [OF t] c(1) have all: "concat xs = ?A @ pre @ s # post @ ?B" by simp
  from concat_update [OF t] c(3) have upd: "concat (xs[t := col']) = ?A @ pre @ post @ ?B"
    by simp
  from d show "distinct (map state_id (concat (xs[t := col'])))"
    unfolding all upd by auto
  from d c(2) show "i \<notin> set (map state_id (concat (xs[t := col'])))"
    unfolding all upd by auto
  show "set (concat (xs[t := col'])) \<subseteq> set (concat xs)"
    unfolding all upd by auto
qed

lemma remove1_label_ids:
  assumes d: "distinct (map label_id q)" and l: "l \<in> set q"
  shows "distinct (map label_id (remove1 l q))"
    and "label_id l \<notin> set (map label_id (remove1 l q))"
proof -
  from split_list_first [OF l] obtain pre post where
    q: "q = pre @ l # post" and n: "l \<notin> set pre" by blast
  then have r: "remove1 l q = pre @ post"
    by (simp add: remove1_append)
  from d have dd: "distinct (map label_id (pre @ l # post))"
    unfolding q .
  from dd show "distinct (map label_id (remove1 l q))"
    unfolding r by auto
  from dd show "label_id l \<notin> set (map label_id (remove1 l q))"
    unfolding r by auto
qed


lemma AddSuccessors_loop_ids:
  assumes "unique_ids P" and "distinct (map label_id q)"
  shows "distinct (map label_id (AddSuccessors_loop P M s c col q)) \<and>
         set (map label_id (AddSuccessors_loop P M s c col q))
           \<subseteq> set (map state_id col) \<union> set (map label_id q)"
  using assms(2)
proof (induction col arbitrary: q)
  case Nil
  then show ?case by simp
next
  case (Cons a col)
  let ?l = "\<lparr>costsofar = CostSofar M c (TransitionCost M s a) (EmissionCost M a),
             state = a, predecessor = Some s\<rparr>"
  let ?valid = "\<not> IsInvalidCost (EmissionCost M a) \<and> \<not> IsInvalidCost (TransitionCost M s a) \<and>
                \<not> IsInvalidCost (CostSofar M c (TransitionCost M s a) (EmissionCost M a))"
  have eq: "AddSuccessors_loop P M s c (a # col) q =
              (if ?valid then AddSuccessors_loop P M s c col (P ?l q)
               else AddSuccessors_loop P M s c col q)"
    by (simp add: Let_def)
  from assms(1) Cons.prems have "distinct (map label_id (P ?l q)) \<and>
    set (map label_id (P ?l q)) \<subseteq> insert (label_id ?l) (set (map label_id q))"
    unfolding unique_ids_def by blast
  moreover have "label_id ?l = state_id a" by (simp add: label_id_def)
  ultimately have p: "distinct (map label_id (P ?l q))"
    "set (map label_id (P ?l q)) \<subseteq> insert (state_id a) (set (map label_id q))"
    by simp_all
  show ?case
  proof (cases ?valid)
    case True
    with eq have "AddSuccessors_loop P M s c (a # col) q = AddSuccessors_loop P M s c col (P ?l q)"
      by simp
    with Cons.IH [OF p(1)] p(2) show ?thesis by (simp only: list.simps set_simps) blast
  next
    case False
    with eq have "AddSuccessors_loop P M s c (a # col) q = AddSuccessors_loop P M s c col q"
      by simp
    with Cons.IH [OF Cons.prems] show ?thesis by (simp only: list.simps set_simps) blast
  qed
qed

lemma InitQueue_loop_ids:
  assumes "unique_ids P" and "distinct (map label_id q)"
  shows "distinct (map label_id (InitQueue_loop P M col q)) \<and>
         set (map label_id (InitQueue_loop P M col q))
           \<subseteq> set (map state_id col) \<union> set (map label_id q)"
  using assms(2)
proof (induction col arbitrary: q)
  case Nil
  then show ?case by simp
next
  case (Cons a col)
  let ?l = "\<lparr>costsofar = EmissionCost M a, state = a, predecessor = None\<rparr>"
  have eq: "InitQueue_loop P M (a # col) q =
              (if IsInvalidCost (EmissionCost M a) then InitQueue_loop P M col q
               else InitQueue_loop P M col (P ?l q))"
    by (simp add: Let_def)
  from assms(1) Cons.prems have "distinct (map label_id (P ?l q)) \<and>
    set (map label_id (P ?l q)) \<subseteq> insert (label_id ?l) (set (map label_id q))"
    unfolding unique_ids_def by blast
  moreover have "label_id ?l = state_id a" by (simp add: label_id_def)
  ultimately have p: "distinct (map label_id (P ?l q))"
    "set (map label_id (P ?l q)) \<subseteq> insert (state_id a) (set (map label_id q))"
    by simp_all
  show ?case
  proof (cases "IsInvalidCost (EmissionCost M a)")
    case False
    with eq have "InitQueue_loop P M (a # col) q = InitQueue_loop P M col (P ?l q)"
      by simp
    with Cons.IH [OF p(1)] p(2) show ?thesis by (simp only: list.simps set_simps) blast
  next
    case True
    with eq have "InitQueue_loop P M (a # col) q = InitQueue_loop P M col q"
      by simp
    with Cons.IH [OF Cons.prems] show ?thesis by (simp only: list.simps set_simps) blast
  qed
qed

lemma IterativeSearch_body_violation:
  "(IterativeSearch_body P M target st label e = Inl OptimalityViolated) =
     (\<not> state_time (state label) < earliest_time e \<and>
      scanned_labels e (state_id (state label)) \<noteq> None)"
proof (cases "state_time (state label) < earliest_time e")
  case True
  then show ?thesis by (simp add: IterativeSearch_body_def Let_def)
next
  case False
  show ?thesis
  proof (cases "scanned_labels e (state_id (state label))")
    case (Some a)
    with False show ?thesis by (simp add: IterativeSearch_body_def Let_def)
  next
    case None
    with False show ?thesis
      by (auto simp: IterativeSearch_body_def Let_def AddSuccessorsToQueue_def
          split: option.splits sum.splits if_splits)
  qed
qed

lemma nth_subset_concat: "t < length xs \<Longrightarrow> set (xs ! t) \<subseteq> set (concat xs)"
  using nth_mem [of t xs] by fastforce

text \<open>A pass of the main loop keeps the queue and the columns free of settled states.\<close>

lemma unsettled_queue_pass:
  assumes K: "unsettled_queue e" and P: "unique_ids P"
    and pop: "q_pop (queue e) = Some (label, q)"
    and body: "IterativeSearch_body P M target st label (e\<lparr>queue := q\<rparr>) = Inr (oc, st1, e1)"
  shows "unsettled_queue e1"
proof -
  let ?i = "state_id (state label)" and ?t = "state_time (state label)"
  from q_pop_mem [OF pop] have mem: "label \<in> set (queue e)" and q: "q = remove1 label (queue e)"
    by simp_all
  from K have dq: "distinct (map label_id (queue e))"
    and uq: "\<forall>l \<in> set (queue e). scanned_labels e (label_id l) = None"
    and du: "distinct (map state_id (concat (unreached_states e)))"
    and uu: "\<forall>s \<in> set (concat (unreached_states e)). scanned_labels e (state_id s) = None"
    by (simp_all add: unsettled_queue_def list_all_iff)
  from remove1_label_ids [OF dq mem] q have dq': "distinct (map label_id q)"
    and nq: "?i \<notin> set (map label_id q)" by (simp_all add: label_id_def)
  from q uq have uq': "\<forall>l \<in> set q. scanned_labels e (label_id l) = None"
    by (auto dest: notin_set_remove1)
  show ?thesis
  proof (cases "oc = Skip")
    case True
    with body IterativeSearch_body_Skip [of P M target st label "e\<lparr>queue := q\<rparr>" st1 e1]
    have "e1 = e\<lparr>queue := q\<rparr>" by simp
    with du uu dq' uq' show ?thesis
      by (simp add: unsettled_queue_def list_all_iff)
  next
    case False
    from IterativeSearch_body_settle [OF body False] obtain column where
      t: "?t < length (unreached_states e)" and
      er: "erase_id ?i (unreached_states e ! ?t) = Some column" and
      sc: "scanned_labels e1 = (scanned_labels e)(?i \<mapsto> label)" and
      un: "unreached_states e1 = (unreached_states e)[?t := column]" and
      qu: "queue e1 = (if oc = Break then q
                 else AddSuccessors_loop P M (state label) (costsofar label)
                        (unreached_states e1 ! (?t + 1)) q)"
      by auto
    note er' = erase_id_unreached [OF t er du]
    have du1: "distinct (map state_id (concat (unreached_states e1)))"
      using er'(1) un by simp
    have uu1: "\<forall>s \<in> set (concat (unreached_states e1)). scanned_labels e1 (state_id s) = None"
    proof
      fix s assume s: "s \<in> set (concat (unreached_states e1))"
      then have s': "s \<in> set (concat ((unreached_states e)[?t := column]))"
        unfolding un .
      with er'(3) have "s \<in> set (concat (unreached_states e))" by blast
      with uu have "scanned_labels e (state_id s) = None" by blast
      moreover from s' er'(2) have "state_id s \<noteq> ?i"
        by (metis image_eqI set_map)
      ultimately show "scanned_labels e1 (state_id s) = None"
        unfolding sc by simp
    qed
    have unq: "scanned_labels e1 (label_id l) = None" if "label_id l \<in> set (map label_id q)" for l
    proof -
      from that nq have "label_id l \<noteq> ?i" by metis
      moreover from that uq' have "scanned_labels e (label_id l) = None" by auto
      ultimately show ?thesis unfolding sc by simp
    qed
    have "distinct (map label_id (queue e1)) \<and>
          (\<forall>l \<in> set (queue e1). scanned_labels e1 (label_id l) = None)"
    proof (cases "oc = Break")
      case True
      with qu have "queue e1 = q" by simp
      with dq' unq show ?thesis by simp
    next
      case nb: False
      let ?col = "unreached_states e1 ! (?t + 1)"
      let ?q1 = "AddSuccessors_loop P M (state label) (costsofar label) ?col q"
      from AddSuccessors_loop_ids [OF P dq', of M "state label" "costsofar label" ?col]
      have d1: "distinct (map label_id ?q1)"
        and s1: "set (map label_id ?q1) \<subseteq> set (map state_id ?col) \<union> set (map label_id q)"
        by simp_all
      have col: "\<forall>s \<in> set ?col. scanned_labels e1 (state_id s) = None"
      proof (cases "?t + 1 < length (unreached_states e1)")
        case True
        from nth_subset_concat [OF True] uu1 show ?thesis by blast
      next
        case False
        with nb body IterativeSearch_body_settle [OF body \<open>oc \<noteq> Skip\<close>] show ?thesis
          by (auto simp: IterativeSearch_body_def Let_def AddSuccessorsToQueue_def
              split: if_splits option.splits sum.splits)
      qed
      have "scanned_labels e1 (label_id l) = None" if "l \<in> set ?q1" for l
      proof -
        from that s1 have "label_id l \<in> set (map state_id ?col) \<union> set (map label_id q)"
          by auto
        then show ?thesis
        proof
          assume "label_id l \<in> set (map state_id ?col)"
          with col show ?thesis by auto
        next
          assume "label_id l \<in> set (map label_id q)"
          then show ?thesis by (rule unq)
        qed
      qed
      with d1 qu nb show ?thesis by simp
    qed
    with du1 uu1 show ?thesis
      by (simp add: unsettled_queue_def list_all_iff)
  qed
qed

lemma unsettled_queue_popped:
  assumes "unsettled_queue e" and "q_pop (queue e) = Some (label, q)"
  shows "IterativeSearch_body P M target st label (e\<lparr>queue := q\<rparr>) \<noteq> Inl OptimalityViolated"
proof -
  from q_pop_mem [OF assms(2)] assms(1)
  have "scanned_labels e (state_id (state label)) = None"
    by (auto simp: unsettled_queue_def list_all_iff label_id_def)
  then show ?thesis
    by (simp add: IterativeSearch_body_violation)
qed

lemma IterativeSearch_loop_unsettled:
  assumes K: "unsettled_queue e" and P: "unique_ids P"
  shows "IterativeSearch_loop P M target st e \<noteq> Inl OptimalityViolated"
    and "IterativeSearch_loop P M target st e = Inr (st', e') \<Longrightarrow> unsettled_queue e'"
proof -
  show "IterativeSearch_loop P M target st e \<noteq> Inl OptimalityViolated"
  proof
    assume a: "IterativeSearch_loop P M target st e = Inl OptimalityViolated"
    have "\<exists>st0 e0 label q. unsettled_queue e0 \<and> q_pop (queue e0) = Some (label, q) \<and>
           IterativeSearch_body P M target st0 label (e0\<lparr>queue := q\<rparr>) = Inl OptimalityViolated"
    proof (rule IterativeSearch_loop_error_rule [OF a, where I = "\<lambda>_ x. unsettled_queue x"])
      show "unsettled_queue e" by (rule K)
    next
      fix s0 e0 label q oc s1 e1
      assume "unsettled_queue e0" "q_pop (queue e0) = Some (label, q)"
        "IterativeSearch_body P M target s0 label (e0\<lparr>queue := q\<rparr>) = Inr (oc, s1, e1)"
      then show "unsettled_queue e1"
        using unsettled_queue_pass P by blast
    qed
    with unsettled_queue_popped show False by blast
  qed
  show "unsettled_queue e'" if b: "IterativeSearch_loop P M target st e = Inr (st', e')"
  proof (rule IterativeSearch_loop_rule [OF b, where I = "\<lambda>_ x. unsettled_queue x"])
    show "unsettled_queue e" by (rule K)
  next
    fix s0 e0 label q oc s1 e1
    assume "unsettled_queue e0" "q_pop (queue e0) = Some (label, q)"
      "IterativeSearch_body P M target s0 label (e0\<lparr>queue := q\<rparr>) = Inr (oc, s1, e1)"
    then show "unsettled_queue e1"
      using unsettled_queue_pass P by blast
  qed
qed

lemma unsettled_queue_push_column:
  assumes K: "unsettled_queue e" and t: "t < length (unreached_states e)"
    and d: "distinct (map label_id q')"
    and s: "set (map label_id q') \<subseteq> set (map state_id (unreached_states e ! t)) \<union> set (map label_id q0)"
    and q0: "q0 = [] \<or> q0 = queue e"
  shows "unsettled_queue (e\<lparr>queue := q'\<rparr>)"
proof -
  from K have uq: "\<forall>l \<in> set (queue e). scanned_labels e (label_id l) = None"
    and uu: "\<forall>s \<in> set (concat (unreached_states e)). scanned_labels e (state_id s) = None"
    by (simp_all add: unsettled_queue_def list_all_iff)
  have "scanned_labels e (label_id l) = None" if "l \<in> set q'" for l
  proof -
    from that s have "label_id l \<in> set (map state_id (unreached_states e ! t)) \<union> set (map label_id q0)"
      by auto
    then show ?thesis
    proof
      assume "label_id l \<in> set (map state_id (unreached_states e ! t))"
      then obtain x where "x \<in> set (unreached_states e ! t)" "label_id l = state_id x" by auto
      with nth_subset_concat [OF t] uu show ?thesis by auto
    next
      assume "label_id l \<in> set (map label_id q0)"
      with q0 uq show ?thesis by auto
    qed
  qed
  with K d show ?thesis
    by (simp add: unsettled_queue_def list_all_iff)
qed

lemma IterativeSearch_source_unsettled:
  assumes K: "unsettled_queue e" and P: "unique_ids P"
    and w: "length (v_winner e) < length (unreached_states e)"
    and src: "IterativeSearch_source P M b e = Inr (source, e1)"
  shows "unsettled_queue e1"
proof (cases "\<not> b \<and> v_winner e \<noteq> [] \<and> last (v_winner e) \<noteq> None")
  case True
  let ?s = "the (v_winner e ! (length (v_winner e) - 1))"
  from True src have "AddSuccessorsToQueue P M ?s e = Inr e1"
    by (auto simp: IterativeSearch_source_def Let_def split: sum.splits)
  from AddSuccessorsToQueue_Inr [OF this] obtain l :: Label where
    t: "state_time ?s + 1 < length (unreached_states e)" and
    e1: "e1 = e\<lparr>queue := AddSuccessors_loop P M ?s (costsofar l)
                          (unreached_states e ! (state_time ?s + 1)) (queue e)\<rparr>"
    by blast
  from K have "distinct (map label_id (queue e))" by (simp add: unsettled_queue_def)
  from AddSuccessors_loop_ids [OF P this] show ?thesis
    unfolding e1 by (intro unsettled_queue_push_column [OF K t, where ?q0.0 = "queue e"]) simp_all
next
  case False
  with src have e1: "e1 = e\<lparr>queue := InitQueue_loop P M (unreached_states e ! length (v_winner e)) []\<rparr>"
    by (auto simp: IterativeSearch_source_def Let_def InitQueue_def)
  from InitQueue_loop_ids [OF P, of "[]"] show ?thesis
    unfolding e1 by (intro unsettled_queue_push_column [OF K w, where ?q0.0 = "[]"]) simp_all
qed

lemma IterativeSearch_source_no_violation:
  "IterativeSearch_source P M b e \<noteq> Inl OptimalityViolated"
  by (auto simp: IterativeSearch_source_def Let_def InitQueue_def AddSuccessorsToQueue_def
      split: sum.splits option.splits if_splits)

lemma pad_winner_unsettled [simp]: "unsettled_queue (pad_winner st e) = unsettled_queue e"
  by (simp add: unsettled_queue_def pad_winner_def)

lemma IterativeSearch_unsettled:
  assumes K: "unsettled_queue e" and P: "unique_ids P"
  shows "IterativeSearch P M target b e \<noteq> Inl OptimalityViolated"
    and "IterativeSearch P M target b e = Inr (st, e') \<Longrightarrow> unsettled_queue e'"
proof -
  have "IterativeSearch P M target b e \<noteq> Inl OptimalityViolated \<and>
        (IterativeSearch P M target b e = Inr (st, e') \<longrightarrow> unsettled_queue e')"
  proof (cases "length (unreached_states e) \<le> target \<or> target < length (v_winner e)")
    case True
    with K show ?thesis by (auto simp: IterativeSearch_def)
  next
    case False
    then have w: "length (v_winner e) < length (unreached_states e)" by simp
    show ?thesis
    proof (cases "IterativeSearch_source P M b e")
      case (Inl x)
      with False IterativeSearch_source_no_violation [of P M b e] show ?thesis
        by (simp add: IterativeSearch_def)
    next
      case (Inr r)
      obtain source e1 where r: "r = (source, e1)" by (cases r)
      from IterativeSearch_source_unsettled [OF K P w Inr [unfolded r]]
      have K1: "unsettled_queue e1" .
      note l = IterativeSearch_loop_unsettled [OF K1 P, of M target source]
      show ?thesis
      proof (cases "IterativeSearch_loop P M target source e1")
        case (Inl x)
        with l(1) False Inr r show ?thesis by (simp add: IterativeSearch_def)
      next
        case lp: (Inr r2)
        obtain st2 e2 where r2: "r2 = (st2, e2)" by (cases r2)
        from l(2) [OF lp [unfolded r2]] False Inr r lp r2 show ?thesis
          by (auto simp: IterativeSearch_def)
      qed
    qed
  qed
  then show "IterativeSearch P M target b e \<noteq> Inl OptimalityViolated"
    and "IterativeSearch P M target b e = Inr (st, e') \<Longrightarrow> unsettled_queue e'"
    by blast+
qed

lemma SearchWinner_loop_unsettled:
  "unsettled_queue e \<Longrightarrow> unique_ids P \<Longrightarrow>
     SearchWinner_loop P M target st e \<noteq> Inl OptimalityViolated \<and>
     (\<forall>e'. SearchWinner_loop P M target st e = Inr e' \<longrightarrow> unsettled_queue e')"
proof (induction P M target st e rule: SearchWinner_loop.induct)
  case (1 P M target searched_time e)
  show ?case
  proof (cases "searched_time < target")
    case False
    with "1.prems" show ?thesis
      by (simp add: SearchWinner_loop.simps [of P M target searched_time e])
  next
    case True
    note it = IterativeSearch_unsettled [OF "1.prems", of M target True]
    show ?thesis
    proof (cases "IterativeSearch P M target True e")
      case (Inl x)
      with it(1) True show ?thesis
        by (simp add: SearchWinner_loop.simps [of P M target searched_time e])
    next
      case (Inr r)
      obtain st1 e1 where r: "r = (st1, e1)" by (cases r)
      from "1.IH" [OF True Inr [unfolded r] refl it(2) [OF Inr [unfolded r]] "1.prems"(2)]
        True Inr r show ?thesis
        by (simp add: SearchWinner_loop.simps [of P M target searched_time e])
    qed
  qed
qed

lemma ViterbiSearch_SearchWinner_unsettled:
  assumes K: "unsettled_queue e" and P: "unique_ids P"
  shows "ViterbiSearch_SearchWinner P M t e \<noteq> Inl OptimalityViolated \<and>
         (\<forall>w e'. ViterbiSearch_SearchWinner P M t e = Inr (w, e') \<longrightarrow> unsettled_queue e')"
proof (cases "t < length (v_winner e) \<or> unreached_states e = []")
  case True
  with K show ?thesis by (auto simp: ViterbiSearch_SearchWinner_def)
next
  case False
  let ?target = "min t (length (unreached_states e) - 1)"
  note it = IterativeSearch_unsettled [OF K P, of M ?target False]
  show ?thesis
  proof (cases "IterativeSearch P M ?target False e")
    case (Inl x)
    with it(1) False show ?thesis
      by (simp add: ViterbiSearch_SearchWinner_def Let_def)
  next
    case (Inr r)
    obtain st1 e1 where r: "r = (st1, e1)" by (cases r)
    from SearchWinner_loop_unsettled [OF it(2) [OF Inr [unfolded r]] P, of M ?target st1]
      False Inr r show ?thesis
      by (auto simp: ViterbiSearch_SearchWinner_def Let_def split: sum.splits)
  qed
qed


definition dup_searched :: ViterbiSearch where
  "dup_searched =
     \<lparr>v_state = [mk_state 0 0, mk_state 1 0, mk_state 2 1, mk_state 3 1, mk_state 4 2],
      v_winner = [Some (mk_state 0 0), Some (mk_state 2 1), Some (mk_state 4 2)],
      unreached_states = [[], [mk_state 3 1], []],
      queue = [\<lparr>costsofar = Fin 5, state = mk_state 3 1, predecessor = Some (mk_state 0 0)\<rparr>],
      scanned_labels =
        [0 \<mapsto> \<lparr>costsofar = Fin 0, state = mk_state 0 0, predecessor = None\<rparr>,
         1 \<mapsto> \<lparr>costsofar = Fin 0, state = mk_state 1 0, predecessor = None\<rparr>,
         2 \<mapsto> \<lparr>costsofar = Fin 1, state = mk_state 2 1, predecessor = Some (mk_state 0 0)\<rparr>,
         4 \<mapsto> \<lparr>costsofar = Fin 2, state = mk_state 4 2, predecessor = Some (mk_state 2 1)\<rparr>],
      earliest_time = 3\<rparr>"

lemma dup_search_unique:
  "ViterbiSearch_SearchWinner push_unique dup_model 2 dup_trellis = Inr (4, dup_searched)"
  by (simp add: lazy_defs dup_trellis_def dup_model_def dup_searched_def label_id_def)

text \<open>
  C8: a popped label whose time is not below the earliest time and whose state id is in
  the scanned map ends the pass, the loop and the call with the error of the violated
  optimality. The queue class \<^verbatim>\<open>SPQueue\<close> is used through its \<^verbatim>\<open>push\<close>, a parameter here;
  the labels offer it their \<^verbatim>\<open>id()\<close>. With a queue that holds at most one label of a state
  id, and distinct state ids in the columns, no call of \<open>SearchWinner\<close> ends with this
  error: the branch is not reached, for every cost model and so for those that satisfy
  the monotonicity precondition.
\<close>

theorem C8_duplicate_settlement:
  "(\<not> state_time (state label) < earliest_time e \<and>
    scanned_labels e (state_id (state label)) \<noteq> None \<longrightarrow>
      IterativeSearch_body P M target st label e = Inl OptimalityViolated) \<and>
   (q_pop (queue e) = Some (label, q) \<and> \<not> state_time (state label) < earliest_time e \<and>
    scanned_labels e (state_id (state label)) \<noteq> None \<longrightarrow>
      IterativeSearch_loop P M target st e = Inl OptimalityViolated) \<and>
   (unique_ids P \<and> unsettled_queue e \<longrightarrow>
      ViterbiSearch_SearchWinner P M t e \<noteq> Inl OptimalityViolated \<and>
      (\<forall>w e'. ViterbiSearch_SearchWinner P M t e = Inr (w, e') \<longrightarrow> unsettled_queue e')) \<and>
   (distinct (map state_id (concat columns)) \<longrightarrow> unsettled_queue (fresh columns))"
proof (intro conjI impI)
  assume "\<not> state_time (state label) < earliest_time e \<and>
    scanned_labels e (state_id (state label)) \<noteq> None"
  then show "IterativeSearch_body P M target st label e = Inl OptimalityViolated"
    by (simp add: IterativeSearch_body_violation)
next
  assume a: "q_pop (queue e) = Some (label, q) \<and> \<not> state_time (state label) < earliest_time e \<and>
    scanned_labels e (state_id (state label)) \<noteq> None"
  then have "IterativeSearch_body P M target st label (e\<lparr>queue := q\<rparr>) = Inl OptimalityViolated"
    by (simp add: IterativeSearch_body_violation)
  with a show "IterativeSearch_loop P M target st e = Inl OptimalityViolated"
    by (simp add: IterativeSearch_loop.simps [of P M target st e])
next
  assume a: "unique_ids P \<and> unsettled_queue e"
  with ViterbiSearch_SearchWinner_unsettled [of e P M t]
  show "ViterbiSearch_SearchWinner P M t e \<noteq> Inl OptimalityViolated"
    and "\<forall>w e'. ViterbiSearch_SearchWinner P M t e = Inr (w, e') \<longrightarrow> unsettled_queue e'"
    by blast+
next
  assume "distinct (map state_id (concat columns))"
  then show "unsettled_queue (fresh columns)"
    by (rule unsettled_queue_fresh)
qed

theorem C8_duplicate_settlement_witness:
  "\<not> state_time (state (line_label 0 1 None)) < earliest_time (breakage_mid\<lparr>earliest_time := 0\<rparr>) \<and>
   scanned_labels (breakage_mid\<lparr>earliest_time := 0\<rparr>) (state_id (state (line_label 0 1 None))) \<noteq> None \<and>
   IterativeSearch_body push_heap breakage_model 2 1 (line_label 0 1 None)
       (breakage_mid\<lparr>earliest_time := 0\<rparr>) = Inl OptimalityViolated \<and>
   q_pop (queue (breakage_mid\<lparr>earliest_time := 0, queue := [line_label 0 1 None]\<rparr>))
     = Some (line_label 0 1 None, []) \<and>
   IterativeSearch_loop push_heap breakage_model 2 1
       (breakage_mid\<lparr>earliest_time := 0, queue := [line_label 0 1 None]\<rparr>) = Inl OptimalityViolated \<and>
   unique_ids push_unique \<and> monotone_costs dup_model \<and>
   distinct (map state_id (concat [[mk_state 0 0, mk_state 1 0], [mk_state 2 1, mk_state 3 1],
                                   [mk_state 4 2]])) \<and>
   unsettled_queue dup_trellis \<and>
   ViterbiSearch_SearchWinner push_unique dup_model 2 dup_trellis = Inr (4, dup_searched) \<and>
   unsettled_queue dup_searched"
proof -
  let ?l = "line_label 0 1 None"
  let ?e = "breakage_mid\<lparr>earliest_time := 0\<rparr>"
  let ?e' = "breakage_mid\<lparr>earliest_time := 0, queue := [?l]\<rparr>"
  let ?cols = "[[mk_state 0 0, mk_state 1 0], [mk_state 2 1, mk_state 3 1], [mk_state 4 2]]"
  have h1: "\<not> state_time (state ?l) < earliest_time ?e"
    "scanned_labels ?e (state_id (state ?l)) \<noteq> None"
    "\<not> state_time (state ?l) < earliest_time ?e'"
    "scanned_labels ?e' (state_id (state ?l)) \<noteq> None"
    by (simp_all add: line_label_def mk_state_def breakage_mid_def)
  have pop: "q_pop (queue ?e') = Some (?l, [])"
    by (simp add: q_pop_def)
  have d: "distinct (map state_id (concat ?cols))"
    by (simp add: mk_state_def)
  from C8_duplicate_settlement [where label = ?l and e = ?e and P = push_heap
      and M = breakage_model and target = 2 and st = 1] h1(1,2)
  have b: "IterativeSearch_body push_heap breakage_model 2 1 ?l ?e = Inl OptimalityViolated"
    by blast
  from C8_duplicate_settlement [where label = ?l and e = ?e' and q = "[]" and P = push_heap
      and M = breakage_model and target = 2 and st = 1] h1(3,4) pop
  have l: "IterativeSearch_loop push_heap breakage_model 2 1 ?e' = Inl OptimalityViolated"
    by blast
  from C8_duplicate_settlement [where columns = ?cols] d
  have k: "unsettled_queue dup_trellis"
    unfolding dup_trellis_def by blast
  from C8_duplicate_settlement [where e = dup_trellis and P = push_unique and M = dup_model
      and t = 2] unique_ids_push_unique k dup_search_unique
  have k': "unsettled_queue dup_searched"
    by blast
  have m: "monotone_costs dup_model"
    by (rule monotone_costs_additive) (simp add: dup_model_def)
  from h1(1,2) b pop l unique_ids_push_unique m d k dup_search_unique k' show ?thesis
    by simp
qed

text \<open>
  The queue discipline cannot be dropped: with a heap that keeps every label pushed, the
  state \<open>r\<close> of \<open>dup_model\<close>, queued by \<open>p\<close> and by \<open>q\<close>, is popped a second time after it
  is settled, although all costs are valid and their accumulation is monotone.
\<close>

lemma keeping_heap_settles_twice:
  "monotone_costs dup_model \<and>
   ViterbiSearch_SearchWinner push_heap dup_model 2 dup_trellis = Inl OptimalityViolated"
proof -
  have "monotone_costs dup_model"
    by (rule monotone_costs_additive) (simp add: dup_model_def)
  then show ?thesis
    using dup_search by simp
qed

section \<open>The states of a LAZY engine and their times\<close>

text \<open>\<open>tabled tab s\<close>: the state \<open>s\<close> is the state that the table \<^verbatim>\<open>state_\<close> holds for its id.\<close>

definition tabled :: "State list \<Rightarrow> State \<Rightarrow> bool" where
  "tabled tab s = (state_id s < length tab \<and> tab ! state_id s = s)"

definition label_wf :: "State list \<Rightarrow> Label \<Rightarrow> bool" where
  "label_wf tab l =
     (tabled tab (state l) \<and>
      (case predecessor l of
         None \<Rightarrow> True
       | Some p \<Rightarrow> tabled tab p \<and> state_time p + 1 = state_time (state l)))"

text \<open>
  The trellis as the host builds it, and what the engine derives from it: every state of
  column \<open>t\<close> has the time \<open>t\<close> and is in the table under its id; the labels of the queue and
  of the scanned map join states of the table at consecutive times; a scanned label is
  stored under the id of its state; a winner of time \<open>t\<close> has the time \<open>t\<close>.
\<close>

definition lazy_wf :: "ViterbiSearch \<Rightarrow> bool" where
  "lazy_wf e =
     ((\<forall>t < length (unreached_states e). \<forall>s \<in> set (unreached_states e ! t).
         state_time s = t \<and> tabled (v_state e) s) \<and>
      (\<forall>l \<in> set (queue e). label_wf (v_state e) l) \<and>
      (\<forall>i l. scanned_labels e i = Some l \<longrightarrow> state_id (state l) = i \<and> label_wf (v_state e) l) \<and>
      (\<forall>t < length (v_winner e). \<forall>s. v_winner e ! t = Some s \<longrightarrow>
         state_time s = t \<and> tabled (v_state e) s))"

lemma lazy_wf_column:
  "lazy_wf e \<Longrightarrow> t < length (unreached_states e) \<Longrightarrow> s \<in> set (unreached_states e ! t) \<Longrightarrow>
     state_time s = t \<and> tabled (v_state e) s"
  unfolding lazy_wf_def by blast

lemma lazy_wf_queue: "lazy_wf e \<Longrightarrow> l \<in> set (queue e) \<Longrightarrow> label_wf (v_state e) l"
  unfolding lazy_wf_def by blast

lemma lazy_wf_scanned:
  "lazy_wf e \<Longrightarrow> scanned_labels e i = Some l \<Longrightarrow> state_id (state l) = i \<and> label_wf (v_state e) l"
  unfolding lazy_wf_def by blast

lemma lazy_wf_winner:
  "lazy_wf e \<Longrightarrow> t < length (v_winner e) \<Longrightarrow> v_winner e ! t = Some s \<Longrightarrow>
     state_time s = t \<and> tabled (v_state e) s"
  unfolding lazy_wf_def by blast

lemma lazy_wfI:
  assumes "\<And>t s. t < length (unreached_states e) \<Longrightarrow> s \<in> set (unreached_states e ! t) \<Longrightarrow>
             state_time s = t \<and> tabled (v_state e) s"
    and "\<And>l. l \<in> set (queue e) \<Longrightarrow> label_wf (v_state e) l"
    and "\<And>i l. scanned_labels e i = Some l \<Longrightarrow> state_id (state l) = i \<and> label_wf (v_state e) l"
    and "\<And>t s. t < length (v_winner e) \<Longrightarrow> v_winner e ! t = Some s \<Longrightarrow>
             state_time s = t \<and> tabled (v_state e) s"
  shows "lazy_wf e"
  unfolding lazy_wf_def using assms by blast

text \<open>A push that stores no label other than the pushed one.\<close>

definition push_sound :: "push \<Rightarrow> bool" where
  "push_sound P = (\<forall>l q. set (P l q) \<subseteq> insert l (set q))"


lemma push_sound_unique: "push_sound push_unique"
proof -
  have "set (push_unique l q) \<subseteq> insert l (set q)" for l q
    by (induction q) auto
  then show ?thesis by (simp add: push_sound_def)
qed

lemma AddSuccessors_loop_set:
  assumes "push_sound P" and "l \<in> set (AddSuccessors_loop P M s c col q)"
  shows "l \<in> set q \<or> (state l \<in> set col \<and> predecessor l = Some s)"
  using assms(2)
proof (induction col arbitrary: q)
  case Nil
  then show ?case by simp
next
  case (Cons a col)
  let ?l = "\<lparr>costsofar = CostSofar M c (TransitionCost M s a) (EmissionCost M a),
             state = a, predecessor = Some s\<rparr>"
  let ?valid = "\<not> IsInvalidCost (EmissionCost M a) \<and> \<not> IsInvalidCost (TransitionCost M s a) \<and>
                \<not> IsInvalidCost (CostSofar M c (TransitionCost M s a) (EmissionCost M a))"
  have eq: "AddSuccessors_loop P M s c (a # col) q =
              (if ?valid then AddSuccessors_loop P M s c col (P ?l q)
               else AddSuccessors_loop P M s c col q)"
    by (simp add: Let_def)
  show ?case
  proof (cases ?valid)
    case True
    with eq Cons.prems have "l \<in> set (AddSuccessors_loop P M s c col (P ?l q))" by simp
    from Cons.IH [OF this] have "l \<in> set (P ?l q) \<or> (state l \<in> set col \<and> predecessor l = Some s)" .
    moreover from assms(1) have "set (P ?l q) \<subseteq> insert ?l (set q)"
      by (simp add: push_sound_def)
    ultimately show ?thesis by auto
  next
    case False
    with eq Cons.prems have "l \<in> set (AddSuccessors_loop P M s c col q)" by simp
    from Cons.IH [OF this] show ?thesis by auto
  qed
qed

lemma InitQueue_loop_set:
  assumes "push_sound P" and "l \<in> set (InitQueue_loop P M col q)"
  shows "l \<in> set q \<or> (state l \<in> set col \<and> predecessor l = None)"
  using assms(2)
proof (induction col arbitrary: q)
  case Nil
  then show ?case by simp
next
  case (Cons a col)
  let ?l = "\<lparr>costsofar = EmissionCost M a, state = a, predecessor = None\<rparr>"
  have eq: "InitQueue_loop P M (a # col) q =
              (if IsInvalidCost (EmissionCost M a) then InitQueue_loop P M col q
               else InitQueue_loop P M col (P ?l q))"
    by (simp add: Let_def)
  show ?case
  proof (cases "IsInvalidCost (EmissionCost M a)")
    case False
    with eq Cons.prems have "l \<in> set (InitQueue_loop P M col (P ?l q))" by simp
    from Cons.IH [OF this] have "l \<in> set (P ?l q) \<or> (state l \<in> set col \<and> predecessor l = None)" .
    moreover from assms(1) have "set (P ?l q) \<subseteq> insert ?l (set q)"
      by (simp add: push_sound_def)
    ultimately show ?thesis by auto
  next
    case True
    with eq Cons.prems have "l \<in> set (InitQueue_loop P M col q)" by simp
    from Cons.IH [OF this] show ?thesis by auto
  qed
qed

lemma erase_id_subset: "erase_id i col = Some col' \<Longrightarrow> set col' \<subseteq> set col"
  by (auto dest!: erase_id_split)


text \<open>Queueing the successors of a state of time \<open>t\<close>, or the states of a column.\<close>

lemma lazy_wf_successors:
  assumes wf: "lazy_wf e" and P: "push_sound P"
    and s: "tabled (v_state e) s" and t: "state_time s + 1 < length (unreached_states e)"
  shows "lazy_wf (e\<lparr>queue := AddSuccessors_loop P M s c
                              (unreached_states e ! (state_time s + 1)) (queue e)\<rparr>)"
proof (rule lazy_wfI)
  fix l
  assume "l \<in> set (queue (e\<lparr>queue := AddSuccessors_loop P M s c
                              (unreached_states e ! (state_time s + 1)) (queue e)\<rparr>))"
  then have "l \<in> set (AddSuccessors_loop P M s c (unreached_states e ! (state_time s + 1)) (queue e))"
    by simp
  from AddSuccessors_loop_set [OF P this]
  show "label_wf (v_state (e\<lparr>queue := AddSuccessors_loop P M s c
                              (unreached_states e ! (state_time s + 1)) (queue e)\<rparr>)) l"
  proof
    assume "l \<in> set (queue e)"
    with lazy_wf_queue [OF wf] show ?thesis by simp
  next
    assume a: "state l \<in> set (unreached_states e ! (state_time s + 1)) \<and> predecessor l = Some s"
    with lazy_wf_column [OF wf t] s show ?thesis
      by (simp add: label_wf_def)
  qed
qed (use wf in \<open>auto dest: lazy_wf_column lazy_wf_scanned lazy_wf_winner\<close>)

lemma lazy_wf_InitQueue:
  assumes wf: "lazy_wf e" and P: "push_sound P" and t: "t < length (unreached_states e)"
  shows "lazy_wf (InitQueue P M (unreached_states e ! t) e)"
proof (rule lazy_wfI)
  fix l
  assume "l \<in> set (queue (InitQueue P M (unreached_states e ! t) e))"
  then have "l \<in> set (InitQueue_loop P M (unreached_states e ! t) [])"
    by (simp add: InitQueue_def)
  from InitQueue_loop_set [OF P this] lazy_wf_column [OF wf t]
  show "label_wf (v_state (InitQueue P M (unreached_states e ! t) e)) l"
    by (auto simp: label_wf_def InitQueue_def)
qed (use wf in \<open>auto simp: InitQueue_def dest: lazy_wf_column lazy_wf_scanned lazy_wf_winner\<close>)

text \<open>A pass of the main loop keeps the engine well formed.\<close>

lemma lazy_wf_pass:
  assumes wf: "lazy_wf e" and P: "push_sound P"
    and pop: "q_pop (queue e) = Some (label, q)"
    and body: "IterativeSearch_body P M target st label (e\<lparr>queue := q\<rparr>) = Inr (oc, st1, e1)"
  shows "lazy_wf e1"
proof -
  let ?s = "state label"
  let ?i = "state_id ?s" and ?t = "state_time ?s"
  from q_pop_mem [OF pop] have mem: "label \<in> set (queue e)" and q: "set q \<subseteq> set (queue e)"
    using set_remove1_subset [of label "queue e"] by auto
  from lazy_wf_queue [OF wf mem] have lw: "label_wf (v_state e) label" .
  have wfq: "lazy_wf (e\<lparr>queue := q\<rparr>)"
  proof (rule lazy_wfI)
    fix l assume "l \<in> set (queue (e\<lparr>queue := q\<rparr>))"
    with q lazy_wf_queue [OF wf] show "label_wf (v_state (e\<lparr>queue := q\<rparr>)) l" by auto
  qed (use wf in \<open>auto dest: lazy_wf_column lazy_wf_scanned lazy_wf_winner\<close>)
  show ?thesis
  proof (cases "oc = Skip")
    case True
    with body IterativeSearch_body_Skip [of P M target st label "e\<lparr>queue := q\<rparr>" st1 e1] wfq
    show ?thesis by simp
  next
    case False
    from IterativeSearch_body_settle [OF body False] obtain column where
      t: "?t < length (unreached_states e)" and
      er: "erase_id ?i (unreached_states e ! ?t) = Some column" and
      tw: "?t \<le> length (v_winner e)" and
      vs: "v_state e1 = v_state e" and
      sc: "scanned_labels e1 = (scanned_labels e)(?i \<mapsto> label)" and
      un: "unreached_states e1 = (unreached_states e)[?t := column]" and
      wi: "v_winner e1 = (if length (v_winner e) \<le> ?t then v_winner e @ [Some ?s] else v_winner e)" and
      qu: "queue e1 = (if oc = Break then q
                 else AddSuccessors_loop P M ?s (costsofar label)
                        (unreached_states e1 ! (?t + 1)) q)"
      by auto
    text \<open>The engine before the successors are queued.\<close>
    let ?e4 = "e1\<lparr>queue := q\<rparr>"
    have wf4: "lazy_wf ?e4"
    proof (rule lazy_wfI)
      fix t s assume a: "t < length (unreached_states ?e4)" "s \<in> set (unreached_states ?e4 ! t)"
      then have tl: "t < length (unreached_states e)" by (simp add: un)
      have "s \<in> set (unreached_states e ! t)"
      proof (cases "t = ?t")
        case True
        with a un tl erase_id_subset [OF er] show ?thesis by auto
      next
        case False
        with a un show ?thesis by simp
      qed
      with lazy_wf_column [OF wf tl] vs show "state_time s = t \<and> tabled (v_state ?e4) s"
        by simp
    next
      fix l assume "l \<in> set (queue ?e4)"
      with q lazy_wf_queue [OF wf] vs show "label_wf (v_state ?e4) l" by auto
    next
      fix i l assume "scanned_labels ?e4 i = Some l"
      then have "(i = ?i \<and> l = label) \<or> scanned_labels e i = Some l"
        by (auto simp: sc split: if_splits)
      with lw lazy_wf_scanned [OF wf] vs
      show "state_id (state l) = i \<and> label_wf (v_state ?e4) l" by auto
    next
      fix t s assume a: "t < length (v_winner ?e4)" "v_winner ?e4 ! t = Some s"
      show "state_time s = t \<and> tabled (v_state ?e4) s"
      proof (cases "t < length (v_winner e)")
        case True
        with a wi have "v_winner e ! t = Some s" by (auto simp: nth_append split: if_splits)
        with lazy_wf_winner [OF wf True] vs show ?thesis by simp
      next
        case False
        with a wi tw have "t = ?t" "s = ?s"
          by (auto simp: nth_append split: if_splits)
        with lw vs show ?thesis by (simp add: label_wf_def)
      qed
    qed
    show ?thesis
    proof (cases "oc = Break")
      case True
      with qu have "e1 = ?e4" by simp
      with wf4 show ?thesis by simp
    next
      case nb: False
      with body False have t1: "?t + 1 < length (unreached_states e1)"
        using IterativeSearch_body_settle [OF body False]
        by (auto simp: IterativeSearch_body_def Let_def AddSuccessorsToQueue_def
            split: if_splits option.splits sum.splits)
      from lw vs have tb: "tabled (v_state ?e4) ?s" by (simp add: label_wf_def)
      from t1 have t4: "state_time ?s + 1 < length (unreached_states ?e4)" by simp
      from qu nb have "e1 = ?e4\<lparr>queue := AddSuccessors_loop P M ?s (costsofar label)
                        (unreached_states ?e4 ! (state_time ?s + 1)) (queue ?e4)\<rparr>"
        by (cases e1) auto
      with lazy_wf_successors [OF wf4 P tb t4, of M "costsofar label"]
      show ?thesis by simp
    qed
  qed
qed



lemma IterativeSearch_source_wf:
  assumes wf: "lazy_wf e" and P: "push_sound P"
    and w: "length (v_winner e) < length (unreached_states e)"
    and src: "IterativeSearch_source P M b e = Inr (source, e1)"
  shows "lazy_wf e1"
proof (cases "\<not> b \<and> v_winner e \<noteq> [] \<and> last (v_winner e) \<noteq> None")
  case True
  let ?n = "length (v_winner e) - 1"
  let ?s = "the (v_winner e ! ?n)"
  from True have n: "?n < length (v_winner e)" by simp
  from True have "last (v_winner e) = v_winner e ! ?n"
    by (intro last_conv_nth) simp
  with True have "v_winner e ! ?n = Some ?s" by auto
  from lazy_wf_winner [OF wf n this] have tb: "tabled (v_state e) ?s" by simp
  from True src have "AddSuccessorsToQueue P M ?s e = Inr e1"
    by (auto simp: IterativeSearch_source_def Let_def split: sum.splits)
  from AddSuccessorsToQueue_Inr [OF this] obtain l :: Label where
    t: "state_time ?s + 1 < length (unreached_states e)" and
    e1: "e1 = e\<lparr>queue := AddSuccessors_loop P M ?s (costsofar l)
                          (unreached_states e ! (state_time ?s + 1)) (queue e)\<rparr>"
    by blast
  from lazy_wf_successors [OF wf P tb t] show ?thesis unfolding e1 .
next
  case False
  with src have "e1 = InitQueue P M (unreached_states e ! length (v_winner e)) e"
    by (auto simp: IterativeSearch_source_def Let_def)
  with lazy_wf_InitQueue [OF wf P w] show ?thesis by simp
qed

lemma lazy_wf_pad_winner: "lazy_wf e \<Longrightarrow> lazy_wf (pad_winner st e)"
proof (rule lazy_wfI)
  fix t s
  assume wf: "lazy_wf e" and a: "t < length (v_winner (pad_winner st e))"
    "v_winner (pad_winner st e) ! t = Some s"
  then have "t < length (v_winner e) \<and> v_winner e ! t = Some s"
    by (cases "t < length (v_winner e)") (auto simp: pad_winner_def nth_append)
  with lazy_wf_winner [OF wf] have "state_time s = t \<and> tabled (v_state e) s"
    by blast
  then show "state_time s = t \<and> tabled (v_state (pad_winner st e)) s"
    by (simp add: pad_winner_def)
qed (auto simp: pad_winner_def dest: lazy_wf_column lazy_wf_scanned lazy_wf_queue)




lemma lazy_wf_fresh:
  assumes "\<And>t s. t < length columns \<Longrightarrow> s \<in> set (columns ! t) \<Longrightarrow>
             state_time s = t \<and> tabled (concat columns) s"
  shows "lazy_wf (fresh columns)"
  by (rule lazy_wfI) (use assms in \<open>auto simp: fresh_def\<close>)


section \<open>The states of a NAIVE engine and their times\<close>














section \<open>The path iterator\<close>


lemma tabled_state_of_naive:
  "tabled (n_state e) s \<Longrightarrow> NaiveViterbiSearch_state e (state_id s) = Inr s"
  by (simp add: tabled_def NaiveViterbiSearch_state_def)















section \<open>The costs of the settled states\<close>

text \<open>
  The paths of the trellis: \<open>reach cols M s x c\<close> says that a path through consecutive
  columns leads from a state of column \<open>s\<close> to the state \<open>x\<close>, that the emission costs
  of its states and the transition costs of its edges are valid, and that \<open>c\<close> is the cost
  accumulated along it, from the emission cost of its first state on.
\<close>

inductive reach :: "State list list \<Rightarrow> CostModel \<Rightarrow> Time \<Rightarrow> State \<Rightarrow> cost \<Rightarrow> bool"
  for cols :: "State list list" and M :: CostModel and s :: Time where
  seed: "s < length cols \<Longrightarrow> x \<in> set (cols ! s) \<Longrightarrow> \<not> IsInvalidCost (EmissionCost M x) \<Longrightarrow>
           reach cols M s x (EmissionCost M x)"
| step: "reach cols M s y c \<Longrightarrow> state_time y + 1 < length cols \<Longrightarrow>
           x \<in> set (cols ! (state_time y + 1)) \<Longrightarrow>
           \<not> IsInvalidCost (EmissionCost M x) \<Longrightarrow> \<not> IsInvalidCost (TransitionCost M y x) \<Longrightarrow>
           reach cols M s x (CostSofar M c (TransitionCost M y x) (EmissionCost M x))"

code_pred reach .

text \<open>\<open>c\<close> is the least cost of a path from column \<open>s\<close> to \<open>x\<close>.\<close>

definition least_cost :: "State list list \<Rightarrow> CostModel \<Rightarrow> Time \<Rightarrow> State \<Rightarrow> cost \<Rightarrow> bool" where
  "least_cost cols M s x c = (reach cols M s x c \<and> (\<forall>c'. reach cols M s x c' \<longrightarrow> c \<le> c'))"

text \<open>The columns as the host builds them: a state of column \<open>t\<close> has the time \<open>t\<close> and is
  in the table under its id.\<close>

definition trellis :: "State list list \<Rightarrow> bool" where
  "trellis cols =
     (\<forall>t < length cols. \<forall>x \<in> set (cols ! t). state_time x = t \<and> tabled (concat cols) x)"

lemma trellisD:
  "trellis cols \<Longrightarrow> t < length cols \<Longrightarrow> x \<in> set (cols ! t) \<Longrightarrow>
     state_time x = t \<and> tabled (concat cols) x"
  unfolding trellis_def by blast

lemma tabled_unique: "tabled tab x \<Longrightarrow> tabled tab y \<Longrightarrow> state_id x = state_id y \<Longrightarrow> x = y"
  by (simp add: tabled_def)

lemma reach_column:
  assumes "trellis cols" and "reach cols M s x c"
  shows "s \<le> state_time x \<and> state_time x < length cols \<and> x \<in> set (cols ! state_time x)"
  using assms(2)
proof (induction rule: reach.induct)
  case (seed x)
  with trellisD [OF assms(1)] show ?case by blast
next
  case (step y c x)
  with trellisD [OF assms(1)] have "state_time x = state_time y + 1" by blast
  with step show ?case by simp
qed

lemma reach_valid:
  assumes "monotone_costs M" and "reach cols M s x c"
  shows "\<not> IsInvalidCost c"
  using assms(2)
proof (induction rule: reach.induct)
  case (seed x)
  then show ?case by simp
next
  case (step y c x)
  with assms(1) have "c \<le> CostSofar M c (TransitionCost M y x) (EmissionCost M x)"
    unfolding monotone_costs_def by blast
  with step.IH show ?case by (auto simp: IsInvalidCost_def)
qed

text \<open>
  The root of the predecessor chain of a settled label, and its time: the column from
  which the search that settled the label was seeded.
\<close>

fun chain_root :: "(StateId \<rightharpoonup> Label) \<Rightarrow> nat \<Rightarrow> Label \<Rightarrow> State" where
  "chain_root sc 0 l = state l"
| "chain_root sc (Suc k) l =
     (case predecessor l of
        None \<Rightarrow> state l
      | Some p \<Rightarrow> (case sc (state_id p) of None \<Rightarrow> state l | Some lp \<Rightarrow> chain_root sc k lp))"

definition seed_time :: "ViterbiSearch \<Rightarrow> Label \<Rightarrow> Time" where
  "seed_time e l = state_time (chain_root (scanned_labels e) (state_time (state l)) l)"

lemma chain_root_None: "predecessor l = None \<Longrightarrow> chain_root sc k l = state l"
  by (cases k) simp_all

lemma chain_root_extend:
  assumes le: "sc \<subseteq>\<^sub>m sc'"
    and closed: "\<And>i l p. sc i = Some l \<Longrightarrow> predecessor l = Some p \<Longrightarrow> sc (state_id p) \<noteq> None"
  shows "sc i = Some l \<Longrightarrow> chain_root sc' k l = chain_root sc k l"
proof (induction k arbitrary: i l)
  case 0
  show ?case by simp
next
  case (Suc k)
  show ?case
  proof (cases "predecessor l")
    case None
    then show ?thesis by simp
  next
    case (Some p)
    from closed [OF Suc.prems Some] obtain lp where lp: "sc (state_id p) = Some lp" by auto
    with le have "sc' (state_id p) = Some lp"
      by (auto simp: map_le_def dom_def)
    with Some lp Suc.IH [OF lp] show ?thesis by simp
  qed
qed

text \<open>
  What the engine needs of the queue: a push loses no label, unless the queue holds a
  label of the same state that costs no more.
\<close>

definition push_keeps :: "push \<Rightarrow> bool" where
  "push_keeps P =
     (\<forall>l q. \<forall>m \<in> insert l (set q).
        \<exists>m' \<in> set (P l q). label_id m' = label_id m \<and> costsofar m' \<le> costsofar m)"

lemma push_keeps_heap: "push_keeps push_heap"
  by (auto simp: push_keeps_def push_heap_def)

lemma push_unique_keeps:
  "m \<in> insert l (set q) \<Longrightarrow>
     \<exists>m' \<in> set (push_unique l q). label_id m' = label_id m \<and> costsofar m' \<le> costsofar m"
proof (induction q)
  case Nil
  then show ?case by simp
next
  case (Cons a q)
  show ?case
  proof (cases "label_id a = label_id l")
    case True
    with Cons.prems show ?thesis by (cases "costsofar l < costsofar a") auto
  next
    case False
    with Cons show ?thesis by auto
  qed
qed

lemma push_keeps_unique: "push_keeps push_unique"
  unfolding push_keeps_def using push_unique_keeps by blast

lemma push_keepsD:
  "push_keeps P \<Longrightarrow> m \<in> insert l (set q) \<Longrightarrow>
     \<exists>m' \<in> set (P l q). label_id m' = label_id m \<and> costsofar m' \<le> costsofar m"
  unfolding push_keeps_def by blast


text \<open>The labels that the queueing of successors, or of a column, adds and keeps.\<close>

lemma AddSuccessors_loop_new:
  assumes "push_sound P" and "m \<in> set (AddSuccessors_loop P M y c col q)"
  shows "m \<in> set q \<or>
     (state m \<in> set col \<and> predecessor m = Some y \<and>
      costsofar m = CostSofar M c (TransitionCost M y (state m)) (EmissionCost M (state m)) \<and>
      \<not> IsInvalidCost (EmissionCost M (state m)) \<and>
      \<not> IsInvalidCost (TransitionCost M y (state m)))"
  using assms(2)
proof (induction col arbitrary: q)
  case Nil
  then show ?case by simp
next
  case (Cons x col)
  let ?l = "\<lparr>costsofar = CostSofar M c (TransitionCost M y x) (EmissionCost M x),
             state = x, predecessor = Some y\<rparr>"
  show ?case
  proof (cases "IsInvalidCost (EmissionCost M x) \<or> IsInvalidCost (TransitionCost M y x) \<or>
      IsInvalidCost (CostSofar M c (TransitionCost M y x) (EmissionCost M x))")
    case True
    with Cons.prems have "m \<in> set (AddSuccessors_loop P M y c col q)"
      by (auto simp: Let_def split: if_splits)
    from Cons.IH [OF this] show ?thesis by auto
  next
    case False
    with Cons.prems have "m \<in> set (AddSuccessors_loop P M y c col (P ?l q))"
      by (simp add: Let_def)
    from Cons.IH [OF this] show ?thesis
    proof
      assume "m \<in> set (P ?l q)"
      with assms(1) have "m = ?l \<or> m \<in> set q" by (auto simp: push_sound_def)
      with False show ?thesis by auto
    qed auto
  qed
qed

lemma AddSuccessors_loop_keeps:
  assumes "push_keeps P" and "m \<in> set q"
  shows "\<exists>m' \<in> set (AddSuccessors_loop P M y c col q).
           label_id m' = label_id m \<and> costsofar m' \<le> costsofar m"
  using assms(2)
proof (induction col arbitrary: q m)
  case Nil
  then show ?case by auto
next
  case (Cons x col)
  let ?l = "\<lparr>costsofar = CostSofar M c (TransitionCost M y x) (EmissionCost M x),
             state = x, predecessor = Some y\<rparr>"
  show ?case
  proof (cases "IsInvalidCost (EmissionCost M x) \<or> IsInvalidCost (TransitionCost M y x) \<or>
      IsInvalidCost (CostSofar M c (TransitionCost M y x) (EmissionCost M x))")
    case True
    with Cons.IH [OF Cons.prems] show ?thesis by (auto simp: Let_def)
  next
    case False
    from push_keepsD [OF assms(1), of m ?l q] Cons.prems obtain m1 where
      m1: "m1 \<in> set (P ?l q)" "label_id m1 = label_id m" "costsofar m1 \<le> costsofar m"
      by auto
    from Cons.IH [OF m1(1)] obtain m' where
      "m' \<in> set (AddSuccessors_loop P M y c col (P ?l q))"
      "label_id m' = label_id m1" "costsofar m' \<le> costsofar m1"
      by auto
    with m1 False show ?thesis by (auto simp: Let_def intro!: bexI [of _ m'])
  qed
qed

lemma AddSuccessors_loop_covers:
  assumes P: "push_keeps P" and x: "x \<in> set col"
    and v: "\<not> IsInvalidCost (EmissionCost M x)" "\<not> IsInvalidCost (TransitionCost M y x)"
      "\<not> IsInvalidCost (CostSofar M c (TransitionCost M y x) (EmissionCost M x))"
  shows "\<exists>m \<in> set (AddSuccessors_loop P M y c col q).
           label_id m = state_id x \<and>
           costsofar m \<le> CostSofar M c (TransitionCost M y x) (EmissionCost M x)"
  using x
proof (induction col arbitrary: q)
  case Nil
  then show ?case by simp
next
  case (Cons a col)
  let ?l = "\<lparr>costsofar = CostSofar M c (TransitionCost M y a) (EmissionCost M a),
             state = a, predecessor = Some y\<rparr>"
  show ?case
  proof (cases "a = x")
    case True
    from push_keepsD [OF P, of ?l ?l q] obtain m1 where
      m1: "m1 \<in> set (P ?l q)" "label_id m1 = label_id ?l" "costsofar m1 \<le> costsofar ?l"
      by auto
    from AddSuccessors_loop_keeps [OF P m1(1), of M y c col] obtain m' where
      "m' \<in> set (AddSuccessors_loop P M y c col (P ?l q))"
      "label_id m' = label_id m1" "costsofar m' \<le> costsofar m1"
      by auto
    with m1 True v show ?thesis
      by (auto simp: Let_def label_id_def intro!: bexI [of _ m'])
  next
    case False
    with Cons.prems have "x \<in> set col" by simp
    from Cons.IH [OF this] show ?thesis by (simp add: Let_def)
  qed
qed

lemma InitQueue_loop_new:
  assumes "push_sound P" and "m \<in> set (InitQueue_loop P M col q)"
  shows "m \<in> set q \<or>
     (state m \<in> set col \<and> predecessor m = None \<and> costsofar m = EmissionCost M (state m) \<and>
      \<not> IsInvalidCost (EmissionCost M (state m)))"
  using assms(2)
proof (induction col arbitrary: q)
  case Nil
  then show ?case by simp
next
  case (Cons x col)
  let ?l = "\<lparr>costsofar = EmissionCost M x, state = x, predecessor = None\<rparr>"
  show ?case
  proof (cases "IsInvalidCost (EmissionCost M x)")
    case True
    with Cons.prems have "m \<in> set (InitQueue_loop P M col q)"
      by (simp add: Let_def)
    from Cons.IH [OF this] show ?thesis by auto
  next
    case False
    with Cons.prems have "m \<in> set (InitQueue_loop P M col (P ?l q))"
      by (simp add: Let_def)
    from Cons.IH [OF this] show ?thesis
    proof
      assume "m \<in> set (P ?l q)"
      with assms(1) have "m = ?l \<or> m \<in> set q" by (auto simp: push_sound_def)
      with False show ?thesis by auto
    qed auto
  qed
qed

lemma InitQueue_loop_keeps:
  assumes "push_keeps P" and "m \<in> set q"
  shows "\<exists>m' \<in> set (InitQueue_loop P M col q).
           label_id m' = label_id m \<and> costsofar m' \<le> costsofar m"
  using assms(2)
proof (induction col arbitrary: q m)
  case Nil
  then show ?case by auto
next
  case (Cons x col)
  let ?l = "\<lparr>costsofar = EmissionCost M x, state = x, predecessor = None\<rparr>"
  show ?case
  proof (cases "IsInvalidCost (EmissionCost M x)")
    case True
    with Cons.IH [OF Cons.prems] show ?thesis by (auto simp: Let_def)
  next
    case False
    from push_keepsD [OF assms(1), of m ?l q] Cons.prems obtain m1 where
      m1: "m1 \<in> set (P ?l q)" "label_id m1 = label_id m" "costsofar m1 \<le> costsofar m"
      by auto
    from Cons.IH [OF m1(1)] obtain m' where
      "m' \<in> set (InitQueue_loop P M col (P ?l q))"
      "label_id m' = label_id m1" "costsofar m' \<le> costsofar m1"
      by auto
    with m1 False show ?thesis by (auto simp: Let_def intro!: bexI [of _ m'])
  qed
qed

lemma InitQueue_loop_covers:
  assumes P: "push_keeps P" and x: "x \<in> set col"
    and v: "\<not> IsInvalidCost (EmissionCost M x)"
  shows "\<exists>m \<in> set (InitQueue_loop P M col q).
           label_id m = state_id x \<and> costsofar m \<le> EmissionCost M x"
  using x
proof (induction col arbitrary: q)
  case Nil
  then show ?case by simp
next
  case (Cons a col)
  let ?l = "\<lparr>costsofar = EmissionCost M a, state = a, predecessor = None\<rparr>"
  show ?case
  proof (cases "a = x")
    case True
    from push_keepsD [OF P, of ?l ?l q] obtain m1 where
      m1: "m1 \<in> set (P ?l q)" "label_id m1 = label_id ?l" "costsofar m1 \<le> costsofar ?l"
      by auto
    from InitQueue_loop_keeps [OF P m1(1), of M col] obtain m' where
      "m' \<in> set (InitQueue_loop P M col (P ?l q))"
      "label_id m' = label_id m1" "costsofar m' \<le> costsofar m1"
      by auto
    with m1 True v show ?thesis
      by (auto simp: Let_def label_id_def intro!: bexI [of _ m'])
  next
    case False
    with Cons.prems have "x \<in> set col" by simp
    from Cons.IH [OF this] show ?thesis by (simp add: Let_def)
  qed
qed


text \<open>\<open>settled e x\<close>: the state \<open>x\<close> has a label in the scanned map.\<close>

definition settled :: "ViterbiSearch \<Rightarrow> State \<Rightarrow> bool" where
  "settled e x = (scanned_labels e (state_id x) \<noteq> None)"

text \<open>
  What holds of the engine between the searches. The unreached columns are what is left
  of the columns \<open>cols\<close> of the trellis: a state of a column is unreached or settled. The
  cost of a settled label is the least cost of a path to its state from the column at
  which its predecessor chain starts; its time has a winner; its predecessor is
  settled. The column before the earliest time is settled, and so are the winners.
\<close>

definition dij_base :: "State list list \<Rightarrow> CostModel \<Rightarrow> ViterbiSearch \<Rightarrow> bool" where
  "dij_base cols M e =
     (trellis cols \<and> v_state e = concat cols \<and> lazy_wf e \<and>
      length (unreached_states e) = length cols \<and>
      (\<forall>t < length cols. \<forall>x \<in> set (unreached_states e ! t). x \<in> set (cols ! t)) \<and>
      (\<forall>t < length cols. \<forall>x \<in> set (cols ! t). x \<in> set (unreached_states e ! t) \<or> settled e x) \<and>
      (\<forall>i l. scanned_labels e i = Some l \<longrightarrow>
         least_cost cols M (seed_time e l) (state l) (costsofar l) \<and>
         state_time (state l) < length (v_winner e) \<and>
         (\<forall>p. predecessor l = Some p \<longrightarrow> settled e p)) \<and>
      (0 < earliest_time e \<longrightarrow>
         earliest_time e \<le> length cols \<and>
         (\<forall>x \<in> set (cols ! (earliest_time e - 1)). settled e x)) \<and>
      (\<forall>t < length (v_winner e). \<forall>x. v_winner e ! t = Some x \<longrightarrow> settled e x))"

text \<open>
  What holds during the search seeded at the column \<open>s\<close>. The cost of a label of the queue
  is the cost of a path from column \<open>s\<close>, through its predecessor. The labels settled at
  the times from \<open>s\<close> on belong to this search. For every edge from such a settled state
  (but the state \<open>pend\<close>, settled last and not yet expanded) to a state that is not
  settled, and for every state of column \<open>s\<close> that is not settled, the queue holds a label
  that costs no more, unless the earliest time has passed the state.
\<close>

definition dij_seg ::
  "State list list \<Rightarrow> CostModel \<Rightarrow> Time \<Rightarrow> State option \<Rightarrow> ViterbiSearch \<Rightarrow> bool" where
  "dij_seg cols M s pend e =
     ((\<forall>m \<in> set (queue e).
         reach cols M s (state m) (costsofar m) \<and>
         (case predecessor m of
            None \<Rightarrow> state_time (state m) = s
          | Some p \<Rightarrow> s \<le> state_time p \<and> settled e p)) \<and>
      (\<forall>i l. scanned_labels e i = Some l \<longrightarrow> s \<le> state_time (state l) \<longrightarrow> seed_time e l = s) \<and>
      (\<forall>i l x. scanned_labels e i = Some l \<longrightarrow> s \<le> state_time (state l) \<longrightarrow>
         Some (state l) \<noteq> pend \<longrightarrow> state_time (state l) + 1 < length cols \<longrightarrow>
         earliest_time e \<le> state_time (state l) + 1 \<longrightarrow>
         x \<in> set (cols ! (state_time (state l) + 1)) \<longrightarrow> \<not> settled e x \<longrightarrow>
         \<not> IsInvalidCost (EmissionCost M x) \<longrightarrow>
         \<not> IsInvalidCost (TransitionCost M (state l) x) \<longrightarrow>
         (\<exists>m \<in> set (queue e). label_id m = state_id x \<and>
            costsofar m \<le> CostSofar M (costsofar l) (TransitionCost M (state l) x) (EmissionCost M x))) \<and>
      (\<forall>x. s < length cols \<longrightarrow> earliest_time e \<le> s \<longrightarrow> x \<in> set (cols ! s) \<longrightarrow>
         \<not> settled e x \<longrightarrow> \<not> IsInvalidCost (EmissionCost M x) \<longrightarrow>
         (\<exists>m \<in> set (queue e). label_id m = state_id x \<and> costsofar m \<le> EmissionCost M x)))"

lemma dij_baseD:
  assumes "dij_base cols M e"
  shows "trellis cols" and "v_state e = concat cols" and "lazy_wf e"
    and "length (unreached_states e) = length cols"
    and "\<And>t x. t < length cols \<Longrightarrow> x \<in> set (unreached_states e ! t) \<Longrightarrow> x \<in> set (cols ! t)"
    and "\<And>t x. t < length cols \<Longrightarrow> x \<in> set (cols ! t) \<Longrightarrow>
           x \<in> set (unreached_states e ! t) \<or> settled e x"
    and "\<And>i l. scanned_labels e i = Some l \<Longrightarrow>
           least_cost cols M (seed_time e l) (state l) (costsofar l)"
    and "\<And>i l. scanned_labels e i = Some l \<Longrightarrow> state_time (state l) < length (v_winner e)"
    and "\<And>i l p. scanned_labels e i = Some l \<Longrightarrow> predecessor l = Some p \<Longrightarrow> settled e p"
    and "0 < earliest_time e \<Longrightarrow> earliest_time e \<le> length cols"
    and "\<And>x. 0 < earliest_time e \<Longrightarrow> x \<in> set (cols ! (earliest_time e - 1)) \<Longrightarrow> settled e x"
    and "\<And>t x. t < length (v_winner e) \<Longrightarrow> v_winner e ! t = Some x \<Longrightarrow> settled e x"
  using assms unfolding dij_base_def by blast+

lemma dij_segD:
  assumes "dij_seg cols M s pend e"
  shows "\<And>m. m \<in> set (queue e) \<Longrightarrow> reach cols M s (state m) (costsofar m)"
    and "\<And>m. m \<in> set (queue e) \<Longrightarrow> predecessor m = None \<Longrightarrow> state_time (state m) = s"
    and "\<And>m p. m \<in> set (queue e) \<Longrightarrow> predecessor m = Some p \<Longrightarrow>
           s \<le> state_time p \<and> settled e p"
    and "\<And>i l. scanned_labels e i = Some l \<Longrightarrow> s \<le> state_time (state l) \<Longrightarrow> seed_time e l = s"
    and "\<And>i l x. scanned_labels e i = Some l \<Longrightarrow> s \<le> state_time (state l) \<Longrightarrow>
         Some (state l) \<noteq> pend \<Longrightarrow> state_time (state l) + 1 < length cols \<Longrightarrow>
         earliest_time e \<le> state_time (state l) + 1 \<Longrightarrow>
         x \<in> set (cols ! (state_time (state l) + 1)) \<Longrightarrow> \<not> settled e x \<Longrightarrow>
         \<not> IsInvalidCost (EmissionCost M x) \<Longrightarrow>
         \<not> IsInvalidCost (TransitionCost M (state l) x) \<Longrightarrow>
         \<exists>m \<in> set (queue e). label_id m = state_id x \<and>
            costsofar m \<le> CostSofar M (costsofar l) (TransitionCost M (state l) x) (EmissionCost M x)"
    and "\<And>x. s < length cols \<Longrightarrow> earliest_time e \<le> s \<Longrightarrow> x \<in> set (cols ! s) \<Longrightarrow>
         \<not> settled e x \<Longrightarrow> \<not> IsInvalidCost (EmissionCost M x) \<Longrightarrow>
         \<exists>m \<in> set (queue e). label_id m = state_id x \<and> costsofar m \<le> EmissionCost M x"
proof -
  from assms have q: "\<forall>m \<in> set (queue e).
         reach cols M s (state m) (costsofar m) \<and>
         (case predecessor m of
            None \<Rightarrow> state_time (state m) = s
          | Some p \<Rightarrow> s \<le> state_time p \<and> settled e p)"
    unfolding dij_seg_def by (rule conjunct1)
  show "\<And>m. m \<in> set (queue e) \<Longrightarrow> reach cols M s (state m) (costsofar m)"
    using q by blast
  show "\<And>m. m \<in> set (queue e) \<Longrightarrow> predecessor m = None \<Longrightarrow> state_time (state m) = s"
    using q by fastforce
  show "\<And>m p. m \<in> set (queue e) \<Longrightarrow> predecessor m = Some p \<Longrightarrow>
           s \<le> state_time p \<and> settled e p"
    using q by fastforce
  show "\<And>i l. scanned_labels e i = Some l \<Longrightarrow> s \<le> state_time (state l) \<Longrightarrow> seed_time e l = s"
    using assms unfolding dij_seg_def by blast
  show "\<And>i l x. scanned_labels e i = Some l \<Longrightarrow> s \<le> state_time (state l) \<Longrightarrow>
         Some (state l) \<noteq> pend \<Longrightarrow> state_time (state l) + 1 < length cols \<Longrightarrow>
         earliest_time e \<le> state_time (state l) + 1 \<Longrightarrow>
         x \<in> set (cols ! (state_time (state l) + 1)) \<Longrightarrow> \<not> settled e x \<Longrightarrow>
         \<not> IsInvalidCost (EmissionCost M x) \<Longrightarrow>
         \<not> IsInvalidCost (TransitionCost M (state l) x) \<Longrightarrow>
         \<exists>m \<in> set (queue e). label_id m = state_id x \<and>
            costsofar m \<le> CostSofar M (costsofar l) (TransitionCost M (state l) x) (EmissionCost M x)"
    using assms unfolding dij_seg_def by blast
  show "\<And>x. s < length cols \<Longrightarrow> earliest_time e \<le> s \<Longrightarrow> x \<in> set (cols ! s) \<Longrightarrow>
         \<not> settled e x \<Longrightarrow> \<not> IsInvalidCost (EmissionCost M x) \<Longrightarrow>
         \<exists>m \<in> set (queue e). label_id m = state_id x \<and> costsofar m \<le> EmissionCost M x"
    using assms unfolding dij_seg_def by blast
qed

text \<open>A settled state of the trellis is the state of its label.\<close>

lemma settled_label:
  assumes b: "dij_base cols M e" and x: "t < length cols" "x \<in> set (cols ! t)"
    and l: "scanned_labels e (state_id x) = Some l"
  shows "state l = x"
proof -
  from trellisD [OF dij_baseD(1) [OF b] x] have "tabled (concat cols) x" by simp
  moreover from lazy_wf_scanned [OF dij_baseD(3) [OF b] l] dij_baseD(2) [OF b]
  have "state_id (state l) = state_id x" "tabled (concat cols) (state l)"
    by (simp_all add: label_wf_def)
  ultimately show ?thesis by (blast intro: tabled_unique)
qed

text \<open>
  The reason why the label on top of the queue can be settled: every path from the
  column \<open>s\<close> that ends at or after the column before the earliest time costs no less
  than the label settled for its end, or else no less than any label of the queue.
\<close>

lemma dij_optimal:
  assumes mono: "monotone_costs M" and b: "dij_base cols M e" and sg: "dij_seg cols M s None e"
    and least: "\<And>m. m \<in> set (queue e) \<Longrightarrow> c0 \<le> costsofar m"
    and r: "reach cols M s y c"
  shows "earliest_time e \<le> state_time y + 1 \<Longrightarrow>
     (\<exists>l. scanned_labels e (state_id y) = Some l \<and> costsofar l \<le> c) \<or> c0 \<le> c"
  using r
proof (induction rule: reach.induct)
  case (seed x)
  from trellisD [OF dij_baseD(1) [OF b] seed.hyps(1,2)] have tx: "state_time x = s" by simp
  show ?case
  proof (cases "scanned_labels e (state_id x)")
    case (Some l)
    from settled_label [OF b seed.hyps(1,2) Some] have sl: "state l = x" .
    with dij_segD(4) [OF sg Some] tx have "seed_time e l = s" by simp
    with dij_baseD(7) [OF b Some] sl reach.seed [OF seed.hyps]
    have "costsofar l \<le> EmissionCost M x"
      by (simp add: least_cost_def)
    with Some show ?thesis by simp
  next
    case None
    then have ns: "\<not> settled e x" by (simp add: settled_def)
    have "earliest_time e \<le> s"
    proof (rule ccontr)
      assume "\<not> earliest_time e \<le> s"
      with seed.prems tx have "0 < earliest_time e" "earliest_time e - 1 = s" by simp_all
      with dij_baseD(11) [OF b, of x] seed.hyps(2) ns show False by simp
    qed
    from dij_segD(6) [OF sg seed.hyps(1) this seed.hyps(2) ns seed.hyps(3)] least
    show ?thesis by force
  qed
next
  case (step y c x)
  from trellisD [OF dij_baseD(1) [OF b] step.hyps(2,3)] have tx: "state_time x = state_time y + 1"
    by simp
  from reach_column [OF dij_baseD(1) [OF b] step.hyps(1)] have sy: "s \<le> state_time y"
    and yc: "state_time y < length cols" "y \<in> set (cols ! state_time y)" by simp_all
  let ?c = "CostSofar M c (TransitionCost M y x) (EmissionCost M x)"
  from reach_valid [OF mono step.hyps(1)] have vc: "\<not> IsInvalidCost c" .
  with mono step.hyps have cc: "c \<le> ?c"
    unfolding monotone_costs_def by blast
  show ?case
  proof (cases "scanned_labels e (state_id x)")
    case (Some l)
    from settled_label [OF b step.hyps(2,3) Some] have sl: "state l = x" .
    with dij_segD(4) [OF sg Some] tx sy have "seed_time e l = s" by simp
    with dij_baseD(7) [OF b Some] sl
      reach.step [OF step.hyps(1) step.hyps(2) step.hyps(3) step.hyps(4) step.hyps(5)]
    have "costsofar l \<le> ?c"
      by (simp add: least_cost_def)
    with Some show ?thesis by simp
  next
    case None
    then have ns: "\<not> settled e x" by (simp add: settled_def)
    have ex: "earliest_time e \<le> state_time x"
    proof (rule ccontr)
      assume "\<not> earliest_time e \<le> state_time x"
      with step.prems have "0 < earliest_time e" "earliest_time e - 1 = state_time x" by simp_all
      with dij_baseD(11) [OF b, of x] step.hyps(3) tx ns show False by simp
    qed
    with tx have "earliest_time e \<le> state_time y + 1" by simp
    from step.IH [OF this] show ?thesis
    proof
      assume "\<exists>l. scanned_labels e (state_id y) = Some l \<and> costsofar l \<le> c"
      then obtain l where l: "scanned_labels e (state_id y) = Some l" "costsofar l \<le> c" by blast
      from settled_label [OF b yc l(1)] have sl: "state l = y" .
      from dij_segD(4) [OF sg l(1)] sl sy have sd: "seed_time e l = s" by simp
      from dij_baseD(7) [OF b l(1)] sl sd have "reach cols M s y (costsofar l)"
        by (simp add: least_cost_def)
      from reach_valid [OF mono this] have vl: "\<not> IsInvalidCost (costsofar l)" .
      from ex tx have e1: "earliest_time e \<le> state_time (state l) + 1" by (simp add: sl)
      from dij_segD(5) [OF sg l(1), of x] sl sy step.hyps(2,3,4,5) e1 ns
      obtain m where m: "m \<in> set (queue e)"
        "costsofar m \<le> CostSofar M (costsofar l) (TransitionCost M y x) (EmissionCost M x)"
        by auto
      from mono vl step.hyps(4,5) l(2)
      have "CostSofar M (costsofar l) (TransitionCost M y x) (EmissionCost M x) \<le> ?c"
        unfolding monotone_costs_def by blast
      with m least [OF m(1)] show ?thesis by force
    next
      assume "c0 \<le> c"
      with cc show ?thesis by force
    qed
  qed
qed


lemma dij_baseI:
  assumes "trellis cols" and "v_state e = concat cols" and "lazy_wf e"
    and "length (unreached_states e) = length cols"
    and "\<And>t x. t < length cols \<Longrightarrow> x \<in> set (unreached_states e ! t) \<Longrightarrow> x \<in> set (cols ! t)"
    and "\<And>t x. t < length cols \<Longrightarrow> x \<in> set (cols ! t) \<Longrightarrow>
           x \<in> set (unreached_states e ! t) \<or> settled e x"
    and "\<And>i l. scanned_labels e i = Some l \<Longrightarrow>
           least_cost cols M (seed_time e l) (state l) (costsofar l)"
    and "\<And>i l. scanned_labels e i = Some l \<Longrightarrow> state_time (state l) < length (v_winner e)"
    and "\<And>i l p. scanned_labels e i = Some l \<Longrightarrow> predecessor l = Some p \<Longrightarrow> settled e p"
    and "0 < earliest_time e \<Longrightarrow> earliest_time e \<le> length cols"
    and "\<And>x. 0 < earliest_time e \<Longrightarrow> x \<in> set (cols ! (earliest_time e - 1)) \<Longrightarrow> settled e x"
    and "\<And>t x. t < length (v_winner e) \<Longrightarrow> v_winner e ! t = Some x \<Longrightarrow> settled e x"
  shows "dij_base cols M e"
  unfolding dij_base_def
proof (intro conjI)
  show "\<forall>i l. scanned_labels e i = Some l \<longrightarrow>
         least_cost cols M (seed_time e l) (state l) (costsofar l) \<and>
         state_time (state l) < length (v_winner e) \<and>
         (\<forall>p. predecessor l = Some p \<longrightarrow> settled e p)"
    using assms(7,8,9) by blast
  show "0 < earliest_time e \<longrightarrow>
         earliest_time e \<le> length cols \<and>
         (\<forall>x \<in> set (cols ! (earliest_time e - 1)). settled e x)"
    using assms(10,11) by blast
qed (use assms in blast)+

lemma dij_segI:
  assumes "\<And>m. m \<in> set (queue e) \<Longrightarrow> reach cols M s (state m) (costsofar m) \<and>
         (case predecessor m of
            None \<Rightarrow> state_time (state m) = s
          | Some p \<Rightarrow> s \<le> state_time p \<and> settled e p)"
    and "\<And>i l. scanned_labels e i = Some l \<Longrightarrow> s \<le> state_time (state l) \<Longrightarrow> seed_time e l = s"
    and "\<And>i l x. scanned_labels e i = Some l \<Longrightarrow> s \<le> state_time (state l) \<Longrightarrow>
         Some (state l) \<noteq> pend \<Longrightarrow> state_time (state l) + 1 < length cols \<Longrightarrow>
         earliest_time e \<le> state_time (state l) + 1 \<Longrightarrow>
         x \<in> set (cols ! (state_time (state l) + 1)) \<Longrightarrow> \<not> settled e x \<Longrightarrow>
         \<not> IsInvalidCost (EmissionCost M x) \<Longrightarrow>
         \<not> IsInvalidCost (TransitionCost M (state l) x) \<Longrightarrow>
         \<exists>m \<in> set (queue e). label_id m = state_id x \<and>
            costsofar m \<le> CostSofar M (costsofar l) (TransitionCost M (state l) x) (EmissionCost M x)"
    and "\<And>x. s < length cols \<Longrightarrow> earliest_time e \<le> s \<Longrightarrow> x \<in> set (cols ! s) \<Longrightarrow>
         \<not> settled e x \<Longrightarrow> \<not> IsInvalidCost (EmissionCost M x) \<Longrightarrow>
         \<exists>m \<in> set (queue e). label_id m = state_id x \<and> costsofar m \<le> EmissionCost M x"
  shows "dij_seg cols M s pend e"
  unfolding dij_seg_def
proof (intro conjI)
  show "\<forall>m \<in> set (queue e).
         reach cols M s (state m) (costsofar m) \<and>
         (case predecessor m of
            None \<Rightarrow> state_time (state m) = s
          | Some p \<Rightarrow> s \<le> state_time p \<and> settled e p)"
    using assms(1) by blast
  show "\<forall>i l. scanned_labels e i = Some l \<longrightarrow> s \<le> state_time (state l) \<longrightarrow> seed_time e l = s"
    using assms(2) by blast
  show "\<forall>i l x. scanned_labels e i = Some l \<longrightarrow> s \<le> state_time (state l) \<longrightarrow>
         Some (state l) \<noteq> pend \<longrightarrow> state_time (state l) + 1 < length cols \<longrightarrow>
         earliest_time e \<le> state_time (state l) + 1 \<longrightarrow>
         x \<in> set (cols ! (state_time (state l) + 1)) \<longrightarrow> \<not> settled e x \<longrightarrow>
         \<not> IsInvalidCost (EmissionCost M x) \<longrightarrow>
         \<not> IsInvalidCost (TransitionCost M (state l) x) \<longrightarrow>
         (\<exists>m \<in> set (queue e). label_id m = state_id x \<and>
            costsofar m \<le> CostSofar M (costsofar l) (TransitionCost M (state l) x) (EmissionCost M x))"
    using assms(3) by blast
  show "\<forall>x. s < length cols \<longrightarrow> earliest_time e \<le> s \<longrightarrow> x \<in> set (cols ! s) \<longrightarrow>
         \<not> settled e x \<longrightarrow> \<not> IsInvalidCost (EmissionCost M x) \<longrightarrow>
         (\<exists>m \<in> set (queue e). label_id m = state_id x \<and> costsofar m \<le> EmissionCost M x)"
    using assms(4) by blast
qed

text \<open>A label of the queue for the id of a state of the trellis is a label of that state.\<close>

lemma queue_label_state:
  assumes b: "dij_base cols M e" and m: "m \<in> set (queue e)"
    and z: "t < length cols" "z \<in> set (cols ! t)" and i: "label_id m = state_id z"
  shows "state m = z"
proof -
  from lazy_wf_queue [OF dij_baseD(3) [OF b] m] dij_baseD(2) [OF b]
  have "tabled (concat cols) (state m)" by (simp add: label_wf_def)
  moreover from trellisD [OF dij_baseD(1) [OF b] z] have "tabled (concat cols) z" by simp
  ultimately show ?thesis using i unfolding label_id_def by (rule tabled_unique)
qed

text \<open>A pass of the main loop that drops a stale label.\<close>

lemma dij_pass_skip:
  assumes P: "push_sound P"
    and b: "dij_base cols M e" and sg: "dij_seg cols M s None e"
    and pop: "q_pop (queue e) = Some (label, q)"
    and body: "IterativeSearch_body P M target st label (e\<lparr>queue := q\<rparr>) = Inr (Skip, st1, e1)"
  shows "dij_base cols M e1 \<and> dij_seg cols M s None e1 \<and> st1 = st \<and> v_winner e1 = v_winner e"
proof -
  from q_pop_mem [OF pop] have mem: "label \<in> set (queue e)" and q: "q = remove1 label (queue e)"
    by simp_all
  have sub: "set q \<subseteq> set (queue e)" unfolding q by (rule set_remove1_subset)
  from IterativeSearch_body_Skip [OF body] have e1: "e1 = e\<lparr>queue := q\<rparr>" and st1: "st1 = st"
    and stale: "state_time (state label) < earliest_time e" by simp_all
  from lazy_wf_pass [OF dij_baseD(3) [OF b] P pop body] have wf1: "lazy_wf (e\<lparr>queue := q\<rparr>)"
    by (simp add: e1)
  from b wf1 have base: "dij_base cols M (e\<lparr>queue := q\<rparr>)"
    by (simp add: dij_base_def settled_def seed_time_def)
  have keep: "m \<in> set q" if m: "m \<in> set (queue e)" and i: "label_id m = state_id z"
    and z: "t < length cols" "z \<in> set (cols ! t)" "earliest_time e \<le> t" for m z t
  proof -
    from queue_label_state [OF b m z(1,2) i] trellisD [OF dij_baseD(1) [OF b] z(1,2)]
    have "state_time (state m) = t" by simp
    with stale z(3) have "m \<noteq> label" by auto
    with m show ?thesis by (simp add: q)
  qed
  have seg: "dij_seg cols M s None (e\<lparr>queue := q\<rparr>)"
  proof (rule dij_segI)
    fix m assume "m \<in> set (queue (e\<lparr>queue := q\<rparr>))"
    with sub have m: "m \<in> set (queue e)" by auto
    from dij_segD(1) [OF sg m] dij_segD(2) [OF sg m] dij_segD(3) [OF sg m]
    show "reach cols M s (state m) (costsofar m) \<and>
         (case predecessor m of
            None \<Rightarrow> state_time (state m) = s
          | Some p \<Rightarrow> s \<le> state_time p \<and> settled (e\<lparr>queue := q\<rparr>) p)"
      by (cases "predecessor m") (simp_all add: settled_def)
  next
    fix i l assume "scanned_labels (e\<lparr>queue := q\<rparr>) i = Some l" "s \<le> state_time (state l)"
    with dij_segD(4) [OF sg, of i l] show "seed_time (e\<lparr>queue := q\<rparr>) l = s"
      by (simp add: seed_time_def)
  next
    fix i l x
    assume a: "scanned_labels (e\<lparr>queue := q\<rparr>) i = Some l" "s \<le> state_time (state l)"
      "Some (state l) \<noteq> None" "state_time (state l) + 1 < length cols"
      "earliest_time (e\<lparr>queue := q\<rparr>) \<le> state_time (state l) + 1"
      "x \<in> set (cols ! (state_time (state l) + 1))" "\<not> settled (e\<lparr>queue := q\<rparr>) x"
      "\<not> IsInvalidCost (EmissionCost M x)" "\<not> IsInvalidCost (TransitionCost M (state l) x)"
    then have "\<exists>m \<in> set (queue e). label_id m = state_id x \<and>
            costsofar m \<le> CostSofar M (costsofar l) (TransitionCost M (state l) x) (EmissionCost M x)"
      using dij_segD(5) [OF sg, of i l x] by (simp add: settled_def)
    then obtain m where m: "m \<in> set (queue e)" "label_id m = state_id x"
      "costsofar m \<le> CostSofar M (costsofar l) (TransitionCost M (state l) x) (EmissionCost M x)"
      by blast
    from keep [OF m(1,2) a(4) a(6)] a(5) have "m \<in> set q" by simp
    with m show "\<exists>m \<in> set (queue (e\<lparr>queue := q\<rparr>)). label_id m = state_id x \<and>
            costsofar m \<le> CostSofar M (costsofar l) (TransitionCost M (state l) x) (EmissionCost M x)"
      by auto
  next
    fix x
    assume a: "s < length cols" "earliest_time (e\<lparr>queue := q\<rparr>) \<le> s" "x \<in> set (cols ! s)"
      "\<not> settled (e\<lparr>queue := q\<rparr>) x" "\<not> IsInvalidCost (EmissionCost M x)"
    then have "\<exists>m \<in> set (queue e). label_id m = state_id x \<and> costsofar m \<le> EmissionCost M x"
      using dij_segD(6) [OF sg, of x] by (simp add: settled_def)
    then obtain m where m: "m \<in> set (queue e)" "label_id m = state_id x"
      "costsofar m \<le> EmissionCost M x"
      by blast
    from keep [OF m(1,2) a(1) a(3)] a(2) have "m \<in> set q" by simp
    with m show "\<exists>m \<in> set (queue (e\<lparr>queue := q\<rparr>)). label_id m = state_id x \<and>
            costsofar m \<le> EmissionCost M x"
      by auto
  qed
  from base seg st1 show ?thesis by (simp add: e1)
qed


text \<open>A pass of the main loop that settles its label.\<close>

lemma dij_pass_settle:
  assumes mono: "monotone_costs M" and P: "push_sound P" and Pk: "push_keeps P"
    and b: "dij_base cols M e" and sg: "dij_seg cols M s None e"
    and pop: "q_pop (queue e) = Some (label, q)"
    and body: "IterativeSearch_body P M target st label (e\<lparr>queue := q\<rparr>) = Inr (oc, st1, e1)"
    and oc: "oc \<noteq> Skip"
  shows "dij_base cols M e1 \<and>
         dij_seg cols M s (if oc = Break then Some (state label) else None) e1"
proof -
  let ?x = "state label"
  let ?i = "state_id ?x" and ?t = "state_time ?x"
  note tr = dij_baseD(1) [OF b] and vs = dij_baseD(2) [OF b] and wf = dij_baseD(3) [OF b]
  from q_pop_mem [OF pop] have mem: "label \<in> set (queue e)" and q: "q = remove1 label (queue e)"
    by simp_all
  have sub: "set q \<subseteq> set (queue e)" unfolding q by (rule set_remove1_subset)
  from pop have "min_element (queue e) = Some label"
    by (auto simp: q_pop_def split: option.splits)
  from min_element_least [OF this]
  have least: "\<And>m. m \<in> set (queue e) \<Longrightarrow> costsofar label \<le> costsofar m" .
  from lazy_wf_queue [OF wf mem] have lw: "label_wf (v_state e) label" .
  from dij_segD(1) [OF sg mem] have rx: "reach cols M s ?x (costsofar label)" .
  from reach_column [OF tr rx] have st: "s \<le> ?t" and tl: "?t < length cols"
    and xc: "?x \<in> set (cols ! ?t)" by simp_all
  from reach_valid [OF mono rx] have vx: "\<not> IsInvalidCost (costsofar label)" .
  from lazy_wf_pass [OF wf P pop body] have wf1: "lazy_wf e1" .
  from IterativeSearch_body_settle [OF body oc] obtain column where
    ne: "\<not> ?t < earliest_time e" and
    sn: "scanned_labels e ?i = None" and
    er: "erase_id ?i (unreached_states e ! ?t) = Some column" and
    tw: "?t \<le> length (v_winner e)" and
    vs1: "v_state e1 = v_state e" and
    sc: "scanned_labels e1 = (scanned_labels e)(?i \<mapsto> label)" and
    un: "unreached_states e1 = (unreached_states e)[?t := column]" and
    ea: "earliest_time e1 = (if column = [] then ?t + 1 else earliest_time e)" and
    wi: "v_winner e1 = (if length (v_winner e) \<le> ?t then v_winner e @ [Some ?x] else v_winner e)" and
    qu: "queue e1 = (if oc = Break then q
                 else AddSuccessors_loop P M ?x (costsofar label)
                        (unreached_states e1 ! (?t + 1)) q)"
    by auto
  note len = dij_baseD(4) [OF b]
  have se1: "settled e1 z = (state_id z = ?i \<or> settled e z)" for z
    by (simp add: settled_def sc)
  have ea_le: "earliest_time e \<le> earliest_time e1"
    using ne by (simp add: ea)
  text \<open>The label is the cheapest way to its state.\<close>
  have opt: "costsofar label \<le> c" if "reach cols M s ?x c" for c
  proof -
    from ne have "earliest_time e \<le> ?t + 1" by simp
    from dij_optimal [OF mono b sg least that this] sn show ?thesis by auto
  qed
  text \<open>The state removed from its column is the state of the label.\<close>
  from erase_id_split [OF er] obtain pre x' post where
    sp: "unreached_states e ! ?t = pre @ x' # post" "state_id x' = ?i" "column = pre @ post"
    by blast
  from sp(1) have "x' \<in> set (unreached_states e ! ?t)" by simp
  from trellisD [OF tr tl dij_baseD(5) [OF b tl this]] have "tabled (concat cols) x'"
    by simp
  moreover from trellisD [OF tr tl xc] have "tabled (concat cols) ?x" by simp
  ultimately have x': "x' = ?x" using sp(2) by (rule tabled_unique)
  have col_sub: "set column \<subseteq> set (unreached_states e ! ?t)"
    by (rule erase_id_subset [OF er])
  have col_cov: "z \<in> set column \<or> z = ?x" if "z \<in> set (unreached_states e ! ?t)" for z
    using that sp x' by auto
  have un_sub: "x \<in> set (unreached_states e ! t)"
    if "t < length cols" "x \<in> set (unreached_states e1 ! t)" for t x
    using that col_sub len by (cases "t = ?t") (auto simp: un)
  have cover1: "x \<in> set (unreached_states e1 ! t) \<or> settled e1 x"
    if t: "t < length cols" and x: "x \<in> set (cols ! t)" for t x
  proof (cases "t = ?t")
    case True
    from dij_baseD(6) [OF b t x] show ?thesis
    proof
      assume "x \<in> set (unreached_states e ! t)"
      with col_cov [of x] True have "x \<in> set column \<or> x = ?x" by simp
      with True tl len show ?thesis by (auto simp: un se1)
    next
      assume "settled e x"
      then show ?thesis by (simp add: se1)
    qed
  next
    case False
    with dij_baseD(6) [OF b t x] show ?thesis by (auto simp: un se1)
  qed
  text \<open>The seed times of the labels.\<close>
  have le: "scanned_labels e \<subseteq>\<^sub>m scanned_labels e1"
    using sn by (auto simp: map_le_def sc)
  have closed: "scanned_labels e (state_id p) \<noteq> None"
    if "scanned_labels e j = Some l" "predecessor l = Some p" for j l p
    using dij_baseD(9) [OF b that] by (simp add: settled_def)
  have old: "seed_time e1 l = seed_time e l" if "scanned_labels e j = Some l" for j l
    unfolding seed_time_def using chain_root_extend [OF le closed that] by simp
  have new: "seed_time e1 label = s"
  proof (cases "predecessor label")
    case None
    then have "seed_time e1 label = ?t" by (simp add: seed_time_def chain_root_None)
    with dij_segD(2) [OF sg mem None] show ?thesis by simp
  next
    case (Some p)
    from dij_segD(3) [OF sg mem Some] have sp: "s \<le> state_time p" "settled e p" by simp_all
    then obtain lp where lp: "scanned_labels e (state_id p) = Some lp"
      by (auto simp: settled_def)
    from lw Some have tp: "tabled (v_state e) p" "?t = Suc (state_time p)"
      by (simp_all add: label_wf_def)
    from lazy_wf_scanned [OF wf lp]
    have "state_id (state lp) = state_id p" "tabled (v_state e) (state lp)"
      by (simp_all add: label_wf_def)
    with tp(1) have slp: "state lp = p" by (blast intro: tabled_unique)
    from lp sn have "state_id p \<noteq> ?i" by auto
    with lp have lp1: "scanned_labels e1 (state_id p) = Some lp" by (simp add: sc)
    have "chain_root (scanned_labels e1) ?t label = chain_root (scanned_labels e1) (state_time p) lp"
      unfolding tp(2) using Some lp1 by simp
    also have "\<dots> = chain_root (scanned_labels e) (state_time p) lp"
      by (rule chain_root_extend [OF le closed lp])
    finally have "seed_time e1 label = seed_time e lp"
      by (simp add: seed_time_def slp)
    with dij_segD(4) [OF sg lp] slp sp(1) show ?thesis by simp
  qed
  have scanned1: "(j = ?i \<and> l = label) \<or> (j \<noteq> ?i \<and> scanned_labels e j = Some l)"
    if "scanned_labels e1 j = Some l" for j l
    using that by (auto simp: sc split: if_splits)
  text \<open>The invariant of the engine.\<close>
  have base: "dij_base cols M e1"
  proof (rule dij_baseI)
    show "trellis cols" by (rule tr)
    show "v_state e1 = concat cols" by (simp add: vs1 vs)
    show "lazy_wf e1" by (rule wf1)
    show "length (unreached_states e1) = length cols" by (simp add: un len)
  next
    fix t x assume "t < length cols" "x \<in> set (unreached_states e1 ! t)"
    from dij_baseD(5) [OF b this(1) un_sub [OF this]] show "x \<in> set (cols ! t)" .
  next
    fix t x assume "t < length cols" "x \<in> set (cols ! t)"
    then show "x \<in> set (unreached_states e1 ! t) \<or> settled e1 x" by (rule cover1)
  next
    fix j l assume "scanned_labels e1 j = Some l"
    from scanned1 [OF this] show "least_cost cols M (seed_time e1 l) (state l) (costsofar l)"
    proof
      assume "j = ?i \<and> l = label"
      with new rx opt show ?thesis by (simp add: least_cost_def)
    next
      assume "j \<noteq> ?i \<and> scanned_labels e j = Some l"
      with old [of j l] dij_baseD(7) [OF b, of j l] show ?thesis by simp
    qed
  next
    fix j l assume "scanned_labels e1 j = Some l"
    from scanned1 [OF this] show "state_time (state l) < length (v_winner e1)"
    proof
      assume "j = ?i \<and> l = label"
      with tw show ?thesis by (simp add: wi)
    next
      assume "j \<noteq> ?i \<and> scanned_labels e j = Some l"
      with dij_baseD(8) [OF b, of j l] show ?thesis by (simp add: wi)
    qed
  next
    fix j l p assume a: "scanned_labels e1 j = Some l" "predecessor l = Some p"
    from scanned1 [OF a(1)] show "settled e1 p"
    proof
      assume "j = ?i \<and> l = label"
      with dij_segD(3) [OF sg mem] a(2) show ?thesis by (simp add: se1)
    next
      assume "j \<noteq> ?i \<and> scanned_labels e j = Some l"
      with dij_baseD(9) [OF b _ a(2), of j] show ?thesis by (simp add: se1)
    qed
  next
    assume "0 < earliest_time e1"
    with dij_baseD(10) [OF b] tl show "earliest_time e1 \<le> length cols"
      by (simp add: ea split: if_splits)
  next
    fix x assume a: "0 < earliest_time e1" "x \<in> set (cols ! (earliest_time e1 - 1))"
    show "settled e1 x"
    proof (cases "column = []")
      case True
      with a have "x \<in> set (cols ! ?t)" by (simp add: ea)
      from cover1 [OF tl this] True tl len show ?thesis by (simp add: un)
    next
      case False
      with a dij_baseD(11) [OF b, of x] show ?thesis by (simp add: ea se1)
    qed
  next
    fix t x assume a: "t < length (v_winner e1)" "v_winner e1 ! t = Some x"
    show "settled e1 x"
    proof (cases "t < length (v_winner e)")
      case True
      with a have "v_winner e ! t = Some x" by (auto simp: wi nth_append split: if_splits)
      from dij_baseD(12) [OF b True this] show ?thesis by (simp add: se1)
    next
      case False
      with a have "x = ?x" by (auto simp: wi nth_append split: if_splits)
      then show ?thesis by (simp add: se1)
    qed
  qed
  text \<open>The labels of the queue that stay.\<close>
  have stay: "\<exists>m' \<in> set (queue e1). label_id m' = label_id m \<and> costsofar m' \<le> costsofar m"
    if m: "m \<in> set (queue e)" and i: "label_id m \<noteq> ?i" for m
  proof -
    from i have "m \<noteq> label" by (auto simp: label_id_def)
    with m have mq: "m \<in> set q" by (simp add: q)
    show ?thesis
    proof (cases "oc = Break")
      case True
      with mq show ?thesis by (auto simp: qu)
    next
      case False
      with AddSuccessors_loop_keeps [OF Pk mq, of M ?x "costsofar label"
          "unreached_states e1 ! (?t + 1)"]
      show ?thesis by (simp add: qu)
    qed
  qed
  have seg: "dij_seg cols M s (if oc = Break then Some ?x else None) e1"
  proof (rule dij_segI)
    fix m assume m: "m \<in> set (queue e1)"
    have "m \<in> set q \<or> (oc \<noteq> Break \<and>
        state m \<in> set (unreached_states e1 ! (?t + 1)) \<and> predecessor m = Some ?x \<and>
        costsofar m = CostSofar M (costsofar label) (TransitionCost M ?x (state m))
                        (EmissionCost M (state m)) \<and>
        \<not> IsInvalidCost (EmissionCost M (state m)) \<and>
        \<not> IsInvalidCost (TransitionCost M ?x (state m)))"
    proof (cases "oc = Break")
      case True
      with m show ?thesis by (simp add: qu)
    next
      case False
      with m have "m \<in> set (AddSuccessors_loop P M ?x (costsofar label)
                        (unreached_states e1 ! (?t + 1)) q)"
        by (simp add: qu)
      from AddSuccessors_loop_new [OF P this] False show ?thesis by blast
    qed
    then show "reach cols M s (state m) (costsofar m) \<and>
         (case predecessor m of
            None \<Rightarrow> state_time (state m) = s
          | Some p \<Rightarrow> s \<le> state_time p \<and> settled e1 p)"
    proof
      assume "m \<in> set q"
      with sub have mq: "m \<in> set (queue e)" by auto
      from dij_segD(1) [OF sg mq] dij_segD(2) [OF sg mq] dij_segD(3) [OF sg mq]
      show ?thesis by (cases "predecessor m") (simp_all add: se1)
    next
      assume a: "oc \<noteq> Break \<and>
        state m \<in> set (unreached_states e1 ! (?t + 1)) \<and> predecessor m = Some ?x \<and>
        costsofar m = CostSofar M (costsofar label) (TransitionCost M ?x (state m))
                        (EmissionCost M (state m)) \<and>
        \<not> IsInvalidCost (EmissionCost M (state m)) \<and>
        \<not> IsInvalidCost (TransitionCost M ?x (state m))"
      have t1: "?t + 1 < length cols"
      proof (rule ccontr)
        assume "\<not> ?t + 1 < length cols"
        then have "unreached_states e1 ! (?t + 1) = unreached_states e ! (?t + 1)"
          by (simp add: un)
        with a body oc show False
          using \<open>\<not> ?t + 1 < length cols\<close> IterativeSearch_body_settle [OF body oc] len
          by (auto simp: IterativeSearch_body_def Let_def AddSuccessorsToQueue_def
              split: if_splits option.splits sum.splits)
      qed
      from a have "state m \<in> set (unreached_states e1 ! (?t + 1))" by simp
      from dij_baseD(5) [OF b t1 un_sub [OF t1 this]]
      have mc: "state m \<in> set (cols ! (?t + 1))" .
      from reach.step [OF rx t1 mc] a have "reach cols M s (state m) (costsofar m)" by simp
      with a st show ?thesis by (simp add: se1)
    qed
  next
    fix j l assume a: "scanned_labels e1 j = Some l" "s \<le> state_time (state l)"
    from scanned1 [OF a(1)] show "seed_time e1 l = s"
    proof
      assume "j = ?i \<and> l = label"
      with new show ?thesis by simp
    next
      assume "j \<noteq> ?i \<and> scanned_labels e j = Some l"
      with old [of j l] dij_segD(4) [OF sg _ a(2), of j] show ?thesis by simp
    qed
  next
    fix j l x
    assume a: "scanned_labels e1 j = Some l" "s \<le> state_time (state l)"
      "Some (state l) \<noteq> (if oc = Break then Some ?x else None)"
      "state_time (state l) + 1 < length cols"
      "earliest_time e1 \<le> state_time (state l) + 1"
      "x \<in> set (cols ! (state_time (state l) + 1))" "\<not> settled e1 x"
      "\<not> IsInvalidCost (EmissionCost M x)" "\<not> IsInvalidCost (TransitionCost M (state l) x)"
    let ?c = "CostSofar M (costsofar l) (TransitionCost M (state l) x) (EmissionCost M x)"
    from a(7) have nx: "state_id x \<noteq> ?i" "\<not> settled e x" by (simp_all add: se1)
    from scanned1 [OF a(1)]
    show "\<exists>m \<in> set (queue e1). label_id m = state_id x \<and> costsofar m \<le> ?c"
    proof
      assume jl: "j = ?i \<and> l = label"
      with a(3) have nb: "oc \<noteq> Break" by auto
      from cover1 [OF a(4,6)] a(7) jl have xu: "x \<in> set (unreached_states e1 ! (?t + 1))"
        by simp
      from mono vx a(8,9) jl have "costsofar label \<le> ?c"
        unfolding monotone_costs_def by blast
      with vx have "\<not> IsInvalidCost ?c" by (auto simp: IsInvalidCost_def)
      with AddSuccessors_loop_covers [OF Pk xu, of M ?x "costsofar label" q] a(8,9) jl nb
      show ?thesis by (simp add: qu)
    next
      assume jl: "j \<noteq> ?i \<and> scanned_labels e j = Some l"
      from a(5) ea_le have "earliest_time e \<le> state_time (state l) + 1" by simp
      from dij_segD(5) [OF sg _ a(2) _ a(4) this a(6) nx(2) a(8,9), of j] jl
      obtain m where m: "m \<in> set (queue e)" "label_id m = state_id x" "costsofar m \<le> ?c"
        by auto
      from stay [OF m(1)] m(2) nx(1) obtain m' where
        "m' \<in> set (queue e1)" "label_id m' = label_id m" "costsofar m' \<le> costsofar m"
        by auto
      with m show ?thesis by (auto intro!: bexI [of _ m'])
    qed
  next
    fix x
    assume a: "s < length cols" "earliest_time e1 \<le> s" "x \<in> set (cols ! s)"
      "\<not> settled e1 x" "\<not> IsInvalidCost (EmissionCost M x)"
    from a(4) have nx: "state_id x \<noteq> ?i" "\<not> settled e x" by (simp_all add: se1)
    from a(2) ea_le have "earliest_time e \<le> s" by simp
    from dij_segD(6) [OF sg a(1) this a(3) nx(2) a(5)]
    obtain m where m: "m \<in> set (queue e)" "label_id m = state_id x"
      "costsofar m \<le> EmissionCost M x"
      by auto
    from stay [OF m(1)] m(2) nx(1) obtain m' where
      "m' \<in> set (queue e1)" "label_id m' = label_id m" "costsofar m' \<le> costsofar m"
      by auto
    with m show "\<exists>m \<in> set (queue e1). label_id m = state_id x \<and> costsofar m \<le> EmissionCost M x"
      by (auto intro!: bexI [of _ m'])
  qed
  from base seg show ?thesis ..
qed


text \<open>
  A rule for the main loop that tells the pass that leaves the loop from the others:
  \<open>I\<close> holds at the head of the loop, \<open>Q\<close> when the loop is left.
\<close>

lemma IterativeSearch_loop_exit_rule:
  assumes "IterativeSearch_loop P M target st e = Inr (st', e')"
    and "I st e"
    and cont: "\<And>st e label q oc st1 e1.
      I st e \<Longrightarrow> q_pop (queue e) = Some (label, q) \<Longrightarrow>
      IterativeSearch_body P M target st label (e\<lparr>queue := q\<rparr>) = Inr (oc, st1, e1) \<Longrightarrow>
      oc \<noteq> Break \<Longrightarrow> I st1 e1"
    and brk: "\<And>st e label q st1 e1.
      I st e \<Longrightarrow> q_pop (queue e) = Some (label, q) \<Longrightarrow>
      IterativeSearch_body P M target st label (e\<lparr>queue := q\<rparr>) = Inr (Break, st1, e1) \<Longrightarrow>
      Q st1 e1"
    and drain: "\<And>st e. I st e \<Longrightarrow> queue e = [] \<Longrightarrow> Q st e"
  shows "Q st' e'"
  using assms
proof (induction P M target st e rule: IterativeSearch_loop.induct)
  case (1 P M target searched_time e)
  show ?case
  proof (cases "q_pop (queue e)")
    case None
    with "1.prems"(1) have "st' = searched_time" "e' = e"
      by (simp_all add: IterativeSearch_loop.simps [of P M target searched_time e])
    with "1.prems"(5) [OF "1.prems"(2)] None show ?thesis by simp
  next
    case (Some a)
    obtain label q where a: "a = (label, q)" by (cases a)
    show ?thesis
    proof (cases "IterativeSearch_body P M target searched_time label (e\<lparr>queue := q\<rparr>)")
      case (Inl x)
      with "1.prems" Some a show ?thesis
        by (simp add: IterativeSearch_loop.simps [of P M target searched_time e])
    next
      case (Inr r)
      obtain oc st1 e1 where r: "r = (oc, st1, e1)" by (cases r)
      show ?thesis
      proof (cases oc)
        case Skip
        have I1: "I st1 e1"
          using "1.prems"(3) [OF "1.prems"(2) Some [unfolded a] Inr [unfolded r]] Skip by simp
        from Inr r Some a "1.prems"(1) Skip
        have "IterativeSearch_loop P M target st1 e1 = Inr (st', e')"
          by (simp add: IterativeSearch_loop.simps [of P M target searched_time e])
        then show ?thesis
          using I1 "1.prems"(3,4,5)
          by (intro "1.IH"(1) [OF Some a [symmetric] Inr r [symmetric] Skip refl]) blast+
      next
        case Break
        from Inr r Some a "1.prems"(1) Break have "st' = st1" "e' = e1"
          by (simp_all add: IterativeSearch_loop.simps [of P M target searched_time e])
        with "1.prems"(4) [OF "1.prems"(2) Some [unfolded a] Inr [unfolded r Break]]
        show ?thesis by simp
      next
        case Next
        have I1: "I st1 e1"
          using "1.prems"(3) [OF "1.prems"(2) Some [unfolded a] Inr [unfolded r]] Next by simp
        from Inr r Some a "1.prems"(1) Next
        have "IterativeSearch_loop P M target st1 e1 = Inr (st', e')"
          by (simp add: IterativeSearch_loop.simps [of P M target searched_time e])
        then show ?thesis
          using I1 "1.prems"(3,4,5)
          by (intro "1.IH"(2) [OF Some a [symmetric] Inr r [symmetric] Next refl]) blast+
      qed
    qed
  qed
qed


text \<open>
  Between the searches: the last search can be continued from the last winner when there
  is one, which then is the only settled state that may not be expanded yet.
\<close>

definition dij_idle :: "State list list \<Rightarrow> CostModel \<Rightarrow> ViterbiSearch \<Rightarrow> bool" where
  "dij_idle cols M e =
     (dij_base cols M e \<and>
      (v_winner e \<noteq> [] \<and> last (v_winner e) \<noteq> None \<longrightarrow>
         (\<exists>s pend. dij_seg cols M s pend e \<and> s < length (v_winner e) \<and>
            (\<forall>x. pend = Some x \<longrightarrow> last (v_winner e) = Some x))))"

text \<open>At the head of the main loop, and when the loop is left.\<close>

definition dij_head ::
  "State list list \<Rightarrow> CostModel \<Rightarrow> Time \<Rightarrow> Time \<Rightarrow> Time \<Rightarrow> ViterbiSearch \<Rightarrow> bool" where
  "dij_head cols M s target st e =
     (dij_base cols M e \<and> dij_seg cols M s None e \<and> length (v_winner e) \<le> target \<and>
      s \<le> st \<and> st \<le> target \<and> (st < target \<or> s = target))"

definition dij_exit ::
  "State list list \<Rightarrow> CostModel \<Rightarrow> Time \<Rightarrow> Time \<Rightarrow> ViterbiSearch \<Rightarrow> bool" where
  "dij_exit cols M s st e =
     (dij_base cols M e \<and> s \<le> st \<and>
      (\<exists>pend. dij_seg cols M s pend e \<and>
         (\<forall>x. pend = Some x \<longrightarrow>
            v_winner e \<noteq> [] \<and> last (v_winner e) = Some x \<and> st < length (v_winner e))))"

lemma dij_head_pass:
  assumes mono: "monotone_costs M" and P: "push_sound P" and Pk: "push_keeps P"
    and h: "dij_head cols M s target st e"
    and pop: "q_pop (queue e) = Some (label, q)"
    and body: "IterativeSearch_body P M target st label (e\<lparr>queue := q\<rparr>) = Inr (oc, st1, e1)"
  shows "if oc = Break then dij_exit cols M s st1 e1 else dij_head cols M s target st1 e1"
proof -
  from h have b: "dij_base cols M e" and sg: "dij_seg cols M s None e"
    and k: "length (v_winner e) \<le> target" "s \<le> st" "st \<le> target" "st < target \<or> s = target"
    by (simp_all add: dij_head_def)
  show ?thesis
  proof (cases "oc = Skip")
    case True
    from body have "IterativeSearch_body P M target st label (e\<lparr>queue := q\<rparr>)
                      = Inr (Skip, st1, e1)"
      by (simp add: True)
    from dij_pass_skip [OF P b sg pop this] True k show ?thesis
      by (simp add: dij_head_def)
  next
    case False
    let ?x = "state label"
    let ?t = "state_time ?x"
    from dij_pass_settle [OF mono P Pk b sg pop body False]
    have b1: "dij_base cols M e1"
      and sg1: "dij_seg cols M s (if oc = Break then Some ?x else None) e1"
      by simp_all
    from q_pop_mem [OF pop] have mem: "label \<in> set (queue e)" by simp
    from reach_column [OF dij_baseD(1) [OF b] dij_segD(1) [OF sg mem]] have st: "s \<le> ?t"
      by simp
    from IterativeSearch_body_settle [OF body False] have
      tw: "?t \<le> length (v_winner e)" and
      s1: "st1 = max ?t st" and
      br: "(oc = Break) = (target \<le> st1)" and
      wi: "v_winner e1 = (if length (v_winner e) \<le> ?t then v_winner e @ [Some ?x] else v_winner e)"
      by auto
    show ?thesis
    proof (cases "oc = Break")
      case True
      with br s1 k st tw have "?t = target" "length (v_winner e) = ?t" "st1 = target"
        by auto
      with wi have "v_winner e1 \<noteq> []" "last (v_winner e1) = Some ?x" "st1 < length (v_winner e1)"
        by simp_all
      with True b1 sg1 k s1 show ?thesis
        by (auto simp: dij_exit_def)
    next
      case nb: False
      with br have lt: "st1 < target" by simp
      with s1 have "?t < target" by simp
      with k(1) have "length (v_winner e1) \<le> target" by (simp add: wi)
      with nb b1 sg1 lt k(2) s1 show ?thesis
        by (simp add: dij_head_def)
    qed
  qed
qed


text \<open>The winner cache is filled up after the loop.\<close>

lemma dij_pad_winner:
  assumes x: "dij_exit cols M s st e"
  shows "dij_idle cols M (pad_winner st e)"
proof -
  let ?e = "pad_winner st e"
  from x have b: "dij_base cols M e" and st: "s \<le> st" by (simp_all add: dij_exit_def)
  from x obtain pend where sg: "dij_seg cols M s pend e"
    and pd: "\<And>x. pend = Some x \<Longrightarrow>
            v_winner e \<noteq> [] \<and> last (v_winner e) = Some x \<and> st < length (v_winner e)"
    unfolding dij_exit_def by blast
  have f: "v_state ?e = v_state e" "unreached_states ?e = unreached_states e"
    "queue ?e = queue e" "scanned_labels ?e = scanned_labels e"
    "earliest_time ?e = earliest_time e"
    by (simp_all add: pad_winner_def)
  have se: "settled ?e z = settled e z" "seed_time ?e l = seed_time e l" for z l
    by (simp_all add: settled_def seed_time_def f)
  have len: "length (v_winner e) \<le> length (v_winner ?e)" "st < length (v_winner ?e)"
    by (simp_all add: length_pad_winner)
  have base: "dij_base cols M ?e"
  proof (rule dij_baseI)
    show "lazy_wf ?e" by (rule lazy_wf_pad_winner [OF dij_baseD(3) [OF b]])
  next
    fix i l assume "scanned_labels ?e i = Some l"
    with dij_baseD(8) [OF b, of i l] len(1) show "state_time (state l) < length (v_winner ?e)"
      by (simp add: f)
  next
    fix t x assume a: "t < length (v_winner ?e)" "v_winner ?e ! t = Some x"
    then have "t < length (v_winner e) \<and> v_winner e ! t = Some x"
      by (cases "t < length (v_winner e)") (auto simp: pad_winner_def nth_append)
    with dij_baseD(12) [OF b, of t x] show "settled ?e x" by (simp add: se)
  qed (use b in \<open>auto simp: f se dest: dij_baseD\<close>)
  have seg: "dij_seg cols M s pend ?e"
    using sg by (simp add: dij_seg_def f se cong: option.case_cong)
  have "s < length (v_winner ?e)" using st len(2) by simp
  moreover have "last (v_winner ?e) = Some x" if "pend = Some x" for x
  proof -
    from pd [OF that] have "Suc st - length (v_winner e) = 0" by simp
    then have "v_winner ?e = v_winner e" by (simp add: pad_winner_def)
    with pd [OF that] show ?thesis by simp
  qed
  ultimately show ?thesis
    unfolding dij_idle_def using base seg by blast
qed


text \<open>The invariant does not depend on the queue, but for the labels being well formed.\<close>

lemma dij_base_queue:
  "dij_base cols M e \<Longrightarrow> lazy_wf (e\<lparr>queue := q\<rparr>) \<Longrightarrow> dij_base cols M (e\<lparr>queue := q\<rparr>)"
  by (simp add: dij_base_def settled_def seed_time_def)

text \<open>The start of a search: from the last winner, or from the next column.\<close>

lemma dij_source_continue:
  assumes mono: "monotone_costs M" and P: "push_sound P" and Pk: "push_keeps P"
    and b: "dij_base cols M e" and sg: "dij_seg cols M s pend e"
    and sw: "s < length (v_winner e)"
    and pd: "\<And>x. pend = Some x \<Longrightarrow> last (v_winner e) = Some x"
    and w: "last (v_winner e) = Some w"
    and add: "AddSuccessorsToQueue P M w e = Inr e1"
    and wf1: "lazy_wf e1"
  shows "dij_base cols M e1 \<and> dij_seg cols M s None e1"
proof -
  note tr = dij_baseD(1) [OF b] and vs = dij_baseD(2) [OF b] and wf = dij_baseD(3) [OF b]
  let ?n = "length (v_winner e) - 1"
  from sw have ne: "v_winner e \<noteq> []" by auto
  with w have wn: "v_winner e ! ?n = Some w" "?n < length (v_winner e)"
    by (simp_all add: last_conv_nth)
  from lazy_wf_winner [OF wf wn(2) wn(1)] have tw: "state_time w = ?n"
    and tbw: "tabled (v_state e) w" by simp_all
  from AddSuccessorsToQueue_Inr [OF add] obtain l :: Label where
    l: "scanned_labels e (state_id w) = Some l" and vl: "\<not> IsInvalidCost (costsofar l)" and
    t1: "state_time w + 1 < length (unreached_states e)" and
    e1: "e1 = e\<lparr>queue := AddSuccessors_loop P M w (costsofar l)
                          (unreached_states e ! (state_time w + 1)) (queue e)\<rparr>"
    by blast
  let ?q = "AddSuccessors_loop P M w (costsofar l) (unreached_states e ! (state_time w + 1)) (queue e)"
  from lazy_wf_scanned [OF wf l] have "state_id (state l) = state_id w" "tabled (v_state e) (state l)"
    by (simp_all add: label_wf_def)
  with tbw have sl: "state l = w" by (blast intro: tabled_unique)
  from sw tw have sw': "s \<le> state_time w" by simp
  from dij_segD(4) [OF sg l] sl sw' have sd: "seed_time e l = s" by simp
  from dij_baseD(7) [OF b l] sl sd have rw: "reach cols M s w (costsofar l)"
    by (simp add: least_cost_def)
  from t1 dij_baseD(4) [OF b] have t1': "state_time w + 1 < length cols" by simp
  from wf1 have base: "dij_base cols M e1"
    unfolding e1 by (rule dij_base_queue [OF b])
  have se: "settled e1 z = settled e z" "seed_time e1 k = seed_time e k" for z k
    by (simp_all add: settled_def seed_time_def e1)
  have f: "scanned_labels e1 = scanned_labels e" "earliest_time e1 = earliest_time e"
    "queue e1 = ?q"
    by (simp_all add: e1)
  have seg: "dij_seg cols M s None e1"
  proof (rule dij_segI)
    fix m assume "m \<in> set (queue e1)"
    then have "m \<in> set ?q" by (simp add: f)
    from AddSuccessors_loop_new [OF P this]
    show "reach cols M s (state m) (costsofar m) \<and>
         (case predecessor m of
            None \<Rightarrow> state_time (state m) = s
          | Some p \<Rightarrow> s \<le> state_time p \<and> settled e1 p)"
    proof
      assume mq: "m \<in> set (queue e)"
      from dij_segD(1) [OF sg mq] dij_segD(2) [OF sg mq] dij_segD(3) [OF sg mq]
      show ?thesis by (cases "predecessor m") (simp_all add: se)
    next
      assume a: "state m \<in> set (unreached_states e ! (state_time w + 1)) \<and>
        predecessor m = Some w \<and>
        costsofar m = CostSofar M (costsofar l) (TransitionCost M w (state m))
                        (EmissionCost M (state m)) \<and>
        \<not> IsInvalidCost (EmissionCost M (state m)) \<and>
        \<not> IsInvalidCost (TransitionCost M w (state m))"
      then have "state m \<in> set (unreached_states e ! (state_time w + 1))" by simp
      from dij_baseD(5) [OF b t1' this] have mc: "state m \<in> set (cols ! (state_time w + 1))" .
      from reach.step [OF rw t1' mc] a have "reach cols M s (state m) (costsofar m)" by simp
      moreover from l have "settled e w" by (simp add: settled_def)
      ultimately show ?thesis using a sw' by (simp add: se)
    qed
  next
    fix i k assume "scanned_labels e1 i = Some k" "s \<le> state_time (state k)"
    with dij_segD(4) [OF sg, of i k] show "seed_time e1 k = s" by (simp add: se f)
  next
    fix i k x
    assume a: "scanned_labels e1 i = Some k" "s \<le> state_time (state k)"
      "Some (state k) \<noteq> None" "state_time (state k) + 1 < length cols"
      "earliest_time e1 \<le> state_time (state k) + 1"
      "x \<in> set (cols ! (state_time (state k) + 1))" "\<not> settled e1 x"
      "\<not> IsInvalidCost (EmissionCost M x)" "\<not> IsInvalidCost (TransitionCost M (state k) x)"
    let ?c = "CostSofar M (costsofar k) (TransitionCost M (state k) x) (EmissionCost M x)"
    from a(1) have k: "scanned_labels e i = Some k" by (simp add: f)
    from a(7) have nx: "\<not> settled e x" by (simp add: se)
    show "\<exists>m \<in> set (queue e1). label_id m = state_id x \<and> costsofar m \<le> ?c"
    proof (cases "state k = w")
      case True
      from lazy_wf_scanned [OF wf k] True have "i = state_id w" by simp
      with k l have kl: "k = l" by simp
      from dij_baseD(6) [OF b a(4,6)] nx True
      have xu: "x \<in> set (unreached_states e ! (state_time w + 1))" by simp
      from mono vl a(8,9) True kl have "costsofar l \<le> ?c"
        unfolding monotone_costs_def by blast
      with vl have "\<not> IsInvalidCost ?c" by (auto simp: IsInvalidCost_def)
      with AddSuccessors_loop_covers [OF Pk xu, of M w "costsofar l" "queue e"] a(8,9) True kl
      show ?thesis by (simp add: f)
    next
      case False
      have "Some (state k) \<noteq> pend"
      proof
        assume "Some (state k) = pend"
        from pd [OF this [symmetric]] w False show False by simp
      qed
      from dij_segD(5) [OF sg k a(2) this a(4) _ a(6) nx a(8,9)] a(5)
      obtain m where m: "m \<in> set (queue e)" "label_id m = state_id x" "costsofar m \<le> ?c"
        by (auto simp: f)
      from AddSuccessors_loop_keeps [OF Pk m(1), of M w "costsofar l"
          "unreached_states e ! (state_time w + 1)"]
      obtain m' where "m' \<in> set ?q" "label_id m' = label_id m" "costsofar m' \<le> costsofar m"
        by auto
      with m show ?thesis by (auto simp: f intro!: bexI [of _ m'])
    qed
  next
    fix x
    assume a: "s < length cols" "earliest_time e1 \<le> s" "x \<in> set (cols ! s)"
      "\<not> settled e1 x" "\<not> IsInvalidCost (EmissionCost M x)"
    from dij_segD(6) [OF sg a(1) _ a(3) _ a(5)] a(2,4)
    obtain m where m: "m \<in> set (queue e)" "label_id m = state_id x"
      "costsofar m \<le> EmissionCost M x"
      by (auto simp: f se)
    from AddSuccessors_loop_keeps [OF Pk m(1), of M w "costsofar l"
        "unreached_states e ! (state_time w + 1)"]
    obtain m' where "m' \<in> set ?q" "label_id m' = label_id m" "costsofar m' \<le> costsofar m"
      by auto
    with m show "\<exists>m \<in> set (queue e1). label_id m = state_id x \<and> costsofar m \<le> EmissionCost M x"
      by (auto simp: f intro!: bexI [of _ m'])
  qed
  from base seg show ?thesis ..
qed

lemma dij_source_start:
  assumes P: "push_sound P" and Pk: "push_keeps P"
    and b: "dij_base cols M e" and n: "length (v_winner e) < length cols"
    and wf1: "lazy_wf (InitQueue P M (unreached_states e ! length (v_winner e)) e)"
  shows "dij_base cols M (InitQueue P M (unreached_states e ! length (v_winner e)) e) \<and>
         dij_seg cols M (length (v_winner e)) None
           (InitQueue P M (unreached_states e ! length (v_winner e)) e)"
proof -
  let ?s = "length (v_winner e)"
  let ?q = "InitQueue_loop P M (unreached_states e ! ?s) []"
  let ?e = "InitQueue P M (unreached_states e ! ?s) e"
  have e1: "?e = e\<lparr>queue := ?q\<rparr>" by (simp add: InitQueue_def)
  from wf1 have base: "dij_base cols M ?e"
    unfolding e1 by (rule dij_base_queue [OF b])
  have se: "settled ?e z = settled e z" for z
    by (simp add: settled_def e1)
  have f: "scanned_labels ?e = scanned_labels e" "earliest_time ?e = earliest_time e"
    "queue ?e = ?q"
    by (simp_all add: e1)
  have seg: "dij_seg cols M ?s None ?e"
  proof (rule dij_segI)
    fix m assume "m \<in> set (queue ?e)"
    then have "m \<in> set ?q" by (simp add: f)
    from InitQueue_loop_new [OF P this]
    have a: "state m \<in> set (unreached_states e ! ?s)" "predecessor m = None"
      "costsofar m = EmissionCost M (state m)" "\<not> IsInvalidCost (EmissionCost M (state m))"
      by simp_all
    from dij_baseD(5) [OF b n a(1)] have mc: "state m \<in> set (cols ! ?s)" .
    from reach.seed [OF n mc a(4)] a(3) trellisD [OF dij_baseD(1) [OF b] n mc] a(2)
    show "reach cols M ?s (state m) (costsofar m) \<and>
         (case predecessor m of
            None \<Rightarrow> state_time (state m) = ?s
          | Some p \<Rightarrow> ?s \<le> state_time p \<and> settled ?e p)"
      by simp
  next
    fix i l assume "scanned_labels ?e i = Some l" "?s \<le> state_time (state l)"
    with dij_baseD(8) [OF b, of i l] show "seed_time ?e l = ?s" by (simp add: f)
  next
    fix i l x
    assume "scanned_labels ?e i = Some l" "?s \<le> state_time (state l)"
    with dij_baseD(8) [OF b, of i l]
    show "\<exists>m \<in> set (queue ?e). label_id m = state_id x \<and>
            costsofar m \<le> CostSofar M (costsofar l) (TransitionCost M (state l) x) (EmissionCost M x)"
      by (simp add: f)
  next
    fix x
    assume a: "x \<in> set (cols ! ?s)" "\<not> settled ?e x" "\<not> IsInvalidCost (EmissionCost M x)"
    from dij_baseD(6) [OF b n a(1)] a(2) have "x \<in> set (unreached_states e ! ?s)"
      by (simp add: se)
    from InitQueue_loop_covers [OF Pk this a(3), of "[]"]
    show "\<exists>m \<in> set (queue ?e). label_id m = state_id x \<and> costsofar m \<le> EmissionCost M x"
      by (simp add: f)
  qed
  from base seg show ?thesis ..
qed




lemma dij_idle_fresh:
  assumes "trellis cols"
  shows "dij_idle cols M (fresh cols)"
proof -
  have "lazy_wf (fresh cols)"
    by (rule lazy_wf_fresh) (rule trellisD [OF assms])
  with assms have "dij_base cols M (fresh cols)"
    by (simp add: dij_base_def fresh_def settled_def)
  then show ?thesis by (simp add: dij_idle_def fresh_def)
qed



text \<open>The trellis of the example with two states in the first two columns.\<close>

definition dup_columns :: "State list list" where
  "dup_columns = [[mk_state 0 0, mk_state 1 0], [mk_state 2 1, mk_state 3 1], [mk_state 4 2]]"

lemma trellis_dup_columns: "trellis dup_columns"
  unfolding trellis_def dup_columns_def
  by (auto simp: less_Suc_eq tabled_def mk_state_def)





section \<open>The winners of the two engines\<close>

text \<open>
  A cost that both engines take as valid: not negative, the sentinel of the LAZY engine,
  and not \<open>+\<infinity>\<close>, the sentinel of the NAIVE engine that minimizes. A cost model without
  sentinels returns and accumulates such costs only.
\<close>

definition accepted :: "cost \<Rightarrow> bool" where
  "accepted c = (\<not> IsInvalidCost c \<and> c \<noteq> kInvalidCost False)"

definition clean_costs :: "CostModel \<Rightarrow> bool" where
  "clean_costs M =
     (monotone_costs M \<and>
      (\<forall>x. accepted (EmissionCost M x)) \<and>
      (\<forall>y x. accepted (TransitionCost M y x)) \<and>
      (\<forall>c t e. accepted c \<longrightarrow> accepted t \<longrightarrow> accepted e \<longrightarrow> accepted (CostSofar M c t e)))"

lemma clean_costsD:
  assumes "clean_costs M"
  shows "monotone_costs M" and "accepted (EmissionCost M x)" and "accepted (TransitionCost M y x)"
    and "accepted c \<Longrightarrow> accepted t \<Longrightarrow> accepted e \<Longrightarrow> accepted (CostSofar M c t e)"
  using assms unfolding clean_costs_def by blast+

lemma clean_valid:
  assumes "clean_costs M"
  shows "\<not> IsInvalidCost (EmissionCost M x)" and "\<not> IsInvalidCost (TransitionCost M y x)"
  using clean_costsD(2,3) [OF assms] by (simp_all add: accepted_def)

lemma reach_accepted:
  assumes "clean_costs M" and "reach cols M s x c"
  shows "accepted c"
  using assms(2)
  by (induction rule: reach.induct) (simp_all add: clean_costsD [OF assms(1)])

text \<open>The columns of a path are not empty.\<close>

lemma reach_columns:
  assumes tr: "trellis cols" and r: "reach cols M s x c"
  shows "\<forall>u. s \<le> u \<and> u \<le> state_time x \<longrightarrow> cols ! u \<noteq> []"
  using r
proof (induction rule: reach.induct)
  case (seed x)
  from trellisD [OF tr seed(1,2)] seed(2) show ?case by auto
next
  case (step y c x)
  from trellisD [OF tr step(2,3)] have tx: "state_time x = Suc (state_time y)" by simp
  from step(3) have "cols ! Suc (state_time y) \<noteq> []" by auto
  with step.IH tx show ?case by (auto simp: le_Suc_eq)
qed

text \<open>
  \<open>run_start cols t\<close>: the first column of the run of columns that are not empty and end
  with column \<open>t\<close>. \<open>seed_ok cols s\<close>: a run starts at column \<open>s\<close>.
\<close>

fun run_start :: "State list list \<Rightarrow> Time \<Rightarrow> Time" where
  "run_start cols 0 = 0"
| "run_start cols (Suc t) = (if cols ! t = [] then Suc t else run_start cols t)"

definition seed_ok :: "State list list \<Rightarrow> Time \<Rightarrow> bool" where
  "seed_ok cols s = (s = 0 \<or> cols ! (s - 1) = [])"

lemma run_start_eq:
  "seed_ok cols s \<Longrightarrow> s \<le> t \<Longrightarrow> \<forall>u. s \<le> u \<and> u < t \<longrightarrow> cols ! u \<noteq> [] \<Longrightarrow> run_start cols t = s"
proof (induction t)
  case 0
  then show ?case by simp
next
  case (Suc t)
  show ?case
  proof (cases "s = Suc t")
    case True
    with Suc.prems(1) show ?thesis by (simp add: seed_ok_def)
  next
    case False
    with Suc.prems(2) have st: "s \<le> t" by simp
    with Suc.prems(3) have "cols ! t \<noteq> []" by simp
    moreover from Suc.prems(3) have "\<forall>u. s \<le> u \<and> u < t \<longrightarrow> cols ! u \<noteq> []" by simp
    ultimately show ?thesis using Suc.IH [OF Suc.prems(1) st] by simp
  qed
qed

lemma reach_run_start:
  assumes "trellis cols" and "reach cols M s x c" and "seed_ok cols s"
  shows "run_start cols (state_time x) = s"
proof (rule run_start_eq [OF assms(3)])
  from reach_column [OF assms(1,2)] show "s \<le> state_time x" by simp
  from reach_columns [OF assms(1,2)]
  show "\<forall>u. s \<le> u \<and> u < state_time x \<longrightarrow> cols ! u \<noteq> []" by simp
qed

text \<open>\<open>c\<close> is the least cost of a path from column \<open>s\<close> to a state of column \<open>t\<close>.\<close>

definition column_least :: "State list list \<Rightarrow> CostModel \<Rightarrow> Time \<Rightarrow> Time \<Rightarrow> cost \<Rightarrow> bool" where
  "column_least cols M s t c =
     ((\<exists>x \<in> set (cols ! t). reach cols M s x c) \<and>
      (\<forall>x \<in> set (cols ! t). \<forall>c'. reach cols M s x c' \<longrightarrow> c \<le> c'))"

lemma column_least_unique:
  "column_least cols M s t c \<Longrightarrow> column_least cols M s t c' \<Longrightarrow> c = c'"
  unfolding column_least_def by (meson order_antisym)


subsection \<open>The winners of the LAZY engine\<close>

text \<open>
  With a cost model without sentinels: the earliest time has a winner before it; a time
  without winner has an empty column; the label of a winner costs no more than any path
  to its column from the column at which its predecessor chain starts; and a predecessor
  chain starts where a run of columns starts.
\<close>

definition win_base :: "State list list \<Rightarrow> CostModel \<Rightarrow> ViterbiSearch \<Rightarrow> bool" where
  "win_base cols M e =
     (earliest_time e \<le> length (v_winner e) \<and>
      (\<forall>t < length (v_winner e). v_winner e ! t = None \<longrightarrow> cols ! t = []) \<and>
      (\<forall>t w l. t < length (v_winner e) \<longrightarrow> v_winner e ! t = Some w \<longrightarrow>
         scanned_labels e (state_id w) = Some l \<longrightarrow>
         (\<forall>x \<in> set (cols ! t). \<forall>c. reach cols M (seed_time e l) x c \<longrightarrow> costsofar l \<le> c)) \<and>
      (\<forall>i l. scanned_labels e i = Some l \<longrightarrow> seed_ok cols (seed_time e l)))"

lemma win_baseD:
  assumes "win_base cols M e"
  shows "earliest_time e \<le> length (v_winner e)"
    and "\<And>t. t < length (v_winner e) \<Longrightarrow> v_winner e ! t = None \<Longrightarrow> cols ! t = []"
    and "\<And>t w l x c. t < length (v_winner e) \<Longrightarrow> v_winner e ! t = Some w \<Longrightarrow>
         scanned_labels e (state_id w) = Some l \<Longrightarrow> x \<in> set (cols ! t) \<Longrightarrow>
         reach cols M (seed_time e l) x c \<Longrightarrow> costsofar l \<le> c"
    and "\<And>i l. scanned_labels e i = Some l \<Longrightarrow> seed_ok cols (seed_time e l)"
  using assms unfolding win_base_def by blast+

lemma win_baseI:
  assumes "earliest_time e \<le> length (v_winner e)"
    and "\<And>t. t < length (v_winner e) \<Longrightarrow> v_winner e ! t = None \<Longrightarrow> cols ! t = []"
    and "\<And>t w l x c. t < length (v_winner e) \<Longrightarrow> v_winner e ! t = Some w \<Longrightarrow>
         scanned_labels e (state_id w) = Some l \<Longrightarrow> x \<in> set (cols ! t) \<Longrightarrow>
         reach cols M (seed_time e l) x c \<Longrightarrow> costsofar l \<le> c"
    and "\<And>i l. scanned_labels e i = Some l \<Longrightarrow> seed_ok cols (seed_time e l)"
  shows "win_base cols M e"
  unfolding win_base_def using assms by blast

lemma win_base_queue: "win_base cols M (e\<lparr>queue := q\<rparr>) = win_base cols M e"
  by (simp add: win_base_def seed_time_def)

text \<open>A state of column \<open>t\<close> is not settled before the column has a winner.\<close>

lemma unsettled_column:
  assumes b: "dij_base cols M e" and t: "t < length cols" "x \<in> set (cols ! t)"
    and w: "length (v_winner e) \<le> t"
  shows "\<not> settled e x"
proof
  assume "settled e x"
  then obtain l where l: "scanned_labels e (state_id x) = Some l" by (auto simp: settled_def)
  from settled_label [OF b t l] dij_baseD(8) [OF b l] trellisD [OF dij_baseD(1) [OF b] t] w
  show False by simp
qed

text \<open>A pass of the main loop that settles its label.\<close>

lemma win_pass_settle:
  assumes mono: "monotone_costs M"
    and b: "dij_base cols M e" and sg: "dij_seg cols M s None e" and wb: "win_base cols M e"
    and so: "seed_ok cols s"
    and pop: "q_pop (queue e) = Some (label, q)"
    and body: "IterativeSearch_body P M target st label (e\<lparr>queue := q\<rparr>) = Inr (oc, st1, e1)"
    and oc: "oc \<noteq> Skip"
    and sg1: "dij_seg cols M s pend e1"
  shows "win_base cols M e1"
proof -
  let ?x = "state label"
  let ?i = "state_id ?x" and ?t = "state_time ?x"
  note tr = dij_baseD(1) [OF b]
  from q_pop_mem [OF pop] have mem: "label \<in> set (queue e)" by simp
  from pop have "min_element (queue e) = Some label"
    by (auto simp: q_pop_def split: option.splits)
  from min_element_least [OF this]
  have least: "\<And>m. m \<in> set (queue e) \<Longrightarrow> costsofar label \<le> costsofar m" .
  from dij_segD(1) [OF sg mem] have rx: "reach cols M s ?x (costsofar label)" .
  from reach_column [OF tr rx] have st: "s \<le> ?t" and tl: "?t < length cols"
    and xc: "?x \<in> set (cols ! ?t)" by simp_all
  from IterativeSearch_body_settle [OF body oc] obtain column where
    ne: "\<not> ?t < earliest_time e" and
    sn: "scanned_labels e ?i = None" and
    er: "erase_id ?i (unreached_states e ! ?t) = Some column" and
    tw: "?t \<le> length (v_winner e)" and
    sc: "scanned_labels e1 = (scanned_labels e)(?i \<mapsto> label)" and
    ea: "earliest_time e1 = (if column = [] then ?t + 1 else earliest_time e)" and
    wi: "v_winner e1 = (if length (v_winner e) \<le> ?t then v_winner e @ [Some ?x] else v_winner e)"
    by auto
  have le: "scanned_labels e \<subseteq>\<^sub>m scanned_labels e1"
    using sn by (auto simp: map_le_def sc)
  have closed: "scanned_labels e (state_id p) \<noteq> None"
    if "scanned_labels e j = Some l" "predecessor l = Some p" for j l p
    using dij_baseD(9) [OF b that] by (simp add: settled_def)
  have old: "seed_time e1 l = seed_time e l" if "scanned_labels e j = Some l" for j l
    unfolding seed_time_def using chain_root_extend [OF le closed that] by simp
  have "scanned_labels e1 ?i = Some label" by (simp add: sc)
  from dij_segD(4) [OF sg1 this st] have new: "seed_time e1 label = s" .
  have scanned1: "(j = ?i \<and> l = label) \<or> (j \<noteq> ?i \<and> scanned_labels e j = Some l)"
    if "scanned_labels e1 j = Some l" for j l
    using that by (auto simp: sc split: if_splits)
  show ?thesis
  proof (rule win_baseI)
    from win_baseD(1) [OF wb] tw show "earliest_time e1 \<le> length (v_winner e1)"
      by (auto simp: ea wi)
  next
    fix t assume "t < length (v_winner e1)" "v_winner e1 ! t = None"
    then have "t < length (v_winner e) \<and> v_winner e ! t = None"
      by (cases "t < length (v_winner e)") (auto simp: wi nth_append split: if_splits)
    with win_baseD(2) [OF wb] show "cols ! t = []" by blast
  next
    fix t w l x c
    assume a: "t < length (v_winner e1)" "v_winner e1 ! t = Some w"
      "scanned_labels e1 (state_id w) = Some l" "x \<in> set (cols ! t)"
      "reach cols M (seed_time e1 l) x c"
    show "costsofar l \<le> c"
    proof (cases "t < length (v_winner e)")
      case True
      with a(2) have w: "v_winner e ! t = Some w" by (auto simp: wi nth_append split: if_splits)
      from dij_baseD(12) [OF b True w] sn have "state_id w \<noteq> ?i" by (auto simp: settled_def)
      with a(3) have l: "scanned_labels e (state_id w) = Some l" by (simp add: sc)
      from a(5) old [OF l] have "reach cols M (seed_time e l) x c" by simp
      from win_baseD(3) [OF wb True w l a(4) this] show ?thesis .
    next
      case False
      with a(1,2) tw have t: "t = ?t" "length (v_winner e) = ?t" and w: "w = ?x"
        by (auto simp: wi nth_append split: if_splits)
      with a(3) have l: "l = label" by (simp add: sc)
      from a(5) have r: "reach cols M s x c" by (simp add: l new)
      from trellisD [OF tr tl] a(4) t have tx: "state_time x = ?t" by simp
      from ne tx have "earliest_time e \<le> state_time x + 1" by simp
      from dij_optimal [OF mono b sg least r this] show ?thesis
      proof
        assume "\<exists>k. scanned_labels e (state_id x) = Some k \<and> costsofar k \<le> c"
        then have "settled e x" by (auto simp: settled_def)
        with unsettled_column [OF b tl _ ] a(4) t show ?thesis by simp
      next
        assume "costsofar label \<le> c"
        then show ?thesis by (simp add: l)
      qed
    qed
  next
    fix j l assume "scanned_labels e1 j = Some l"
    from scanned1 [OF this] show "seed_ok cols (seed_time e1 l)"
    proof
      assume "j = ?i \<and> l = label"
      with new so show ?thesis by simp
    next
      assume "j \<noteq> ?i \<and> scanned_labels e j = Some l"
      with old [of j l] win_baseD(4) [OF wb, of j l] show ?thesis by simp
    qed
  qed
qed


text \<open>At the head of the main loop, and when the loop is left: by an empty queue, or by
  the settling of a label at the target time.\<close>

definition agree_head ::
  "State list list \<Rightarrow> CostModel \<Rightarrow> Time \<Rightarrow> Time \<Rightarrow> Time \<Rightarrow> ViterbiSearch \<Rightarrow> bool" where
  "agree_head cols M s target st e =
     (dij_head cols M s target st e \<and> win_base cols M e \<and>
      (queue e \<noteq> [] \<longrightarrow> seed_ok cols s) \<and>
      (st < length (v_winner e) \<or> (st = s \<and> length (v_winner e) = s)))"

definition agree_exit ::
  "State list list \<Rightarrow> CostModel \<Rightarrow> Time \<Rightarrow> Time \<Rightarrow> Time \<Rightarrow> ViterbiSearch \<Rightarrow> bool" where
  "agree_exit cols M s target st e =
     (dij_base cols M e \<and> win_base cols M e \<and> s \<le> st \<and> st \<le> target \<and>
      ((dij_seg cols M s None e \<and> queue e = [] \<and>
        (st < length (v_winner e) \<or> (st = s \<and> length (v_winner e) = s))) \<or>
       (\<exists>x. dij_seg cols M s (Some x) e \<and> v_winner e \<noteq> [] \<and> last (v_winner e) = Some x \<and>
            st < length (v_winner e) \<and> target \<le> st)))"

lemma agree_head_pass:
  assumes mono: "monotone_costs M" and P: "push_sound P" and Pk: "push_keeps P"
    and h: "agree_head cols M s target st e"
    and pop: "q_pop (queue e) = Some (label, q)"
    and body: "IterativeSearch_body P M target st label (e\<lparr>queue := q\<rparr>) = Inr (oc, st1, e1)"
  shows "if oc = Break then agree_exit cols M s target st1 e1
         else agree_head cols M s target st1 e1"
proof -
  from h have dh: "dij_head cols M s target st e" and wb: "win_base cols M e"
    and so: "queue e \<noteq> [] \<longrightarrow> seed_ok cols s"
    and k2: "st < length (v_winner e) \<or> (st = s \<and> length (v_winner e) = s)"
    by (simp_all add: agree_head_def)
  from dh have b: "dij_base cols M e" and sg: "dij_seg cols M s None e"
    and k: "length (v_winner e) \<le> target" "s \<le> st" "st \<le> target" "st < target \<or> s = target"
    by (simp_all add: dij_head_def)
  from q_pop_mem [OF pop] have mem: "label \<in> set (queue e)" by simp
  with so have sok: "seed_ok cols s" by auto
  show ?thesis
  proof (cases "oc = Skip")
    case True
    from body have body': "IterativeSearch_body P M target st label (e\<lparr>queue := q\<rparr>)
                      = Inr (Skip, st1, e1)"
      by (simp add: True)
    from IterativeSearch_body_Skip [OF body'] have e1: "e1 = e\<lparr>queue := q\<rparr>" by simp
    from dij_head_pass [OF mono P Pk dh pop body] True
    have "dij_head cols M s target st1 e1" by simp
    moreover from wb have "win_base cols M e1" by (simp add: e1 win_base_queue)
    moreover from dij_pass_skip [OF P b sg pop body'] k2
    have "st1 < length (v_winner e1) \<or> (st1 = s \<and> length (v_winner e1) = s)" by simp
    ultimately show ?thesis using True sok by (simp add: agree_head_def)
  next
    case False
    let ?x = "state label"
    let ?t = "state_time ?x"
    from dij_pass_settle [OF mono P Pk b sg pop body False]
    have b1: "dij_base cols M e1"
      and sg1: "dij_seg cols M s (if oc = Break then Some ?x else None) e1"
      by simp_all
    from win_pass_settle [OF mono b sg wb sok pop body False sg1]
    have wb1: "win_base cols M e1" .
    from reach_column [OF dij_baseD(1) [OF b] dij_segD(1) [OF sg mem]] have st: "s \<le> ?t"
      by simp
    from IterativeSearch_body_settle [OF body False] have
      tw: "?t \<le> length (v_winner e)" and
      s1: "st1 = max ?t st" and
      br: "(oc = Break) = (target \<le> st1)" and
      wi: "v_winner e1 = (if length (v_winner e) \<le> ?t then v_winner e @ [Some ?x] else v_winner e)"
      by auto
    from k2 st tw s1 have k2': "st1 < length (v_winner e1)"
      by (auto simp: wi)
    show ?thesis
    proof (cases "oc = Break")
      case True
      with br s1 k st tw have "?t = target" "length (v_winner e) = ?t" "st1 = target"
        by auto
      with wi have "v_winner e1 \<noteq> []" "last (v_winner e1) = Some ?x" "st1 \<le> target" "target \<le> st1"
        by simp_all
      with True b1 sg1 wb1 k s1 k2' show ?thesis
        by (auto simp: agree_exit_def)
    next
      case nb: False
      from dij_head_pass [OF mono P Pk dh pop body] nb
      have "dij_head cols M s target st1 e1" by simp
      with nb wb1 sok k2' show ?thesis
        by (simp add: agree_head_def)
    qed
  qed
qed

lemma agree_loop:
  assumes mono: "monotone_costs M" and P: "push_sound P" and Pk: "push_keeps P"
    and h: "agree_head cols M s target st e"
    and lp: "IterativeSearch_loop P M target st e = Inr (st', e')"
  shows "agree_exit cols M s target st' e'"
proof (rule IterativeSearch_loop_exit_rule [OF lp,
      where I = "agree_head cols M s target" and Q = "agree_exit cols M s target"])
  show "agree_head cols M s target st e" by (rule h)
next
  fix st e label q oc st1 e1
  assume "agree_head cols M s target st e" "q_pop (queue e) = Some (label, q)"
    "IterativeSearch_body P M target st label (e\<lparr>queue := q\<rparr>) = Inr (oc, st1, e1)"
    "oc \<noteq> Break"
  with agree_head_pass [OF mono P Pk this(1,2,3)] show "agree_head cols M s target st1 e1"
    by simp
next
  fix st e label q st1 e1
  assume "agree_head cols M s target st e" "q_pop (queue e) = Some (label, q)"
    "IterativeSearch_body P M target st label (e\<lparr>queue := q\<rparr>) = Inr (Break, st1, e1)"
  from agree_head_pass [OF mono P Pk this] show "agree_exit cols M s target st1 e1"
    by simp
next
  fix st e
  assume "agree_head cols M s target st e" "queue e = []"
  then show "agree_exit cols M s target st e"
    by (simp add: agree_head_def agree_exit_def dij_head_def)
qed

text \<open>
  The queue is empty and every settled state of the search is expanded: the search can
  only be started anew.
\<close>

definition drained :: "State list list \<Rightarrow> CostModel \<Rightarrow> ViterbiSearch \<Rightarrow> bool" where
  "drained cols M e =
     (queue e = [] \<and> (\<exists>s. dij_seg cols M s None e \<and> s < length (v_winner e)))"

text \<open>An empty queue means that the next column is empty.\<close>

lemma drained_seed_column:
  assumes c: "clean_costs M" and b: "dij_base cols M e" and wb: "win_base cols M e"
    and sg: "dij_seg cols M s None e" and q: "queue e = []"
    and w: "length (v_winner e) = s" and s: "s < length cols"
  shows "cols ! s = []"
proof (rule ccontr)
  assume "cols ! s \<noteq> []"
  then obtain x where x: "x \<in> set (cols ! s)" by (cases "cols ! s") auto
  from unsettled_column [OF b s x] w have ns: "\<not> settled e x" by simp
  from win_baseD(1) [OF wb] w have "earliest_time e \<le> s" by simp
  from dij_segD(6) [OF sg s this x ns clean_valid(1) [OF c]] q show False by simp
qed

lemma drained_next_column:
  assumes c: "clean_costs M" and b: "dij_base cols M e" and wb: "win_base cols M e"
    and d: "drained cols M e" and w: "last (v_winner e) = Some w"
    and n: "length (v_winner e) < length cols"
  shows "cols ! length (v_winner e) = []"
proof (rule ccontr)
  let ?n = "length (v_winner e)"
  assume "cols ! ?n \<noteq> []"
  then obtain x where x: "x \<in> set (cols ! ?n)" by (cases "cols ! ?n") auto
  from d obtain s where q: "queue e = []" and sg: "dij_seg cols M s None e" and s: "s < ?n"
    unfolding drained_def by blast
  from s have ne: "v_winner e \<noteq> []" by auto
  with w have wn: "v_winner e ! (?n - 1) = Some w" "?n - 1 < ?n"
    by (simp_all add: last_conv_nth)
  note wf = dij_baseD(3) [OF b]
  from lazy_wf_winner [OF wf wn(2) wn(1)] have tw: "state_time w = ?n - 1"
    and tbw: "tabled (v_state e) w" by simp_all
  from dij_baseD(12) [OF b wn(2) wn(1)] obtain l where l: "scanned_labels e (state_id w) = Some l"
    by (auto simp: settled_def)
  from lazy_wf_scanned [OF wf l] have "state_id (state l) = state_id w" "tabled (v_state e) (state l)"
    by (simp_all add: label_wf_def)
  with tbw have sl: "state l = w" by (blast intro: tabled_unique)
  from tw s have t1: "state_time (state l) + 1 = ?n" "s \<le> state_time (state l)"
    by (simp_all add: sl)
  from unsettled_column [OF b n x] have ns: "\<not> settled e x" by simp
  from win_baseD(1) [OF wb] t1 have ea: "earliest_time e \<le> state_time (state l) + 1" by simp
  from dij_segD(5) [OF sg l t1(2) _ _ ea _ ns clean_valid [OF c]] t1(1) n x q
  show False by simp
qed

text \<open>The winner cache is filled up after the loop.\<close>

lemma agree_pad_winner:
  assumes c: "clean_costs M" and x: "agree_exit cols M s target st e"
    and tg: "target < length cols"
  shows "dij_idle cols M (pad_winner st e) \<and> win_base cols M (pad_winner st e) \<and>
         (st < target \<longrightarrow> drained cols M (pad_winner st e))"
proof -
  let ?e = "pad_winner st e"
  from x have b: "dij_base cols M e" and wb: "win_base cols M e" and st: "s \<le> st" "st \<le> target"
    and cs: "(dij_seg cols M s None e \<and> queue e = [] \<and>
        (st < length (v_winner e) \<or> (st = s \<and> length (v_winner e) = s))) \<or>
       (\<exists>x. dij_seg cols M s (Some x) e \<and> v_winner e \<noteq> [] \<and> last (v_winner e) = Some x \<and>
            st < length (v_winner e) \<and> target \<le> st)"
    by (simp_all add: agree_exit_def)
  from cs st have "dij_exit cols M s st e"
    unfolding dij_exit_def using b by auto
  from dij_pad_winner [OF this] have idle: "dij_idle cols M ?e" .
  have f: "scanned_labels ?e = scanned_labels e" "earliest_time ?e = earliest_time e"
    "queue ?e = queue e"
    by (simp_all add: pad_winner_def)
  have se: "seed_time ?e l = seed_time e l" for l
    by (simp add: seed_time_def f)
  have len: "length (v_winner e) \<le> length (v_winner ?e)" "st < length (v_winner ?e)"
    by (simp_all add: length_pad_winner)
  have old: "v_winner ?e ! t = v_winner e ! t" if "t < length (v_winner e)" for t
    using that by (simp add: pad_winner_def nth_append)
  have new: "v_winner ?e ! t = None \<and> t = s \<and> length (v_winner e) = s \<and> queue e = [] \<and>
             dij_seg cols M s None e"
    if "t < length (v_winner ?e)" "\<not> t < length (v_winner e)" for t
  proof -
    from that have "\<not> st < length (v_winner e)" "t \<le> st"
      by (auto simp: length_pad_winner)
    with cs have "st = s" "length (v_winner e) = s" "queue e = []" "dij_seg cols M s None e"
      by auto
    with that \<open>t \<le> st\<close> show ?thesis by (simp add: pad_winner_def nth_append)
  qed
  have wb1: "win_base cols M ?e"
  proof (rule win_baseI)
    from win_baseD(1) [OF wb] len(1) show "earliest_time ?e \<le> length (v_winner ?e)"
      by (simp add: f)
  next
    fix t assume a: "t < length (v_winner ?e)" "v_winner ?e ! t = None"
    show "cols ! t = []"
    proof (cases "t < length (v_winner e)")
      case True
      with a(2) old win_baseD(2) [OF wb True] show ?thesis by simp
    next
      case False
      from new [OF a(1) False] st tg drained_seed_column [OF c b wb, of s]
      show ?thesis by simp
    qed
  next
    fix t w l y d
    assume a: "t < length (v_winner ?e)" "v_winner ?e ! t = Some w"
      "scanned_labels ?e (state_id w) = Some l" "y \<in> set (cols ! t)"
      "reach cols M (seed_time ?e l) y d"
    have t: "t < length (v_winner e)"
    proof (rule ccontr)
      assume "\<not> t < length (v_winner e)"
      from new [OF a(1) this] a(2) show False by simp
    qed
    with a old have "v_winner e ! t = Some w" "scanned_labels e (state_id w) = Some l"
      "reach cols M (seed_time e l) y d"
      by (simp_all add: f se)
    from win_baseD(3) [OF wb t this(1,2) a(4) this(3)] show "costsofar l \<le> d" .
  next
    fix i l assume "scanned_labels ?e i = Some l"
    with win_baseD(4) [OF wb, of i l] show "seed_ok cols (seed_time ?e l)"
      by (simp add: f se)
  qed
  have dr: "drained cols M ?e" if "st < target"
  proof -
    from cs that have sg: "dij_seg cols M s None e" and q: "queue e = []" by auto
    have "settled ?e z = settled e z" for z by (simp add: settled_def f)
    with sg have "dij_seg cols M s None ?e"
      by (simp add: dij_seg_def f se cong: option.case_cong)
    with q st len(2) show ?thesis
      unfolding drained_def by (auto simp: f)
  qed
  from idle wb1 dr show ?thesis by blast
qed


text \<open>A call of \<open>IterativeSearch\<close>, the loop of \<open>SearchWinner\<close>, and \<open>SearchWinner\<close>.\<close>

lemma agree_IterativeSearch:
  assumes c: "clean_costs M" and P: "push_sound P" and Pk: "push_keeps P"
    and i: "dij_idle cols M e" and wb: "win_base cols M e"
    and pre: "b \<and> v_winner e \<noteq> [] \<and> last (v_winner e) \<noteq> None \<longrightarrow> drained cols M e"
    and it: "IterativeSearch P M target b e = Inr (st, e')"
  shows "dij_idle cols M e' \<and> win_base cols M e' \<and> (st < target \<longrightarrow> drained cols M e')"
proof (cases "target < length (v_winner e)")
  case True
  with it i wb show ?thesis by (auto simp: IterativeSearch_def split: if_splits)
next
  case False
  note mono = clean_costsD(1) [OF c]
  from i have base: "dij_base cols M e" by (simp add: dij_idle_def)
  note wf = dij_baseD(3) [OF base]
  from False it obtain source e1 e2 where
    src: "IterativeSearch_source P M b e = Inr (source, e1)" and
    lp: "IterativeSearch_loop P M target source e1 = Inr (st, e2)" and
    e': "e' = pad_winner st e2" and tg: "target < length (unreached_states e)"
    by (auto simp: IterativeSearch_def split: if_splits sum.splits)
  from tg dij_baseD(4) [OF base] have tg': "target < length cols" by simp
  from False tg have wl: "length (v_winner e) < length (unreached_states e)" by simp
  from IterativeSearch_source_wf [OF wf P wl src] have wf1: "lazy_wf e1" .
  have "\<exists>s. agree_head cols M s target source e1"
  proof (cases "\<not> b \<and> v_winner e \<noteq> [] \<and> last (v_winner e) \<noteq> None")
    case True
    with i obtain s pend where sg: "dij_seg cols M s pend e" and sw: "s < length (v_winner e)"
      and pd: "\<And>x. pend = Some x \<Longrightarrow> last (v_winner e) = Some x"
      unfolding dij_idle_def by blast
    from True obtain w where w: "last (v_winner e) = Some w" by auto
    with True have wn: "v_winner e ! (length (v_winner e) - 1) = Some w"
      by (simp add: last_conv_nth)
    with True src have add: "AddSuccessorsToQueue P M w e = Inr e1"
      and so: "source = length (v_winner e) - 1"
      by (auto simp: IterativeSearch_source_def Let_def split: sum.splits)
    from AddSuccessorsToQueue_Inr [OF add] obtain l :: Label where
      l: "scanned_labels e (state_id w) = Some l" and
      e1: "e1 = e\<lparr>queue := AddSuccessors_loop P M w (costsofar l)
                          (unreached_states e ! (state_time w + 1)) (queue e)\<rparr>"
      by blast
    from sw have n1: "length (v_winner e) - 1 < length (v_winner e)" by simp
    from lazy_wf_winner [OF wf n1 wn] have tw: "state_time w = length (v_winner e) - 1"
      and tbw: "tabled (v_state e) w" by simp_all
    from lazy_wf_scanned [OF wf l] have "state_id (state l) = state_id w" "tabled (v_state e) (state l)"
      by (simp_all add: label_wf_def)
    with tbw have sl: "state l = w" by (blast intro: tabled_unique)
    from sw tw sl have "s \<le> state_time (state l)" by simp
    from dij_segD(4) [OF sg l this] win_baseD(4) [OF wb l] have sok: "seed_ok cols s" by simp
    from wb have wb1: "win_base cols M e1" by (simp add: e1 win_base_queue)
    have w1: "v_winner e1 = v_winner e" by (simp add: e1)
    from sw so False have k: "s \<le> source" "source \<le> target" "source < target"
      "length (v_winner e) \<le> target" "source < length (v_winner e)"
      by arith+
    with dij_source_continue [OF mono P Pk base sg sw pd w add wf1]
    have "dij_head cols M s target source e1"
      by (simp add: dij_head_def w1)
    with wb1 sok k(5) have "agree_head cols M s target source e1"
      by (simp add: agree_head_def w1)
    then show ?thesis ..
  next
    case F: False
    let ?s = "length (v_winner e)"
    from F src have so: "source = ?s"
      and e1: "e1 = InitQueue P M (unreached_states e ! ?s) e"
      by (auto simp: IterativeSearch_source_def Let_def)
    from False tg' have n': "?s < length cols" by simp
    from dij_source_start [OF P Pk base n' wf1 [unfolded e1]] False so
    have dh: "dij_head cols M ?s target source e1"
      by (auto simp: dij_head_def e1 InitQueue_def)
    from wb have wb1: "win_base cols M e1" by (simp add: e1 InitQueue_def win_base_queue)
    have w1: "v_winner e1 = v_winner e" by (simp add: e1 InitQueue_def)
    have sok: "seed_ok cols ?s" if q: "queue e1 \<noteq> []"
    proof (cases "v_winner e = []")
      case True
      then show ?thesis by (simp add: seed_ok_def)
    next
      case ne: False
      show ?thesis
      proof (cases "last (v_winner e)")
        case None
        with ne have "v_winner e ! (?s - 1) = None" by (simp add: last_conv_nth)
        with win_baseD(2) [OF wb, of "?s - 1"] ne show ?thesis by (simp add: seed_ok_def)
      next
        case (Some w)
        with F ne pre have "drained cols M e" by simp
        from drained_next_column [OF c base wb this Some n'] have "cols ! ?s = []" .
        with dij_baseD(5) [OF base n'] have "unreached_states e ! ?s = []"
          by (cases "unreached_states e ! ?s") auto
        with q show ?thesis by (simp add: e1 InitQueue_def)
      qed
    qed
    with dh wb1 so have "agree_head cols M ?s target source e1"
      by (simp add: agree_head_def w1)
    then show ?thesis ..
  qed
  then obtain s where "agree_head cols M s target source e1" ..
  from agree_pad_winner [OF c agree_loop [OF mono P Pk this lp] tg'] e' show ?thesis by simp
qed

lemma agree_SearchWinner_loop:
  "clean_costs M \<Longrightarrow> push_sound P \<Longrightarrow> push_keeps P \<Longrightarrow> dij_idle cols M e \<Longrightarrow>
   win_base cols M e \<Longrightarrow> (st < target \<longrightarrow> drained cols M e) \<Longrightarrow>
   SearchWinner_loop P M target st e = Inr e' \<Longrightarrow> dij_idle cols M e' \<and> win_base cols M e'"
proof (induction P M target st e rule: SearchWinner_loop.induct)
  case (1 P M target searched_time e)
  show ?case
  proof (cases "searched_time < target")
    case False
    with "1.prems" show ?thesis
      by (simp add: SearchWinner_loop.simps [of P M target searched_time e])
  next
    case True
    with "1.prems"(7) obtain st1 e1 where
      it: "IterativeSearch P M target True e = Inr (st1, e1)" and
      rec: "SearchWinner_loop P M target st1 e1 = Inr e'"
      by (auto simp: SearchWinner_loop.simps [of P M target searched_time e] split: sum.splits)
    from True "1.prems"(6)
    have "True \<and> v_winner e \<noteq> [] \<and> last (v_winner e) \<noteq> None \<longrightarrow> drained cols M e" by simp
    from agree_IterativeSearch [OF "1.prems"(1,2,3,4,5) this it]
    have "dij_idle cols M e1" "win_base cols M e1" "st1 < target \<longrightarrow> drained cols M e1"
      by simp_all
    from "1.IH" [OF True it refl "1.prems"(1,2,3) this rec]
    show ?thesis .
  qed
qed

lemma agree_SearchWinner:
  assumes c: "clean_costs M" and P: "push_sound P" and Pk: "push_keeps P"
    and i: "dij_idle cols M e" and wb: "win_base cols M e"
    and sw: "ViterbiSearch_SearchWinner P M t e = Inr (w, e')"
  shows "dij_idle cols M e' \<and> win_base cols M e'"
proof (cases "t < length (v_winner e) \<or> unreached_states e = []")
  case True
  with sw i wb show ?thesis by (auto simp: ViterbiSearch_SearchWinner_def split: if_splits)
next
  case False
  with sw obtain st e1 where
    it: "IterativeSearch P M (min t (length (unreached_states e) - 1)) False e = Inr (st, e1)" and
    lp: "SearchWinner_loop P M (min t (length (unreached_states e) - 1)) st e1 = Inr e'"
    by (auto simp: ViterbiSearch_SearchWinner_def Let_def split: sum.splits if_splits)
  have "False \<and> v_winner e \<noteq> [] \<and> last (v_winner e) \<noteq> None \<longrightarrow> drained cols M e" by simp
  from agree_IterativeSearch [OF c P Pk i wb this it]
  have "dij_idle cols M e1" "win_base cols M e1"
    "st < min t (length (unreached_states e) - 1) \<longrightarrow> drained cols M e1"
    by simp_all
  from agree_SearchWinner_loop [OF c P Pk this lp] show ?thesis .
qed

lemma win_base_fresh: "win_base cols M (fresh cols)"
  by (simp add: win_base_def fresh_def)

text \<open>The winner of a time in the LAZY engine.\<close>

lemma lazy_winner_least:
  assumes i: "dij_idle cols M e" and wb: "win_base cols M e" and t: "t < length (v_winner e)"
  shows "case v_winner e ! t of
           None \<Rightarrow> cols ! t = []
         | Some w \<Rightarrow> w \<in> set (cols ! t) \<and>
             column_least cols M (run_start cols t) t (ViterbiSearch_AccumulatedCost e (state_id w)) \<and>
             reach cols M (run_start cols t) w (ViterbiSearch_AccumulatedCost e (state_id w))"
proof (cases "v_winner e ! t")
  case None
  with win_baseD(2) [OF wb t] show ?thesis by simp
next
  case (Some w)
  from i have b: "dij_base cols M e" by (simp add: dij_idle_def)
  note wf = dij_baseD(3) [OF b] and tr = dij_baseD(1) [OF b]
  from lazy_wf_winner [OF wf t Some] have tw: "state_time w = t"
    and tbw: "tabled (v_state e) w" by simp_all
  from dij_baseD(12) [OF b t Some] obtain l where l: "scanned_labels e (state_id w) = Some l"
    by (auto simp: settled_def)
  from lazy_wf_scanned [OF wf l] have "state_id (state l) = state_id w" "tabled (v_state e) (state l)"
    by (simp_all add: label_wf_def)
  with tbw have sl: "state l = w" by (blast intro: tabled_unique)
  from dij_baseD(7) [OF b l] sl have r: "reach cols M (seed_time e l) w (costsofar l)"
    by (simp add: least_cost_def)
  from reach_column [OF tr r] tw have wc: "w \<in> set (cols ! t)" by simp
  from reach_run_start [OF tr r win_baseD(4) [OF wb l]] tw
  have rs: "run_start cols t = seed_time e l" by simp
  from win_baseD(3) [OF wb t Some l] r wc rs
  have "column_least cols M (run_start cols t) t (costsofar l)"
    unfolding column_least_def by auto
  with Some wc l r rs show ?thesis
    by (simp add: ViterbiSearch_AccumulatedCost_def)
qed


subsection \<open>The winners of the NAIVE engine that minimizes\<close>

text \<open>
  What the engine needs of \<^verbatim>\<open>operator<\<close> on labels: it refines the order of the costs.
\<close>

definition cost_order :: "label_less \<Rightarrow> bool" where
  "cost_order lt =
     (\<forall>a b. (lt a b \<longrightarrow> costsofar a \<le> costsofar b) \<and> (\<not> lt a b \<longrightarrow> costsofar b \<le> costsofar a))"

lemma cost_order_sortcost: "cost_order sortcost_less"
  by (auto simp: cost_order_def sortcost_less_def)

text \<open>The cost of the state \<open>x\<close> reached through the label \<open>p\<close> of the previous column.\<close>

definition candidate :: "CostModel \<Rightarrow> Label \<Rightarrow> State \<Rightarrow> cost" where
  "candidate M p x = CostSofar M (costsofar p) (TransitionCost M (state p) x) (EmissionCost M x)"

lemma accepted_not_sentinel: "accepted c \<Longrightarrow> kInvalidCost False \<noteq> c"
  by (auto simp: accepted_def)

lemma UpdateLabel_min:
  assumes c: "clean_costs M" and lt: "cost_order lt" and p: "accepted (costsofar p)"
  shows "state (UpdateLabel False lt M p l) = state l"
    and "costsofar (UpdateLabel False lt M p l) \<le> costsofar l"
    and "costsofar (UpdateLabel False lt M p l) \<le> candidate M p (state l)"
    and "costsofar (UpdateLabel False lt M p l) = costsofar l \<or>
         costsofar (UpdateLabel False lt M p l) = candidate M p (state l)"
proof -
  let ?c = "candidate M p (state l)"
  let ?l = "\<lparr>costsofar = ?c, state = state l, predecessor = Some (state p)\<rparr>"
  from clean_costsD(4) [OF c p clean_costsD(3) [OF c] clean_costsD(2) [OF c]]
  have "accepted ?c" by (simp add: candidate_def)
  with clean_costsD(2,3) [OF c]
  have u: "UpdateLabel False lt M p l = (if lt l ?l then l else ?l)"
    by (simp add: UpdateLabel_def Let_def std_min_def candidate_def accepted_not_sentinel)
  from lt have o: "lt l ?l \<longrightarrow> costsofar l \<le> ?c" "\<not> lt l ?l \<longrightarrow> ?c \<le> costsofar l"
    unfolding cost_order_def by force+
  show "state (UpdateLabel False lt M p l) = state l" by (simp add: u)
  show "costsofar (UpdateLabel False lt M p l) \<le> costsofar l" using o by (simp add: u)
  show "costsofar (UpdateLabel False lt M p l) \<le> ?c" using o by (simp add: u)
  show "costsofar (UpdateLabel False lt M p l) = costsofar l \<or>
         costsofar (UpdateLabel False lt M p l) = ?c" by (simp add: u)
qed

text \<open>
  \<open>relaxed M D l\<close>: the label \<open>l\<close> has been relaxed from the labels \<open>D\<close> of the previous
  column: it costs no more than through any of them, and its cost is the sentinel or
  the cost through one of them.
\<close>

definition relaxed :: "CostModel \<Rightarrow> Label set \<Rightarrow> Label \<Rightarrow> bool" where
  "relaxed M D l =
     ((\<forall>p \<in> D. costsofar l \<le> candidate M p (state l)) \<and>
      (costsofar l = kInvalidCost False \<or> (\<exists>p \<in> D. costsofar l = candidate M p (state l))))"

lemma UpdateLabels_min:
  assumes c: "clean_costs M" and lt: "cost_order lt"
  shows "\<forall>p \<in> set prev. accepted (costsofar p) \<Longrightarrow> \<forall>l \<in> set labels. relaxed M D l \<Longrightarrow>
     map state (UpdateLabels False lt M labels prev) = map state labels \<and>
     (\<forall>l \<in> set (UpdateLabels False lt M labels prev). relaxed M (D \<union> set prev) l)"
proof (induction prev arbitrary: labels D)
  case Nil
  then show ?case by simp
next
  case (Cons p prev)
  from Cons.prems(1) have p: "accepted (costsofar p)" and r: "\<forall>p \<in> set prev. accepted (costsofar p)"
    by simp_all
  let ?ls = "map (UpdateLabel False lt M p) labels"
  have st: "map state ?ls = map state labels"
    by (simp add: UpdateLabel_min(1) [OF c lt p])
  have rel: "\<forall>l \<in> set ?ls. relaxed M (insert p D) l"
  proof
    fix l' assume "l' \<in> set ?ls"
    then obtain l where l: "l \<in> set labels" "l' = UpdateLabel False lt M p l" by auto
    from Cons.prems(2) l(1) have rl: "relaxed M D l" by simp
    note u = UpdateLabel_min [OF c lt p, of l]
    have "\<forall>q \<in> insert p D. costsofar l' \<le> candidate M q (state l')"
    proof
      fix q assume "q \<in> insert p D"
      then show "costsofar l' \<le> candidate M q (state l')"
      proof
        assume "q = p"
        with u(1,3) l(2) show ?thesis by simp
      next
        assume "q \<in> D"
        with rl have "costsofar l \<le> candidate M q (state l)" by (simp add: relaxed_def)
        with u(1,2) l(2) show ?thesis by (auto intro: order_trans)
      qed
    qed
    moreover have "costsofar l' = kInvalidCost False \<or>
        (\<exists>q \<in> insert p D. costsofar l' = candidate M q (state l'))"
      using u(1,4) rl l(2) unfolding relaxed_def by auto
    ultimately show "relaxed M (insert p D) l'" by (simp add: relaxed_def)
  qed
  from p have "kInvalidCost False \<noteq> costsofar p" by (rule accepted_not_sentinel)
  then have "UpdateLabels False lt M labels (p # prev) = UpdateLabels False lt M ?ls prev"
    by simp
  with Cons.IH [OF r rel] st show ?case by simp
qed

text \<open>The labels that start a run: the emission costs.\<close>

lemma emission_least:
  assumes tr: "trellis cols" and c: "clean_costs M"
    and t: "t < length cols" and x: "x \<in> set (cols ! t)"
  shows "least_cost cols M t x (EmissionCost M x)"
  unfolding least_cost_def
proof (intro conjI allI impI)
  show "reach cols M t x (EmissionCost M x)"
    by (rule reach.seed [OF t x clean_valid(1) [OF c]])
next
  fix c' assume "reach cols M t x c'"
  then show "EmissionCost M x \<le> c'"
  proof cases
    case seed
    then show ?thesis by simp
  next
    case (step y d)
    from reach_column [OF tr step(2)] have "t \<le> state_time y" by simp
    moreover from trellisD [OF tr step(3,4)] trellisD [OF tr t x]
    have "state_time y + 1 = t" by simp
    ultimately show ?thesis by simp
  qed
qed

text \<open>The labels relaxed from the labels of a column that is not empty.\<close>

lemma relaxed_least:
  assumes tr: "trellis cols" and c: "clean_costs M"
    and t: "Suc t < length cols" and x: "x \<in> set (cols ! Suc t)" and s: "s \<le> t"
    and prev: "state ` set prev = set (cols ! t)"
      "\<forall>p \<in> set prev. least_cost cols M s (state p) (costsofar p)"
    and l: "relaxed M (set prev) l" "state l = x" "costsofar l \<noteq> kInvalidCost False"
  shows "least_cost cols M s x (costsofar l)"
  unfolding least_cost_def
proof (intro conjI allI impI)
  note mono = clean_costsD(1) [OF c]
  from l obtain p where p: "p \<in> set prev" "costsofar l = candidate M p x"
    by (auto simp: relaxed_def)
  from prev(2) p(1) have rp: "reach cols M s (state p) (costsofar p)"
    by (simp add: least_cost_def)
  from prev(1) p(1) t have "state p \<in> set (cols ! t)" by auto
  with trellisD [OF tr _ this] t have tp: "state_time (state p) = t" by simp
  from reach.step [OF rp _ _ clean_valid(1) [OF c] clean_valid(2) [OF c], of x] t x tp p(2)
  show "reach cols M s x (costsofar l)"
    by (simp add: candidate_def)
next
  note mono = clean_costsD(1) [OF c]
  fix c' assume "reach cols M s x c'"
  then show "costsofar l \<le> c'"
  proof cases
    case seed
    from trellisD [OF tr seed(2,3)] trellisD [OF tr t x] s show ?thesis by simp
  next
    case (step y d)
    from trellisD [OF tr step(3,4)] trellisD [OF tr t x] have ty: "state_time y = t" by simp
    from reach_column [OF tr step(2)] ty have "y \<in> set (cols ! t)" by simp
    with prev(1) have "y \<in> state ` set prev" by simp
    then obtain p where p: "p \<in> set prev" "state p = y" by auto
    with prev(2) step(2) have pd: "costsofar p \<le> d" and rp: "reach cols M s y (costsofar p)"
      by (auto simp: least_cost_def)
    from reach_valid [OF mono rp] have "\<not> IsInvalidCost (costsofar p)" .
    with mono clean_valid [OF c] pd
    have "CostSofar M (costsofar p) (TransitionCost M y x) (EmissionCost M x)
            \<le> CostSofar M d (TransitionCost M y x) (EmissionCost M x)"
      unfolding monotone_costs_def by blast
    moreover from l(1,2) p have "costsofar l \<le> candidate M p x"
      by (auto simp: relaxed_def)
    ultimately show ?thesis using step(1) p(2) by (simp add: candidate_def)
  qed
qed


text \<open>
  The labels that the NAIVE engine keeps for a time: one for each state of the column,
  with the least cost of a path from the start of the run of the column.
\<close>

definition labels_least :: "State list list \<Rightarrow> CostModel \<Rightarrow> Time \<Rightarrow> Label list \<Rightarrow> bool" where
  "labels_least cols M t labels =
     (map state labels = cols ! t \<and>
      (\<forall>l \<in> set labels. least_cost cols M (run_start cols t) (state l) (costsofar l)))"

lemma labels_least_first:
  assumes tr: "trellis cols" and c: "clean_costs M" and t: "t < length cols"
    and s: "run_start cols t = t"
  shows "labels_least cols M t (InitLabels False M (cols ! t) True)"
  unfolding labels_least_def
proof
  show "map state (InitLabels False M (cols ! t) True) = cols ! t"
    by (simp add: InitLabels_def o_def)
  show "\<forall>l \<in> set (InitLabels False M (cols ! t) True).
          least_cost cols M (run_start cols t) (state l) (costsofar l)"
    using emission_least [OF tr c t] by (auto simp: InitLabels_def s)
qed

lemma labels_least_next:
  assumes tr: "trellis cols" and c: "clean_costs M" and lt: "cost_order lt"
    and t: "Suc t < length cols"
    and prev: "labels_least cols M t prev"
  shows "labels_least cols M (Suc t) (column_labels False lt M (Suc t) (cols ! Suc t) prev)"
proof (cases "cols ! t = []")
  case True
  with prev have "prev = []" by (simp add: labels_least_def)
  then have "relaxed_labels False lt M (cols ! Suc t) prev = InitLabels False M (cols ! Suc t) False"
    by (simp add: relaxed_labels_def)
  then have "FindWinner False (relaxed_labels False lt M (cols ! Suc t) prev) = None"
    by (simp add: FindWinner_None_iff InitLabels_def list_all_iff)
  then have "column_labels False lt M (Suc t) (cols ! Suc t) prev
               = InitLabels False M (cols ! Suc t) True"
    by (simp add: column_labels_def)
  with labels_least_first [OF tr c t] True show ?thesis by simp
next
  case False
  let ?R = "relaxed_labels False lt M (cols ! Suc t) prev"
  let ?s = "run_start cols t"
  from False have rs: "run_start cols (Suc t) = ?s" by simp
  from prev have ps: "map state prev = cols ! t"
    and pl: "\<forall>p \<in> set prev. least_cost cols M ?s (state p) (costsofar p)"
    by (simp_all add: labels_least_def)
  from ps have img: "state ` set prev = set (cols ! t)"
    by (metis set_map)
  from ps False obtain p0 where p0: "p0 \<in> set prev" by (cases prev) auto
  have acc: "\<forall>p \<in> set prev. accepted (costsofar p)"
    using pl reach_accepted [OF c] by (auto simp: least_cost_def)
  have "\<forall>l \<in> set (InitLabels False M (cols ! Suc t) False). relaxed M {} l"
    by (simp add: InitLabels_def relaxed_def)
  from UpdateLabels_min [OF c lt acc this]
  have st: "map state ?R = cols ! Suc t" and rel: "\<forall>l \<in> set ?R. relaxed M (set prev) l"
    by (simp_all add: relaxed_labels_def InitLabels_def o_def)
  have ns: "costsofar l \<noteq> kInvalidCost False" if "l \<in> set ?R" for l
  proof -
    from rel that p0 have le: "costsofar l \<le> candidate M p0 (state l)"
      by (simp add: relaxed_def)
    from acc p0 clean_costsD(4) [OF c _ clean_costsD(3) [OF c] clean_costsD(2) [OF c]]
    have "accepted (candidate M p0 (state l))" by (simp add: candidate_def)
    with le show ?thesis
      by (cases "costsofar l"; cases "candidate M p0 (state l)")
         (auto simp: accepted_def kInvalidCost_def)
  qed
  have ll: "labels_least cols M (Suc t) ?R"
    unfolding labels_least_def
  proof
    show "map state ?R = cols ! Suc t" by (rule st)
    show "\<forall>l \<in> set ?R. least_cost cols M (run_start cols (Suc t)) (state l) (costsofar l)"
    proof
      fix l assume l: "l \<in> set ?R"
      then have "state l \<in> set (map state ?R)" by simp
      with st have x: "state l \<in> set (cols ! Suc t)" by simp
      have "?s \<le> t"
      proof -
        from pl p0 have "reach cols M ?s (state p0) (costsofar p0)" by (simp add: least_cost_def)
        from reach_column [OF tr this] img p0 trellisD [OF tr, of t "state p0"] t
        show ?thesis by auto
      qed
      from relaxed_least [OF tr c t x this img pl _ refl ns [OF l]] rel l
      have "least_cost cols M ?s (state l) (costsofar l)" by blast
      then show "least_cost cols M (run_start cols (Suc t)) (state l) (costsofar l)"
        unfolding rs .
    qed
  qed
  show ?thesis
  proof (cases "FindWinner False ?R = None")
    case True
    then have "list_all (\<lambda>l. costsofar l = kInvalidCost False) ?R"
      by (simp add: FindWinner_None_iff)
    with ns have "?R = []" by (cases ?R) auto
    with st have "cols ! Suc t = []" by simp
    with True have "column_labels False lt M (Suc t) (cols ! Suc t) prev = []"
      by (simp add: column_labels_def InitLabels_def)
    with \<open>cols ! Suc t = []\<close> show ?thesis by (simp add: labels_least_def)
  next
    case False
    then have "column_labels False lt M (Suc t) (cols ! Suc t) prev = ?R"
      by (auto simp: column_labels_def)
    with ll show ?thesis by simp
  qed
qed

lemma naive_labels_least:
  assumes tr: "trellis cols" and c: "clean_costs M" and lt: "cost_order lt"
    and ok: "naive_ok False lt M e" and ns: "n_states e = cols"
  shows "t < length (n_winner e) \<Longrightarrow> labels_least cols M t (n_history e ! t)"
proof (induction t)
  case 0
  from ok have len: "length (n_winner e) \<le> length (n_states e)"
    unfolding naive_ok_iff by blast
  from ok 0 have "n_history e ! 0
      = column_labels False lt M 0 (n_states e ! 0) (n_history e ! (0 - 1))"
    unfolding naive_ok_iff by blast
  moreover have "column_labels False lt M 0 col prev = InitLabels False M col True" for col prev
    by (simp add: column_labels_def)
  ultimately have h: "n_history e ! 0 = InitLabels False M (cols ! 0) True"
    by (simp only: ns)
  from len 0 ns have "0 < length cols" by (cases cols) auto
  from labels_least_first [OF tr c this] h show ?case by simp
next
  case (Suc t)
  from ok have len: "length (n_winner e) \<le> length (n_states e)"
    unfolding naive_ok_iff by blast
  from ok Suc.prems have "n_history e ! Suc t
      = column_labels False lt M (Suc t) (n_states e ! Suc t) (n_history e ! (Suc t - 1))"
    unfolding naive_ok_iff by blast
  then have h: "n_history e ! Suc t
      = column_labels False lt M (Suc t) (cols ! Suc t) (n_history e ! t)"
    by (simp only: ns diff_Suc_1)
  from len Suc.prems ns have t: "Suc t < length cols" by simp
  from Suc.prems have "t < length (n_winner e)" by simp
  from labels_least_next [OF tr c lt t Suc.IH [OF this]] show ?case
    unfolding h .
qed


text \<open>The winner of a time in the NAIVE engine.\<close>

lemma naive_winner_least:
  assumes tr: "trellis cols" and c: "clean_costs M" and lt: "cost_order lt"
    and ok: "naive_ok False lt M e" and ns: "n_states e = cols" and nst: "n_state e = concat cols"
    and ids: "length (concat cols) \<le> kInvalidStateId"
    and t: "t < length (n_winner e)"
  shows "case n_winner e ! t of
           None \<Rightarrow> cols ! t = []
         | Some w \<Rightarrow> w \<in> set (cols ! t) \<and>
             (\<exists>d. NaiveViterbiSearch_AccumulatedCost False e (state_id w) = Inr d \<and>
                column_least cols M (run_start cols t) t d \<and>
                reach cols M (run_start cols t) w d)"
proof -
  let ?ls = "n_history e ! t"
  let ?s = "run_start cols t"
  from ok have len: "length (n_history e) = length (n_winner e)"
    "length (n_winner e) \<le> length (n_states e)"
    unfolding naive_ok_iff by blast+
  from ok t have wn: "n_winner e ! t = FindWinner False ?ls"
    unfolding naive_ok_iff by blast
  from len t ns have tc: "t < length cols" by simp
  from naive_labels_least [OF tr c lt ok ns t]
  have ms: "map state ?ls = cols ! t"
    and lc: "\<And>l. l \<in> set ?ls \<Longrightarrow> least_cost cols M ?s (state l) (costsofar l)"
    by (simp_all add: labels_least_def)
  have mem: "state l \<in> set (cols ! t)" if "l \<in> set ?ls" for l
  proof -
    from that have "state l \<in> set (map state ?ls)" by simp
    then show ?thesis by (simp only: ms)
  qed
  have nsent: "costsofar l \<noteq> kInvalidCost False" if "l \<in> set ?ls" for l
    using reach_accepted [OF c, of cols ?s "state l" "costsofar l"] lc [OF that]
    by (auto simp: least_cost_def accepted_def)
  show ?thesis
  proof (cases "n_winner e ! t")
    case None
    with wn have "FindWinner False ?ls = None" by simp
    then have "list_all (\<lambda>l. costsofar l = kInvalidCost False) ?ls"
      by (simp only: FindWinner_None_iff)
    with nsent have "?ls = []" by (cases ?ls) auto
    with ms None show ?thesis by simp
  next
    case (Some w)
    from wn Some have fw: "FindWinner False ?ls = Some w" by simp
    from FindWinner_is_winner [of False ?ls]
    have "list_ex (\<lambda>l. state l = w \<and> costsofar l \<noteq> kInvalidCost False \<and>
                     list_all (\<lambda>l'. costsofar l' = kInvalidCost False \<or>
                                    better False (costsofar l) (costsofar l')) ?ls) ?ls"
      by (simp add: is_winner_def fw)
    then obtain l where l: "l \<in> set ?ls" "state l = w"
      and best: "\<And>l'. l' \<in> set ?ls \<Longrightarrow> costsofar l \<le> costsofar l'"
      using nsent by (auto simp: list_ex_iff list_all_iff better_def)
    from mem [OF l(1)] l(2) have wc: "w \<in> set (cols ! t)" by simp
    from lc [OF l(1)] l(2) have lw: "least_cost cols M ?s w (costsofar l)" by simp
    then have rw: "reach cols M ?s w (costsofar l)" by (simp add: least_cost_def)
    have cl: "column_least cols M ?s t (costsofar l)"
      unfolding column_least_def
    proof (intro conjI ballI allI impI)
      from wc rw show "\<exists>x \<in> set (cols ! t). reach cols M ?s x (costsofar l)" by blast
    next
      fix x d assume x: "x \<in> set (cols ! t)" and r: "reach cols M ?s x d"
      from x have "x \<in> set (map state ?ls)" by (simp only: ms)
      then obtain lx where lx: "lx \<in> set ?ls" "state lx = x" by auto
      from lc [OF lx(1)] lx(2) r have "costsofar lx \<le> d" by (simp add: least_cost_def)
      with best [OF lx(1)] show "costsofar l \<le> d" by (rule order_trans)
    qed
    from trellisD [OF tr tc wc] have tw: "state_time w = t" and tbw: "tabled (concat cols) w"
      by simp_all
    from tbw ids have iw: "state_id w \<noteq> kInvalidStateId" by (simp add: tabled_def)
    from tbw nst have sw: "NaiveViterbiSearch_state e (state_id w) = Inr w"
      by (simp add: tabled_state_of_naive)
    from l have "\<exists>k \<in> set ?ls. state_id (state k) = state_id w" by auto
    then obtain l0 where l0: "find (\<lambda>k. state_id (state k) = state_id w) ?ls = Some l0"
      by (cases "find (\<lambda>k. state_id (state k) = state_id w) ?ls") (auto simp: find_None_iff)
    then have l0m: "l0 \<in> set ?ls" and l0i: "state_id (state l0) = state_id w"
      by (auto simp: find_Some_iff)
    from trellisD [OF tr tc mem [OF l0m]] have "tabled (concat cols) (state l0)" by simp
    from this tbw l0i have "state l0 = w" by (rule tabled_unique)
    with lc [OF l0m] lw have "costsofar l0 = costsofar l"
      by (auto simp: least_cost_def intro: order_antisym)
    with l0 tw t len have "NaiveViterbiSearch_label e w = Inr l0" "costsofar l0 = costsofar l"
      by (simp_all add: NaiveViterbiSearch_label_def)
    with iw sw have "NaiveViterbiSearch_AccumulatedCost False e (state_id w) = Inr (costsofar l)"
      by (simp add: NaiveViterbiSearch_AccumulatedCost_def)
    with Some wc cl rw show ?thesis by auto
  qed
qed

text \<open>The engines as calls of \<open>SearchWinner\<close> leave them, with a cost model
  without sentinels.\<close>

definition lazy_agree :: "State list list \<Rightarrow> CostModel \<Rightarrow> ViterbiSearch \<Rightarrow> bool" where
  "lazy_agree cols M e = (dij_idle cols M e \<and> win_base cols M e)"

definition naive_agree ::
  "State list list \<Rightarrow> label_less \<Rightarrow> CostModel \<Rightarrow> NaiveViterbiSearch \<Rightarrow> bool" where
  "naive_agree cols lt M e =
     (trellis cols \<and> naive_ok False lt M e \<and> n_states e = cols \<and> n_state e = concat cols)"

lemma lazy_agree_SearchWinner:
  assumes "clean_costs M" and "push_sound P" and "push_keeps P" and "lazy_agree cols M e"
    and "ViterbiSearch_SearchWinner P M t e = Inr (w, e')"
  shows "lazy_agree cols M e'"
  using agree_SearchWinner [OF assms(1,2,3) _ _ assms(5), of cols] assms(4)
  by (simp add: lazy_agree_def)

lemma naive_agree_SearchWinner:
  assumes a: "naive_agree cols lt M e"
    and sw: "NaiveViterbiSearch_SearchWinner False lt M t e = Inr (w, e')"
  shows "naive_agree cols lt M e'"
proof -
  from a have ok: "naive_ok False lt M e" by (simp add: naive_agree_def)
  from NaiveViterbiSearch_SearchWinner_ok [OF ok, of t] sw have "naive_ok False lt M e'"
    by auto
  with NaiveViterbiSearch_SearchWinner_result [OF sw] a show ?thesis
    by (simp add: naive_agree_def)
qed

lemma agree_fresh:
  assumes "trellis cols"
  shows "lazy_agree cols M (fresh cols)" and "naive_agree cols lt M (naive_fresh cols)"
  using assms dij_idle_fresh [OF assms, of M] win_base_fresh [of cols M]
    naive_ok_fresh [of False lt M cols]
  by (simp_all add: lazy_agree_def naive_agree_def naive_fresh_def)

lemma engines_agree:
  assumes c: "clean_costs M" and lt: "cost_order lt"
    and la: "lazy_agree cols M L" and na: "naive_agree cols lt M N"
    and ids: "length (concat cols) \<le> kInvalidStateId"
    and tl: "t < length (v_winner L)" and tn: "t < length (n_winner N)"
  shows "(id_of (v_winner L ! t) = kInvalidStateId) = (id_of (n_winner N ! t) = kInvalidStateId) \<and>
    (id_of (v_winner L ! t) \<noteq> kInvalidStateId \<longrightarrow>
       NaiveViterbiSearch_AccumulatedCost False N (id_of (n_winner N ! t))
         = Inr (ViterbiSearch_AccumulatedCost L (id_of (v_winner L ! t))) \<and>
       column_least cols M (run_start cols t) t
         (ViterbiSearch_AccumulatedCost L (id_of (v_winner L ! t))) \<and>
       ((\<forall>x \<in> set (cols ! t).
           reach cols M (run_start cols t) x
             (ViterbiSearch_AccumulatedCost L (id_of (v_winner L ! t))) \<longrightarrow>
           state_id x = id_of (v_winner L ! t)) \<longrightarrow>
        id_of (n_winner N ! t) = id_of (v_winner L ! t)))"
proof -
  from la have i: "dij_idle cols M L" and wb: "win_base cols M L" by (simp_all add: lazy_agree_def)
  from na have tr: "trellis cols" and ok: "naive_ok False lt M N" and ns: "n_states N = cols"
    and nst: "n_state N = concat cols" by (simp_all add: naive_agree_def)
  from ok tn ns have tc: "t < length cols" unfolding naive_ok_iff by auto
  note L = lazy_winner_least [OF i wb tl]
  note N = naive_winner_least [OF tr c lt ok ns nst ids tn]
  have valid: "state_id x \<noteq> kInvalidStateId" if "x \<in> set (cols ! t)" for x
    using trellisD [OF tr tc that] ids by (simp add: tabled_def)
  show ?thesis
  proof (cases "v_winner L ! t")
    case None
    with L have e: "cols ! t = []" by simp
    with N have "n_winner N ! t = None" by (cases "n_winner N ! t") auto
    with None show ?thesis by (simp add: id_of_def)
  next
    case (Some w)
    let ?c = "ViterbiSearch_AccumulatedCost L (state_id w)"
    from L Some have w: "w \<in> set (cols ! t)"
      and cl: "column_least cols M (run_start cols t) t ?c" by simp_all
    from w N obtain w' where w': "n_winner N ! t = Some w'"
      by (cases "n_winner N ! t") auto
    with N obtain d where d: "w' \<in> set (cols ! t)"
      "NaiveViterbiSearch_AccumulatedCost False N (state_id w') = Inr d"
      "column_least cols M (run_start cols t) t d" "reach cols M (run_start cols t) w' d"
      by auto
    from column_least_unique [OF d(3) cl] have dc: "d = ?c" .
    from Some w' valid [OF w] valid [OF d(1)] d(1,2,4) cl dc show ?thesis
      by (auto simp: id_of_def)
  qed
qed


lemma accepted_iff: "accepted c = (\<exists>r. 0 \<le> r \<and> c = Fin r)"
  by (cases c) (auto simp: accepted_def IsInvalidCost_def kInvalidCost_def)

lemma clean_costs_additive:
  assumes "\<And>x. accepted (EmissionCost M x)" and "\<And>y x. accepted (TransitionCost M y x)"
    and "CostSofar M = (\<lambda>p t e. cost_add (cost_add p t) e)"
  shows "clean_costs M"
  unfolding clean_costs_def
proof (intro conjI allI impI)
  show "monotone_costs M" by (rule monotone_costs_additive [OF assms(3)])
  show "\<And>x. accepted (EmissionCost M x)" by (rule assms(1))
  show "\<And>y x. accepted (TransitionCost M y x)" by (rule assms(2))
  show "\<And>c t e. accepted c \<Longrightarrow> accepted t \<Longrightarrow> accepted e \<Longrightarrow> accepted (CostSofar M c t e)"
    by (auto simp: accepted_iff assms(3))
qed

lemma clean_costs_dup_model: "clean_costs dup_model"
  by (rule clean_costs_additive) (simp_all add: dup_model_def accepted_iff)

text \<open>The NAIVE engine on the trellis with two states in the first two columns.\<close>

definition dup_naive_2 :: NaiveViterbiSearch where
  "dup_naive_2 =
     \<lparr>n_states = dup_columns, n_state = concat dup_columns,
      n_winner = [Some (mk_state 0 0), Some (mk_state 2 1), Some (mk_state 4 2)],
      n_history =
        [[\<lparr>costsofar = Fin 0, state = mk_state 0 0, predecessor = None\<rparr>,
          \<lparr>costsofar = Fin 0, state = mk_state 1 0, predecessor = None\<rparr>],
         [\<lparr>costsofar = Fin 1, state = mk_state 2 1, predecessor = Some (mk_state 1 0)\<rparr>,
          \<lparr>costsofar = Fin 5, state = mk_state 3 1, predecessor = Some (mk_state 1 0)\<rparr>],
         [\<lparr>costsofar = Fin 2, state = mk_state 4 2, predecessor = Some (mk_state 2 1)\<rparr>]]\<rparr>"

lemma dup_naive_search:
  "NaiveViterbiSearch_SearchWinner False sortcost_less dup_model 2 (naive_fresh dup_columns)
     = Inr (4, dup_naive_2)"
  by (simp add: naive_defs dup_model_def dup_naive_2_def dup_columns_def)

text \<open>
  A trellis of two columns with one state each, and a cost model whose transition cost is
  \<open>+\<infinity>\<close>: a cost that is not negative, and the sentinel of the NAIVE engine.
\<close>

definition pair_columns :: "State list list" where
  "pair_columns = [[mk_state 0 0], [mk_state 1 1]]"

definition inf_model :: CostModel where
  "inf_model =
     \<lparr>EmissionCost = (\<lambda>s. Fin 0),
      TransitionCost = (\<lambda>l r. PInf),
      CostSofar = (\<lambda>p t e. cost_add (cost_add p t) e)\<rparr>"

definition inf_lazy_1 :: ViterbiSearch where
  "inf_lazy_1 =
     \<lparr>v_state = [mk_state 0 0, mk_state 1 1],
      v_winner = [Some (mk_state 0 0), Some (mk_state 1 1)],
      unreached_states = [[], []],
      queue = [],
      scanned_labels =
        [0 \<mapsto> \<lparr>costsofar = Fin 0, state = mk_state 0 0, predecessor = None\<rparr>,
         1 \<mapsto> \<lparr>costsofar = PInf, state = mk_state 1 1, predecessor = Some (mk_state 0 0)\<rparr>],
      earliest_time = 2\<rparr>"

definition inf_naive_1 :: NaiveViterbiSearch where
  "inf_naive_1 =
     \<lparr>n_states = pair_columns, n_state = concat pair_columns,
      n_winner = [Some (mk_state 0 0), Some (mk_state 1 1)],
      n_history =
        [[\<lparr>costsofar = Fin 0, state = mk_state 0 0, predecessor = None\<rparr>],
         [\<lparr>costsofar = Fin 0, state = mk_state 1 1, predecessor = None\<rparr>]]\<rparr>"

lemma inf_lazy_search:
  "ViterbiSearch_SearchWinner push_heap inf_model 1 (fresh pair_columns) = Inr (1, inf_lazy_1)"
  "ViterbiSearch_SearchWinner push_unique inf_model 1 (fresh pair_columns) = Inr (1, inf_lazy_1)"
  by (simp_all add: lazy_defs inf_model_def inf_lazy_1_def pair_columns_def push_heap_def
      label_id_def)

lemma inf_naive_search:
  "NaiveViterbiSearch_SearchWinner False sortcost_less inf_model 1 (naive_fresh pair_columns)
     = Inr (1, inf_naive_1)"
  by (simp add: naive_defs inf_model_def inf_naive_1_def pair_columns_def)

text \<open>
  The claim as stated fails for a cost model that returns \<open>+\<infinity>\<close>: the cost is not negative
  and the accumulation is monotone, so that the LAZY engine takes the edge and settles
  \<open>b\<close> with the cost \<open>+\<infinity>\<close>, whereas the NAIVE engine takes \<open>+\<infinity>\<close> as its sentinel, finds no
  edge and restarts from the emission cost 0 of \<open>b\<close>. Both return \<open>b\<close> for the time 1,
  with different accumulated costs.
\<close>

theorem C1_counterexample:
  "monotone_costs inf_model \<and>
   (\<forall>x. \<not> IsInvalidCost (EmissionCost inf_model x)) \<and>
   (\<forall>y x. \<not> IsInvalidCost (TransitionCost inf_model y x)) \<and>
   ViterbiSearch_SearchWinner push_heap inf_model 1 (fresh pair_columns) = Inr (1, inf_lazy_1) \<and>
   ViterbiSearch_SearchWinner push_unique inf_model 1 (fresh pair_columns) = Inr (1, inf_lazy_1) \<and>
   NaiveViterbiSearch_SearchWinner False sortcost_less inf_model 1 (naive_fresh pair_columns)
     = Inr (1, inf_naive_1) \<and>
   ViterbiSearch_AccumulatedCost inf_lazy_1 1 = PInf \<and>
   NaiveViterbiSearch_AccumulatedCost False inf_naive_1 1 = Inr (Fin 0)"
proof -
  have "monotone_costs inf_model"
    by (rule monotone_costs_additive) (simp add: inf_model_def)
  moreover have "\<forall>x. \<not> IsInvalidCost (EmissionCost inf_model x)"
    "\<forall>y x. \<not> IsInvalidCost (TransitionCost inf_model y x)"
    by (simp_all add: inf_model_def IsInvalidCost_def)
  moreover have "ViterbiSearch_AccumulatedCost inf_lazy_1 1 = PInf"
    by (simp add: ViterbiSearch_AccumulatedCost_def inf_lazy_1_def)
  moreover have "NaiveViterbiSearch_AccumulatedCost False inf_naive_1 1 = Inr (Fin 0)"
    by (simp add: NaiveViterbiSearch_AccumulatedCost_def NaiveViterbiSearch_state_def
        NaiveViterbiSearch_label_def inf_naive_1_def pair_columns_def mk_state_def
        kInvalidStateId_def)
  ultimately show ?thesis
    using inf_lazy_search inf_naive_search by simp
qed

text \<open>
  C1 as the code has it. The cost model returns and accumulates no sentinel of either
  engine (its costs are not negative and not \<open>+\<infinity>\<close>) and its accumulation is monotone;
  the queue loses no label unless it holds a label of the same state that costs no more;
  \<^verbatim>\<open>operator<\<close> on labels refines the order of the costs. Then for engines that calls of
  \<open>SearchWinner\<close> reach from new engines on the same trellis, and for every time \<open>t\<close> of the
  trellis: the LAZY engine and the NAIVE engine that minimizes both return the absent id,
  or both return the id of a state; the accumulated costs of these two states are equal,
  and are the least cost of a path to a state of column \<open>t\<close> from the start of its run of
  columns that are not empty; and when one state only of the column has a path of this
  cost, the two engines return the same id.
\<close>

theorem C1_engines_agree:
  "(clean_costs M \<and> push_sound P \<and> push_keeps P \<and> cost_order lt \<and>
    lazy_agree cols M L \<and> naive_agree cols lt M N \<and>
    length (concat cols) \<le> kInvalidStateId \<and> t < length cols \<and>
    ViterbiSearch_SearchWinner P M t L = Inr (i, L') \<and>
    NaiveViterbiSearch_SearchWinner False lt M t N = Inr (j, N') \<longrightarrow>
      lazy_agree cols M L' \<and> naive_agree cols lt M N' \<and>
      (i = kInvalidStateId) = (j = kInvalidStateId) \<and>
      (i \<noteq> kInvalidStateId \<longrightarrow>
         NaiveViterbiSearch_AccumulatedCost False N' j
           = Inr (ViterbiSearch_AccumulatedCost L' i) \<and>
         column_least cols M (run_start cols t) t (ViterbiSearch_AccumulatedCost L' i) \<and>
         ((\<forall>x \<in> set (cols ! t).
             reach cols M (run_start cols t) x (ViterbiSearch_AccumulatedCost L' i) \<longrightarrow>
             state_id x = i) \<longrightarrow> j = i))) \<and>
   (trellis cols \<longrightarrow> lazy_agree cols M (fresh cols) \<and> naive_agree cols lt M (naive_fresh cols))"
proof (intro conjI impI)
  assume tr: "trellis cols"
  from agree_fresh [OF tr] show "lazy_agree cols M (fresh cols)"
    and "naive_agree cols lt M (naive_fresh cols)" by simp_all
next
  assume a: "clean_costs M \<and> push_sound P \<and> push_keeps P \<and> cost_order lt \<and>
    lazy_agree cols M L \<and> naive_agree cols lt M N \<and>
    length (concat cols) \<le> kInvalidStateId \<and> t < length cols \<and>
    ViterbiSearch_SearchWinner P M t L = Inr (i, L') \<and>
    NaiveViterbiSearch_SearchWinner False lt M t N = Inr (j, N')"
  then have c: "clean_costs M" and P: "push_sound P" and Pk: "push_keeps P"
    and lt: "cost_order lt" and la: "lazy_agree cols M L" and na: "naive_agree cols lt M N"
    and ids: "length (concat cols) \<le> kInvalidStateId" and t: "t < length cols"
    and sl: "ViterbiSearch_SearchWinner P M t L = Inr (i, L')"
    and sn: "NaiveViterbiSearch_SearchWinner False lt M t N = Inr (j, N')"
    by simp_all
  from lazy_agree_SearchWinner [OF c P Pk la sl] have la': "lazy_agree cols M L'" .
  from naive_agree_SearchWinner [OF na sn] have na': "naive_agree cols lt M N'" .
  from la have "dij_base cols M L" by (simp add: lazy_agree_def dij_idle_def)
  then have "length (unreached_states L) = length cols" by (rule dij_baseD(4))
  with t ViterbiSearch_SearchWinner_result(2,4) [OF sl]
  have tl: "t < length (v_winner L')" and i: "i = id_of (v_winner L' ! t)" by simp_all
  from na have "n_states N = cols" by (simp add: naive_agree_def)
  with t NaiveViterbiSearch_SearchWinner_result [OF sn]
  have tn: "t < length (n_winner N')" and j: "j = id_of (n_winner N' ! t)" by simp_all
  note E = engines_agree [OF c lt la' na' ids tl tn, folded i j]
  show "lazy_agree cols M L'" by (rule la')
  show "naive_agree cols lt M N'" by (rule na')
  from E show "(i = kInvalidStateId) = (j = kInvalidStateId)" by blast
  assume "i \<noteq> kInvalidStateId"
  with E show "NaiveViterbiSearch_AccumulatedCost False N' j
           = Inr (ViterbiSearch_AccumulatedCost L' i)"
    and "column_least cols M (run_start cols t) t (ViterbiSearch_AccumulatedCost L' i)"
    by blast+
  assume "\<forall>x \<in> set (cols ! t).
             reach cols M (run_start cols t) x (ViterbiSearch_AccumulatedCost L' i) \<longrightarrow>
             state_id x = i"
  with E \<open>i \<noteq> kInvalidStateId\<close> show "j = i" by blast
qed

theorem C1_engines_agree_witness:
  "clean_costs dup_model \<and> push_sound push_unique \<and> push_keeps push_unique \<and>
   cost_order sortcost_less \<and> trellis dup_columns \<and>
   lazy_agree dup_columns dup_model (fresh dup_columns) \<and>
   naive_agree dup_columns sortcost_less dup_model (naive_fresh dup_columns) \<and>
   length (concat dup_columns) \<le> kInvalidStateId \<and> (2::nat) < length dup_columns \<and>
   ViterbiSearch_SearchWinner push_unique dup_model 2 (fresh dup_columns)
     = Inr (4, dup_searched) \<and>
   NaiveViterbiSearch_SearchWinner False sortcost_less dup_model 2 (naive_fresh dup_columns)
     = Inr (4, dup_naive_2) \<and>
   (4::nat) \<noteq> kInvalidStateId \<and>
   map state_id (dup_columns ! 2) = [4] \<and>
   lazy_agree dup_columns dup_model dup_searched \<and>
   naive_agree dup_columns sortcost_less dup_model dup_naive_2 \<and>
   ViterbiSearch_AccumulatedCost dup_searched 4 = Fin 2 \<and>
   NaiveViterbiSearch_AccumulatedCost False dup_naive_2 4 = Inr (Fin 2) \<and>
   column_least dup_columns dup_model (run_start dup_columns 2) 2 (Fin 2)"
proof -
  note T = C1_engines_agree [where M = dup_model and P = push_unique and lt = sortcost_less
      and cols = dup_columns and L = "fresh dup_columns" and N = "naive_fresh dup_columns"
      and t = 2 and i = 4 and j = 4 and L' = dup_searched and N' = dup_naive_2]
  have tr: "trellis dup_columns" by (rule trellis_dup_columns)
  with T have f: "lazy_agree dup_columns dup_model (fresh dup_columns)"
    "naive_agree dup_columns sortcost_less dup_model (naive_fresh dup_columns)" by blast+
  have ls: "ViterbiSearch_SearchWinner push_unique dup_model 2 (fresh dup_columns)
              = Inr (4, dup_searched)"
    using dup_search_unique by (simp add: dup_trellis_def dup_columns_def)
  have ids: "length (concat dup_columns) \<le> kInvalidStateId" "(2::nat) < length dup_columns"
    "(4::nat) \<noteq> kInvalidStateId" "map state_id (dup_columns ! 2) = [4]"
    by (simp_all add: dup_columns_def kInvalidStateId_def mk_state_def)
  have ac: "ViterbiSearch_AccumulatedCost dup_searched 4 = Fin 2"
    by (simp add: ViterbiSearch_AccumulatedCost_def dup_searched_def)
  from T clean_costs_dup_model push_sound_unique push_keeps_unique cost_order_sortcost f ids(1,2)
    ls dup_naive_search
  have r: "lazy_agree dup_columns dup_model dup_searched"
    "naive_agree dup_columns sortcost_less dup_model dup_naive_2"
    "NaiveViterbiSearch_AccumulatedCost False dup_naive_2 4
       = Inr (ViterbiSearch_AccumulatedCost dup_searched 4)"
    "column_least dup_columns dup_model (run_start dup_columns 2) 2
       (ViterbiSearch_AccumulatedCost dup_searched 4)"
    using ids(3) by blast+
  from clean_costs_dup_model push_sound_unique push_keeps_unique cost_order_sortcost tr f ids
    ls dup_naive_search r show ?thesis
    unfolding ac by simp
qed

end
